(* ===== verification/Prelude.thy ===== *)
theory Prelude
  imports "HOL-Library.Word" "HOL-Library.List_Lexorder" "HOL-Library.Monad_Syntax"
begin

text \<open>
  The vocabulary shared by all component theories: the types that stand for the
  fixed-size values of the node (hashes, keys, signatures), the deque loops that
  the trackers use, and generic lemmas on lists.

  C++ \<^verbatim>\<open>int\<close> heights and counters are \<^typ>\<open>int\<close>; values whose wrap-around is
  observable are words.  A \<^verbatim>\<open>uint256\<close> is its byte sequence, compared
  lexicographically, which is the \<^verbatim>\<open>memcmp\<close> order of \<^verbatim>\<open>base_blob\<close>.
\<close>

named_theorems omap_simps
named_theorems limb_simps
named_theorems inv_intros

section \<open>Hashes, keys and signatures\<close>

type_synonym uint256 = "8 word list"

definition IsNull :: "uint256 \<Rightarrow> bool" where
  "IsNull h = list_all (\<lambda>b. b = 0) h"

text \<open>
  The BLS wrapper: a validity flag and the library value.  The type variable
  stands for the group element kept by the BLS library; its linear order stands
  for the order of serialisation hashes by which \<^verbatim>\<open>operator<\<close> compares keys.
\<close>

datatype 'i CBLSWrapper = CBLSWrapper (fValid: bool) (impl: 'i)

type_synonym 'k CBLSPublicKey = "'k CBLSWrapper"
type_synonym 's CBLSSignature = "'s CBLSWrapper"

definition IsValid :: "'i CBLSWrapper \<Rightarrow> bool" where
  "IsValid w = fValid w"

instantiation CBLSWrapper :: (linorder) linorder
begin

definition less_eq_CBLSWrapper :: "'a CBLSWrapper \<Rightarrow> 'a CBLSWrapper \<Rightarrow> bool" where
  "less_eq_CBLSWrapper a b = (if fValid a = fValid b then impl a \<le> impl b else \<not> fValid a)"

definition less_CBLSWrapper :: "'a CBLSWrapper \<Rightarrow> 'a CBLSWrapper \<Rightarrow> bool" where
  "less_CBLSWrapper a b = (if fValid a = fValid b then impl a < impl b else \<not> fValid a)"

instance
  by standard
    (auto simp: less_eq_CBLSWrapper_def less_CBLSWrapper_def CBLSWrapper.expand split: if_splits)

end

section \<open>Deque loops\<close>

text \<open>\<^verbatim>\<open>while ((int)q.size() > n) q.pop_front();\<close>\<close>

fun pop_front_over :: "int \<Rightarrow> 'a list \<Rightarrow> 'a list" where
  "pop_front_over n [] = []"
| "pop_front_over n (x # xs) = (if int (length (x # xs)) > n then pop_front_over n xs else x # xs)"

text \<open>\<^verbatim>\<open>while (!q.empty() && P(q.back())) q.pop_back();\<close>\<close>

definition pop_back_while :: "('a \<Rightarrow> bool) \<Rightarrow> 'a list \<Rightarrow> 'a list" where
  "pop_back_while P xs = rev (dropWhile P (rev xs))"

lemma pop_front_over_drop: "pop_front_over n xs = drop (length xs - nat n) xs"
  by (induction xs) (auto simp: Suc_diff_le not_less nat_le_iff)

lemma length_pop_front_over [simp]: "length (pop_front_over n xs) = min (length xs) (nat n)"
  by (auto simp: pop_front_over_drop)

lemma pop_front_over_id: "int (length xs) \<le> n \<Longrightarrow> pop_front_over n xs = xs"
  by (cases xs) auto

lemma pop_front_over_append:
  "pop_front_over n (pop_front_over n xs @ ys) = pop_front_over n (xs @ ys)"
proof -
  have "nat n \<le> length xs \<or> pop_front_over n xs = xs"
    by (cases "nat n \<le> length xs") (simp_all add: pop_front_over_drop)
  then show ?thesis
    by (elim disjE) (simp_all add: pop_front_over_drop add.commute)
qed

lemma set_pop_front_over: "set (pop_front_over n xs) \<subseteq> set xs"
  by (simp add: pop_front_over_drop set_drop_subset)

lemma sorted_wrt_pop_front_over: "sorted_wrt P xs \<Longrightarrow> sorted_wrt P (pop_front_over n xs)"
  by (simp add: pop_front_over_drop sorted_wrt_drop)

text \<open>Only the last \<open>n\<close> elements pushed survive, whatever the deque held before.\<close>

lemma pop_front_over_suffix:
  "int (length ys) \<ge> n \<Longrightarrow> pop_front_over n (xs @ ys) = pop_front_over n ys"
  by (auto simp: pop_front_over_drop nat_le_iff)

lemma pop_back_while_append_all:
  "(\<And>y. y \<in> set ys \<Longrightarrow> P y) \<Longrightarrow> pop_back_while P (xs @ ys) = pop_back_while P xs"
  by (simp add: pop_back_while_def dropWhile_append)

lemma pop_back_while_id: "(xs \<noteq> [] \<Longrightarrow> \<not> P (last xs)) \<Longrightarrow> pop_back_while P xs = xs"
  by (cases xs rule: rev_cases) (auto simp: pop_back_while_def)

lemma set_pop_back_while: "set (pop_back_while P xs) \<subseteq> set xs"
  unfolding pop_back_while_def by (auto dest: set_dropWhileD)

lemma length_pop_back_while: "length (pop_back_while P xs) \<le> length xs"
  by (simp add: pop_back_while_def length_dropWhile_le [THEN order_trans])

lemma pop_back_while_snoc:
  "pop_back_while P (xs @ [x]) = (if P x then pop_back_while P xs else xs @ [x])"
  by (simp add: pop_back_while_def)

text \<open>On a deque that is sorted by height, popping from the back is a filter.\<close>

lemma pop_back_while_filter:
  "sorted_wrt (\<lambda>a b. P a \<longrightarrow> P b) xs \<Longrightarrow> pop_back_while P xs = filter (\<lambda>x. \<not> P x) xs"
proof (induction xs rule: rev_induct)
  case Nil
  then show ?case by (simp add: pop_back_while_def)
next
  case (snoc x xs)
  then show ?case
    by (auto simp: pop_back_while_snoc sorted_wrt_append intro!: filter_True [symmetric])
qed

lemma sorted_wrt_pop_back_while: "sorted_wrt R xs \<Longrightarrow> sorted_wrt R (pop_back_while P xs)"
  by (induction xs rule: rev_induct) (auto simp: pop_back_while_snoc sorted_wrt_append pop_back_while_def)

section \<open>C++ integer division\<close>

text \<open>Signed division truncates towards zero.\<close>

definition cdiv :: "int \<Rightarrow> int \<Rightarrow> int" where
  "cdiv a b = sgn a * sgn b * (\<bar>a\<bar> div \<bar>b\<bar>)"

lemma cdiv_nonneg: "0 \<le> a \<Longrightarrow> 0 < b \<Longrightarrow> cdiv a b = a div b"
  by (cases "a = 0") (auto simp: cdiv_def)

section \<open>Lists\<close>

lemma sum_list_member_le_int:
  "(\<And>x. x \<in> set xs \<Longrightarrow> 0 \<le> f x) \<Longrightarrow> y \<in> set xs \<Longrightarrow> f y \<le> sum_list (map f xs)"
  for f :: "'a \<Rightarrow> int"
proof (induction xs)
  case (Cons x xs)
  have "0 \<le> sum_list (map f xs)" by (rule sum_list_nonneg) (use Cons.prems in auto)
  then show ?case using Cons by (fastforce simp: add_increasing)
qed simp

lemma fold_invariant_set:
  "P s \<Longrightarrow> (\<And>x s. x \<in> set xs \<Longrightarrow> P s \<Longrightarrow> P (f x s)) \<Longrightarrow> P (fold f xs s)"
  by (induction xs arbitrary: s) auto

lemma option_ext: "(\<And>v. x = Some v \<longleftrightarrow> y = Some v) \<Longrightarrow> x = y"
  by (cases x; cases y) auto

lemma list_all_map_all: "(\<And>x. P (f x)) \<Longrightarrow> list_all P (map f xs)"
  by (simp add: list_all_iff)

end
