(* ===== verification/Arith_Uint256.thy ===== *)
theory Arith_Uint256
  imports Prelude
begin

unbundle bit_operations_syntax

text \<open>
  \<^verbatim>\<open>base_uint<256>\<close> of \<^verbatim>\<open>arith_uint256.h\<close> and \<^verbatim>\<open>arith_uint256.cpp\<close>: eight 32-bit limbs, least
  significant first.  Every operator is the limb loop of the source with its
  64-bit carry; \<open>val\<close> reads the number, and the lemmas show that each operator
  computes the arithmetic operation modulo \<open>2 ^ 256\<close>.
\<close>

section \<open>Representation\<close>

type_synonym limbs = "32 word list"

definition WIDTH :: nat where
  "WIDTH = 8"

fun val :: "limbs \<Rightarrow> nat" where
  "val [] = 0"
| "val (x # xs) = unat x + 2 ^ 32 * val xs"

definition wf256 :: "limbs \<Rightarrow> bool" where
  "wf256 a = (length a = WIDTH)"

lemma unat_lt_32: "unat (x :: 32 word) < 2 ^ 32"
  using unsigned_less [of x, where ?'a = nat] by simp

lemma unat_lt_64: "unat (x :: 64 word) < 2 ^ 64"
  using unsigned_less [of x, where ?'a = nat] by simp

lemma wf256_length [limb_simps]: "wf256 a \<Longrightarrow> length a = 8"
  by (simp add: wf256_def WIDTH_def)

lemma val_bound: "val a < 2 ^ (32 * length a)"
proof (induction a)
  case (Cons x a)
  have "unat x < 2 ^ 32" by (rule unat_lt_32)
  then have "val (x # a) < 2 ^ 32 * (val a + 1)" by simp
  also have "\<dots> \<le> 2 ^ 32 * 2 ^ (32 * length a)" using Cons by simp
  finally show ?case by (simp add: power_add)
qed simp

lemma val_bound256: "wf256 a \<Longrightarrow> val a < 2 ^ 256"
  using val_bound [of a] by (simp add: limb_simps)

lemma val_append: "val (a @ b) = val a + 2 ^ (32 * length a) * val b"
  by (induction a) (simp_all add: power_add algebra_simps)

lemma val_replicate_0 [simp]: "val (replicate n 0) = 0"
  by (induction n) auto

lemma val_inj: "length a = length b \<Longrightarrow> val a = val b \<Longrightarrow> a = b"
proof (induction a b rule: list_induct2)
  case (Cons x xs y ys)
  have b: "unat x < 2 ^ 32" "unat y < 2 ^ 32" by (rule unat_lt_32)+
  have "unat x = unat y" using arg_cong [OF Cons.prems, of "\<lambda>n. n mod 2 ^ 32"] b by simp
  moreover have "val xs = val ys" using Cons.prems calculation by simp
  ultimately show ?case using Cons.IH by (simp add: word_unat_eq_iff)
qed simp

section \<open>Construction and conversion\<close>

definition of_uint64 :: "64 word \<Rightarrow> limbs" where
  "of_uint64 b = [ucast b, ucast (drop_bit 32 b), 0, 0, 0, 0, 0, 0]"

definition GetLow64 :: "limbs \<Rightarrow> 64 word" where
  "GetLow64 pn = ucast (pn ! 0) OR push_bit 32 (ucast (pn ! 1))"

section \<open>Addition, complement, increment\<close>

fun add_loop :: "64 word \<Rightarrow> limbs \<Rightarrow> limbs \<Rightarrow> limbs" where
  "add_loop carry (x # xs) (y # ys) =
     (let n = carry + ucast x + ucast y
      in ucast n # add_loop (drop_bit 32 n) xs ys)"
| "add_loop carry _ _ = []"

definition uint_add :: "limbs \<Rightarrow> limbs \<Rightarrow> limbs" where
  "uint_add a b = add_loop 0 a b"

definition uint_not :: "limbs \<Rightarrow> limbs" where
  "uint_not a = map (\<lambda>x. NOT x) a"

fun uint_inc :: "limbs \<Rightarrow> limbs" where
  "uint_inc [] = []"
| "uint_inc (x # xs) = (let x' = x + 1 in if x' = 0 then x' # uint_inc xs else x' # xs)"

fun uint_dec :: "limbs \<Rightarrow> limbs" where
  "uint_dec [] = []"
| "uint_dec (x # xs) = (let x' = x - 1 in if x' = - 1 then x' # uint_dec xs else x' # xs)"

definition uint_neg :: "limbs \<Rightarrow> limbs" where
  "uint_neg a = uint_inc (uint_not a)"

definition uint_sub :: "limbs \<Rightarrow> limbs \<Rightarrow> limbs" where
  "uint_sub a b = uint_add a (uint_neg b)"

definition uint_add64 :: "limbs \<Rightarrow> 64 word \<Rightarrow> limbs" where
  "uint_add64 a b = uint_add a (of_uint64 b)"

text \<open>The low and high halves of a 64-bit intermediate result.\<close>

lemma unat_low_half: "unat (ucast (n :: 64 word) :: 32 word) = unat n mod 2 ^ 32"
  by (simp add: unsigned_ucast_eq take_bit_eq_mod)

lemma unat_high_half: "unat (drop_bit 32 (n :: 64 word)) = unat n div 2 ^ 32"
  by (simp only: unsigned_drop_bit_eq) (simp add: drop_bit_eq_div take_bit_nat_eq_self [OF unat_lt_64])

lemma unat_ucast_32_64 [simp]: "unat (ucast (x :: 32 word) :: 64 word) = unat x"
  by (simp add: unsigned_ucast_eq unsigned_take_bit_eq take_bit_nat_eq_self_iff order_less_trans [OF unsigned_less])

lemma low_high_mod:
  "x < b \<Longrightarrow> 0 < b \<Longrightarrow> x + b * (m mod c) = (x + b * m) mod (b * c)" for x b m c :: nat
  by (simp add: mod_mult2_eq)

lemma half_mod: "n mod 2 ^ 32 + 2 ^ 32 * ((n div 2 ^ 32 + r) mod 2 ^ m) = (n + 2 ^ 32 * r) mod 2 ^ (32 + m)"
  for n r :: nat
proof -
  have "(n + 2 ^ 32 * r) mod (2 ^ 32 * 2 ^ m) =
        2 ^ 32 * ((n + 2 ^ 32 * r) div 2 ^ 32 mod 2 ^ m) + (n + 2 ^ 32 * r) mod 2 ^ 32"
    by (rule mod_mult2_eq)
  then show ?thesis by (simp add: power_add ac_simps)
qed

lemma length_add_loop [simp]: "length (add_loop c xs ys) = min (length xs) (length ys)"
  by (induction c xs ys rule: add_loop.induct) (auto simp: Let_def)

lemma unat_add3:
  "unat c < 2 ^ 32 \<Longrightarrow> unat (c + ucast x + ucast y) = unat c + unat x + unat y"
  for c :: "64 word" and x y :: "32 word"
  using unat_lt_32 [of x] unat_lt_32 [of y] by (simp add: unat_word_ariths)

lemma val_add_loop:
  "length xs = length ys \<Longrightarrow> unat c < 2 ^ 32 \<Longrightarrow>
   val (add_loop c xs ys) = (unat c + val xs + val ys) mod 2 ^ (32 * length xs)"
proof (induction xs ys arbitrary: c rule: list_induct2)
  case (Cons x xs y ys)
  let ?n = "c + ucast x + ucast y :: 64 word"
  have n: "unat ?n = unat c + unat x + unat y" using Cons.prems by (rule unat_add3)
  have "unat (drop_bit 32 ?n) < 2 ^ 32"
    using n Cons.prems unat_lt_32 [of x] unat_lt_32 [of y] by (simp add: unat_high_half)
  then have "val (add_loop c (x # xs) (y # ys)) =
      unat ?n mod 2 ^ 32 + 2 ^ 32 * ((unat ?n div 2 ^ 32 + (val xs + val ys)) mod 2 ^ (32 * length xs))"
    using Cons.IH by (simp only: add_loop.simps Let_def val.simps unat_low_half unat_high_half ac_simps)
  also have "\<dots> = (unat ?n + 2 ^ 32 * (val xs + val ys)) mod 2 ^ (32 + 32 * length xs)"
    by (rule half_mod)
  finally show ?case unfolding n by (simp add: algebra_simps)
qed simp

lemma val_uint_add:
  "length a = length b \<Longrightarrow> val (uint_add a b) = (val a + val b) mod 2 ^ (32 * length a)"
  by (simp add: uint_add_def val_add_loop)

lemma unat_max32: "unat (- 1 :: 32 word) = 2 ^ 32 - 1"
  by (simp add: unsigned_minus_1_eq_mask mask_eq_exp_minus_1)

lemma unat_not32: "unat (NOT (x :: 32 word)) = 2 ^ 32 - 1 - unat x"
proof -
  have "NOT x = - 1 - x" by (simp add: not_eq_complement)
  then show ?thesis by (simp add: unat_sub unat_max32)
qed

lemma val_uint_not: "val (uint_not a) = 2 ^ (32 * length a) - 1 - val a"
proof -
  have "val (uint_not a) + val a + 1 = 2 ^ (32 * length a)"
  proof (induction a)
    case (Cons x a)
    have "unat (NOT x) + unat x = 2 ^ 32 - 1" using unat_lt_32 [of x] by (simp add: unat_not32)
    then have "val (uint_not (x # a)) + val (x # a) + 1 = 2 ^ 32 * (val (uint_not a) + val a + 1)"
      by (simp add: uint_not_def)
    then show ?case using Cons by (simp add: power_add)
  qed (simp add: uint_not_def)
  then show ?thesis by simp
qed

lemma length_uint_inc [simp]: "length (uint_inc a) = length a"
  by (induction a) (auto simp: Let_def)

lemma length_uint_not [simp]: "length (uint_not a) = length a"
  by (simp add: uint_not_def)

lemma length_uint_neg [simp]: "length (uint_neg a) = length a"
  by (simp add: uint_neg_def)

lemma val_uint_inc: "val (uint_inc a) = (val a + 1) mod 2 ^ (32 * length a)"
proof (induction a)
  case (Cons x a)
  show ?case
  proof (cases "x + 1 = 0")
    case True
    then have "x = - 1" by (simp add: eq_neg_iff_add_eq_0)
    then have x: "unat x = 2 ^ 32 - 1" by (simp add: unat_max32)
    have "val (uint_inc (x # a)) = 2 ^ 32 * ((val a + 1) mod 2 ^ (32 * length a))"
      using Cons True by simp
    also have "\<dots> = (2 ^ 32 * (val a + 1)) mod 2 ^ (32 + 32 * length a)"
      by (simp add: power_add mult_mod_right)
    finally show ?thesis using x by (simp add: algebra_simps)
  next
    case False
    then have x: "unat (x + 1) = unat x + 1" using unatSuc [of x] by (simp add: add.commute)
    have "val (x # a) + 1 < 2 ^ (32 * length (x # a))" using val_bound [of "(x + 1) # a"] x by simp
    then show ?thesis using x False by simp
  qed
qed simp

lemma val_uint_neg: "val (uint_neg a) = (2 ^ (32 * length a) - val a) mod 2 ^ (32 * length a)"
  using val_bound [of a] by (simp add: uint_neg_def val_uint_inc val_uint_not Suc_diff_Suc)

lemma val_uint_sub:
  "length a = length b \<Longrightarrow> val b \<le> val a \<Longrightarrow> val (uint_sub a b) = val a - val b"
proof -
  assume l: "length a = length b" and le: "val b \<le> val a"
  let ?M = "2 ^ (32 * length a) :: nat"
  have "val (uint_sub a b) = (val a + (?M - val b)) mod ?M"
    using l by (simp add: uint_sub_def val_uint_add val_uint_neg mod_add_right_eq)
  also have "\<dots> = (?M + (val a - val b)) mod ?M"
    using le val_bound [of b] l by (simp add: algebra_simps)
  also have "\<dots> = val a - val b" using val_bound [of a] by simp
  finally show ?thesis .
qed

section \<open>Multiplication\<close>

fun mul32_loop :: "64 word \<Rightarrow> 32 word \<Rightarrow> limbs \<Rightarrow> limbs" where
  "mul32_loop carry b32 [] = []"
| "mul32_loop carry b32 (x # xs) =
     (let n = carry + ucast b32 * ucast x
      in ucast n # mul32_loop (drop_bit 32 n) b32 xs)"

definition uint_mul32 :: "limbs \<Rightarrow> 32 word \<Rightarrow> limbs" where
  "uint_mul32 a b32 = mul32_loop 0 b32 a"

text \<open>The inner loop of \<^verbatim>\<open>operator*=\<close>, running over the limbs \<^verbatim>\<open>a.pn[j..]\<close> of the accumulator.\<close>

fun mac_loop :: "64 word \<Rightarrow> 32 word \<Rightarrow> limbs \<Rightarrow> limbs \<Rightarrow> limbs" where
  "mac_loop carry p (x # xs) (y # ys) =
     (let n = carry + ucast x + ucast p * ucast y
      in ucast n # mac_loop (drop_bit 32 n) p xs ys)"
| "mac_loop carry p _ _ = []"

definition uint_mul :: "limbs \<Rightarrow> limbs \<Rightarrow> limbs" where
  "uint_mul pn b =
     fold (\<lambda>j a. take j a @ mac_loop 0 (pn ! j) (drop j a) b) [0..<WIDTH] (replicate WIDTH 0)"

lemma mult32_le: "unat (x :: 32 word) * unat (y :: 32 word) \<le> (2 ^ 32 - 1) * (2 ^ 32 - 1)"
  using unat_lt_32 [of x] unat_lt_32 [of y] by (intro mult_mono) auto

lemma unat_mac:
  "unat c < 2 ^ 32 \<Longrightarrow> unat (c + ucast x + ucast p * ucast y) = unat c + unat x + unat p * unat y"
  for c :: "64 word" and x y p :: "32 word"
  using unat_lt_32 [of x] mult32_le [of p y] by (simp add: unat_word_ariths)

lemma mac_carry:
  "unat c < 2 ^ 32 \<Longrightarrow> unat (drop_bit 32 (c + ucast x + ucast p * ucast y)) < 2 ^ 32"
  for c :: "64 word" and x y p :: "32 word"
  using unat_lt_32 [of x] mult32_le [of p y]
  by (simp only: unat_high_half unat_mac) simp

lemma length_mac_loop [simp]: "length (mac_loop c p xs ys) = min (length xs) (length ys)"
  by (induction c p xs ys rule: mac_loop.induct) (auto simp: Let_def)

lemma val_mac_loop:
  "length xs \<le> length ys \<Longrightarrow> unat c < 2 ^ 32 \<Longrightarrow>
   val (mac_loop c p xs ys) = (unat c + val xs + unat p * val ys) mod 2 ^ (32 * length xs)"
proof (induction c p xs ys rule: mac_loop.induct)
  case (1 c p x xs y ys)
  let ?n = "c + ucast x + ucast p * ucast y :: 64 word"
  have "val (mac_loop c p (x # xs) (y # ys)) =
      unat ?n mod 2 ^ 32 + 2 ^ 32 * ((unat ?n div 2 ^ 32 + (val xs + unat p * val ys)) mod 2 ^ (32 * length xs))"
    using "1.IH" [OF refl] "1.prems" mac_carry [OF "1.prems"(2), of x p y]
    by (simp only: mac_loop.simps Let_def val.simps unat_low_half unat_high_half ac_simps list.size)
  also have "\<dots> = (unat ?n + 2 ^ 32 * (val xs + unat p * val ys)) mod 2 ^ (32 + 32 * length xs)"
    by (rule half_mod)
  finally show ?case unfolding unat_mac [OF "1.prems"(2)] by (simp add: algebra_simps)
qed auto

lemma mul32_loop_mac: "mul32_loop c b xs = mac_loop c b (replicate (length xs) 0) xs"
  by (induction c b xs rule: mul32_loop.induct) (auto simp: Let_def)

lemma length_uint_mul32 [simp]: "length (uint_mul32 a b) = length a"
  by (simp add: uint_mul32_def mul32_loop_mac)

lemma val_uint_mul32: "val (uint_mul32 a b) = (val a * unat b) mod 2 ^ (32 * length a)"
  by (simp add: uint_mul32_def mul32_loop_mac val_mac_loop ac_simps)

lemma val_take_Suc: "j < length a \<Longrightarrow> val (take (Suc j) a) = val (take j a) + 2 ^ (32 * j) * unat (a ! j)"
  by (simp add: take_Suc_conv_app_nth val_append)

lemma val_mul_step:
  assumes "length a = length b" "j \<le> length a"
  shows "val (take j a @ mac_loop 0 p (drop j a) b) =
         (val a + 2 ^ (32 * j) * (unat p * val b)) mod 2 ^ (32 * length a)"
proof -
  have "val (take j a @ mac_loop 0 p (drop j a) b) =
     val (take j a) + 2 ^ (32 * j) * ((val (drop j a) + unat p * val b) mod 2 ^ (32 * (length a - j)))"
    using assms by (simp add: val_append val_mac_loop)
  also have "\<dots> = (val (take j a) + 2 ^ (32 * j) * (val (drop j a) + unat p * val b))
                 mod (2 ^ (32 * j) * 2 ^ (32 * (length a - j)))"
    using val_bound [of "take j a"] assms by (intro low_high_mod) (auto simp: min_absorb2)
  also have "val (take j a) + 2 ^ (32 * j) * (val (drop j a) + unat p * val b) =
             val a + 2 ^ (32 * j) * (unat p * val b)"
    using val_append [of "take j a" "drop j a"] assms by (simp add: algebra_simps min_absorb2)
  finally show ?thesis using assms(2)
    by (metis (no_types, lifting) add_mult_distrib2 le_add_diff_inverse power_add)
qed

lemma val_uint_mul:
  assumes "wf256 a" "wf256 b"
  shows "val (uint_mul a b) = (val a * val b) mod 2 ^ 256" and "wf256 (uint_mul a b)"
proof -
  let ?f = "\<lambda>j acc. take j acc @ mac_loop 0 (a ! j) (drop j acc) b"
  have len: "length a = 8" "length b = 8" using assms by (simp_all add: limb_simps)
  have "j \<le> 8 \<Longrightarrow> length (fold ?f [0..<j] (replicate 8 0)) = 8 \<and>
       val (fold ?f [0..<j] (replicate 8 0)) = (val (take j a) * val b) mod 2 ^ 256" for j
  proof (induction j)
    case (Suc j)
    let ?acc = "fold ?f [0..<j] (replicate 8 0)"
    have IH: "length ?acc = 8" "val ?acc = (val (take j a) * val b) mod 2 ^ 256" using Suc by simp_all
    have "val (?f j ?acc) = (val ?acc + 2 ^ (32 * j) * (unat (a ! j) * val b)) mod 2 ^ (32 * length ?acc)"
      by (rule val_mul_step) (use IH len Suc.prems in simp_all)
    also have "\<dots> = (val (take (Suc j) a) * val b) mod 2 ^ 256"
      using len Suc.prems
      by (simp only: IH val_take_Suc) (simp add: mod_add_left_eq mod_add_right_eq algebra_simps)
    finally show ?case using IH len Suc.prems by simp
  qed simp
  from this [of 8] show "val (uint_mul a b) = (val a * val b) mod 2 ^ 256" "wf256 (uint_mul a b)"
    using len by (simp_all add: uint_mul_def WIDTH_def wf256_def)
qed

section \<open>Comparison\<close>

fun cmp_from :: "nat \<Rightarrow> limbs \<Rightarrow> limbs \<Rightarrow> int" where
  "cmp_from 0 a b = 0"
| "cmp_from (Suc i) a b = (if a ! i < b ! i then - 1 else if a ! i > b ! i then 1 else cmp_from i a b)"

definition CompareTo :: "limbs \<Rightarrow> limbs \<Rightarrow> int" where
  "CompareTo a b = cmp_from WIDTH a b"

definition EqualTo :: "limbs \<Rightarrow> 64 word \<Rightarrow> bool" where
  "EqualTo pn b =
     (if \<exists>i \<in> set [2..<WIDTH]. pn ! i \<noteq> 0 then False
      else if ucast (pn ! 1) \<noteq> drop_bit 32 b then False
      else if ucast (pn ! 0) \<noteq> b AND 0xffffffff then False
      else True)"

lemma cmp_from_spec:
  "n \<le> length a \<Longrightarrow> n \<le> length b \<Longrightarrow>
   cmp_from n a b = sgn (int (val (take n a)) - int (val (take n b)))"
proof (induction n)
  case (Suc n)
  have ba: "val (take n a) < 2 ^ (32 * n)" and bb: "val (take n b) < 2 ^ (32 * n)"
    using val_bound [of "take n a"] val_bound [of "take n b"] Suc.prems by (simp_all add: min_absorb2)
  have less: "u + p * x < v + p * y" if "u < p" "x < y" for u v p x y :: nat
  proof -
    have "u + p * x < p * (x + 1)" using that by simp
    also have "\<dots> \<le> p * y" using that by (intro mult_le_mono) auto
    finally show ?thesis by simp
  qed
  consider "a ! n < b ! n" | "b ! n < a ! n" | "a ! n = b ! n" by force
  then show ?case
  proof cases
    case 1
    then have "val (take (Suc n) a) < val (take (Suc n) b)"
      using less [OF ba] Suc.prems by (simp add: val_take_Suc word_less_nat_alt)
    then show ?thesis using 1 by simp
  next
    case 2
    then have "val (take (Suc n) b) < val (take (Suc n) a)"
      using less [OF bb] Suc.prems by (simp add: val_take_Suc word_less_nat_alt)
    then show ?thesis using 2 by simp
  next
    case 3
    then show ?thesis using Suc by (simp add: val_take_Suc)
  qed
qed simp

lemma CompareTo_spec:
  "wf256 a \<Longrightarrow> wf256 b \<Longrightarrow> CompareTo a b = sgn (int (val a) - int (val b))"
  by (simp add: CompareTo_def WIDTH_def cmp_from_spec limb_simps)

abbreviation uint_lt :: "limbs \<Rightarrow> limbs \<Rightarrow> bool" where
  "uint_lt a b \<equiv> CompareTo a b < 0"

abbreviation uint_ge :: "limbs \<Rightarrow> limbs \<Rightarrow> bool" where
  "uint_ge a b \<equiv> CompareTo a b \<ge> 0"

abbreviation uint_gt :: "limbs \<Rightarrow> limbs \<Rightarrow> bool" where
  "uint_gt a b \<equiv> CompareTo a b > 0"

lemma uint_lt_val: "wf256 a \<Longrightarrow> wf256 b \<Longrightarrow> uint_lt a b \<longleftrightarrow> val a < val b"
  by (simp add: CompareTo_spec sgn_if)

lemma uint_gt_val: "wf256 a \<Longrightarrow> wf256 b \<Longrightarrow> uint_gt a b \<longleftrightarrow> val b < val a"
  by (simp add: CompareTo_spec sgn_if)

lemma uint_ge_val: "wf256 a \<Longrightarrow> wf256 b \<Longrightarrow> uint_ge a b \<longleftrightarrow> val b \<le> val a"
  by (simp add: CompareTo_spec sgn_if)

section \<open>Number of significant bits\<close>

fun top_bit :: "nat \<Rightarrow> 32 word \<Rightarrow> nat" where
  "top_bit 0 x = 0"
| "top_bit (Suc n) x = (if x AND push_bit (Suc n) 1 \<noteq> 0 then Suc n else top_bit n x)"

fun bits_from :: "nat \<Rightarrow> limbs \<Rightarrow> nat" where
  "bits_from 0 pn = 0"
| "bits_from (Suc pos) pn = (if pn ! pos \<noteq> 0 then 32 * pos + top_bit 31 (pn ! pos) + 1 else bits_from pos pn)"

definition uint_bits :: "limbs \<Rightarrow> nat" where
  "uint_bits pn = bits_from WIDTH pn"

lemma and_push_bit_1: "(x AND push_bit n 1 \<noteq> 0) \<longleftrightarrow> bit x n" for x :: "32 word"
proof -
  have "push_bit n 1 AND x = (0 :: 32 word) \<longleftrightarrow> \<not> bit x n"
    by (simp add: push_bit_eq_mult and_exp_eq_0_iff_not_bit and.commute)
  then show ?thesis by (simp add: and.commute)
qed

lemma top_bit_Suc: "top_bit (Suc n) x = (if bit x (Suc n) then Suc n else top_bit n x)"
  by (simp only: top_bit.simps and_push_bit_1)

declare top_bit.simps(2) [simp del]

lemma top_bit_spec:
  "unat x < 2 ^ Suc n \<Longrightarrow> x \<noteq> 0 \<Longrightarrow> 2 ^ top_bit n x \<le> unat x \<and> unat x < 2 ^ Suc (top_bit n x)"
proof (induction n)
  case 0
  then have "unat x \<noteq> 0" by (simp add: unat_eq_0)
  then show ?case using 0 by simp
next
  case (Suc n)
  have bit: "bit x (Suc n) \<longleftrightarrow> odd (unat x div 2 ^ Suc n)"
    using bit_unsigned_iff [of x "Suc n", where ?'a = nat] by (simp add: bit_iff_odd [of "unat x"])
  have lt: "unat x div 2 ^ Suc n < 2" using Suc.prems(1) by (simp add: div_less_iff_less_mult)
  show ?case
  proof (cases "bit x (Suc n)")
    case True
    then have "unat x div 2 ^ Suc n = 1" using bit lt by (auto simp: less_2_cases_iff)
    then have "2 ^ Suc n \<le> unat x" using div_eq_0_iff
      by (metis not_le one_neq_zero div_less)
    then show ?thesis using True Suc.prems by (simp add: top_bit_Suc)
  next
    case False
    then have "unat x div 2 ^ Suc n = 0" using bit lt by (auto simp: less_2_cases_iff)
    then have "unat x < 2 ^ Suc n" by (simp add: div_eq_0_iff)
    then show ?thesis using False Suc by (simp add: top_bit_Suc)
  qed
qed

lemma bits_from_spec:
  "n \<le> length a \<Longrightarrow>
   val (take n a) < 2 ^ bits_from n a \<and> (bits_from n a \<noteq> 0 \<longrightarrow> 2 ^ (bits_from n a - 1) \<le> val (take n a))"
proof (induction n)
  case (Suc n)
  show ?case
  proof (cases "a ! n = 0")
    case True
    then show ?thesis using Suc by (simp add: val_take_Suc)
  next
    case False
    let ?x = "unat (a ! n)" and ?t = "top_bit 31 (a ! n)"
    have t: "2 ^ ?t \<le> ?x" "?x + 1 \<le> 2 ^ Suc ?t"
      using top_bit_spec [of "a ! n" 31] False unat_lt_32 [of "a ! n"] by auto
    have v: "val (take n a) < 2 ^ (32 * n)"
      using val_bound [of "take n a"] Suc.prems by (simp add: min_absorb2)
    have "val (take (Suc n) a) < 2 ^ (32 * n) * (?x + 1)" using v Suc.prems by (simp add: val_take_Suc)
    also have "\<dots> \<le> 2 ^ (32 * n) * 2 ^ Suc ?t" using t(2) by (rule mult_le_mono2)
    finally have "val (take (Suc n) a) < 2 ^ (32 * n + ?t + 1)" by (simp add: power_add)
    moreover have "2 ^ (32 * n + ?t) \<le> val (take (Suc n) a)"
      using t(1) Suc.prems by (simp add: val_take_Suc power_add trans_le_add2)
    ultimately show ?thesis using False by simp
  qed
qed simp

lemma uint_bits_less: "wf256 a \<Longrightarrow> val a < 2 ^ uint_bits a"
  using bits_from_spec [of 8 a] by (simp add: uint_bits_def WIDTH_def limb_simps)

lemma uint_bits_ge: "wf256 a \<Longrightarrow> uint_bits a \<noteq> 0 \<Longrightarrow> 2 ^ (uint_bits a - 1) \<le> val a"
  using bits_from_spec [of 8 a] by (simp add: uint_bits_def WIDTH_def limb_simps)

lemma uint_bits_eq_0: "wf256 a \<Longrightarrow> uint_bits a = 0 \<longleftrightarrow> val a = 0"
  using uint_bits_less [of a] uint_bits_ge [of a] less_le_trans [of 0 "2 ^ (uint_bits a - 1)" "val a"]
  by (cases "uint_bits a = 0") auto

lemma uint_bits_unique:
  "wf256 a \<Longrightarrow> 2 ^ n \<le> val a \<Longrightarrow> val a < 2 ^ Suc n \<Longrightarrow> uint_bits a = Suc n"
proof -
  assume a: "wf256 a" "2 ^ n \<le> val a" "val a < 2 ^ Suc n"
  have nz: "uint_bits a \<noteq> 0" using a uint_bits_eq_0 [of a] by (auto simp: le_less_trans)
  have "(2::nat) ^ n < 2 ^ uint_bits a" using a uint_bits_less [of a] by linarith
  moreover have "(2::nat) ^ (uint_bits a - 1) < 2 ^ Suc n" using a uint_bits_ge [OF a(1) nz] by linarith
  ultimately have "n < uint_bits a" "uint_bits a - 1 < Suc n"
    by (meson one_less_numeral_iff power_less_imp_less_exp semiring_norm(76))+
  then show ?thesis using nz by linarith
qed

lemma uint_bits_le_256: "wf256 a \<Longrightarrow> uint_bits a \<le> 256"
proof (rule ccontr)
  assume a: "wf256 a" "\<not> uint_bits a \<le> 256"
  then have "(2::nat) ^ 256 \<le> 2 ^ (uint_bits a - 1)" by (intro power_increasing) auto
  also have "\<dots> \<le> val a" using a by (intro uint_bits_ge) auto
  finally show False using val_bound256 [OF a(1)] by simp
qed

section \<open>Shifts\<close>

definition uint_shl :: "limbs \<Rightarrow> nat \<Rightarrow> limbs" where
  "uint_shl a shift =
     (let k = shift div 32; s = shift mod 32
      in fold (\<lambda>i pn.
           let pn = (if i + k + 1 < WIDTH \<and> s \<noteq> 0
                     then pn[i + k + 1 := pn ! (i + k + 1) OR drop_bit (32 - s) (a ! i)] else pn)
           in if i + k < WIDTH then pn[i + k := pn ! (i + k) OR push_bit s (a ! i)] else pn)
         [0..<WIDTH] (replicate WIDTH 0))"

definition uint_shr :: "limbs \<Rightarrow> nat \<Rightarrow> limbs" where
  "uint_shr a shift =
     (let k = shift div 32; s = shift mod 32
      in fold (\<lambda>i pn.
           let pn = (if i \<ge> k + 1 \<and> s \<noteq> 0
                     then pn[i - k - 1 := pn ! (i - k - 1) OR push_bit (32 - s) (a ! i)] else pn)
           in if i \<ge> k then pn[i - k := pn ! (i - k) OR drop_bit s (a ! i)] else pn)
         [0..<WIDTH] (replicate WIDTH 0))"

text \<open>Closed forms of the two loops: a shift by less than a limb, then a move by whole limbs.\<close>

fun shl_small :: "nat \<Rightarrow> 32 word \<Rightarrow> limbs \<Rightarrow> limbs" where
  "shl_small s c [] = []"
| "shl_small s c (x # xs) = (c OR push_bit s x) # shl_small s (drop_bit (32 - s) x) xs"

fun shr_small :: "nat \<Rightarrow> limbs \<Rightarrow> limbs" where
  "shr_small s [] = []"
| "shr_small s (x # xs) =
     (drop_bit s x OR push_bit (32 - s) (case xs of [] \<Rightarrow> 0 | y # ys \<Rightarrow> y)) # shr_small s xs"

lemma upt_8: "[0..<8] = [0, 1, 2, 3, 4, 5, 6, 7 :: nat]"
  by (simp add: upt_rec)

lemma length8_cases:
  assumes "wf256 a"
  obtains a0 a1 a2 a3 a4 a5 a6 a7 where "a = [a0, a1, a2, a3, a4, a5, a6, a7]"
  using assms unfolding wf256_def WIDTH_def
  by (auto simp: length_Suc_conv eval_nat_numeral)

lemma nat_8_cases:
  obtains "k = 0" | "k = 1" | "k = 2" | "k = 3" | "k = 4" | "k = 5" | "k = 6" | "k = 7" | "k \<ge> (8::nat)"
  by linarith

lemma drop_bit_32_word [simp]: "drop_bit 32 (x :: 32 word) = 0"
  by (rule bit_word_eqI) (auto simp: bit_drop_bit_eq dest: bit_imp_le_length)

lemma push_bit_32_word [simp]: "push_bit 32 (x :: 32 word) = 0"
  by (rule bit_word_eqI) (auto simp: bit_push_bit_iff)

lemma exp_32_mult_word: "4294967296 * (x :: 32 word) = 0"
  using push_bit_32_word [of x] by (simp add: push_bit_eq_mult mult.commute)

lemma uint_shl_closed:
  assumes "wf256 a"
  shows "uint_shl a shift = take 8 (replicate (shift div 32) 0 @ shl_small (shift mod 32) 0 a)"
proof -
  obtain a0 a1 a2 a3 a4 a5 a6 a7 where a: "a = [a0, a1, a2, a3, a4, a5, a6, a7]"
    using assms by (rule length8_cases)
  define k where "k = shift div 32"
  define s where "s = shift mod 32"
  show ?thesis
    unfolding uint_shl_def WIDTH_def upt_8 Let_def k_def [symmetric] s_def [symmetric]
    by (cases k rule: nat_8_cases; cases "s = 0")
      (simp_all add: a eval_nat_numeral)
qed

lemma uint_shr_closed:
  assumes "wf256 a"
  shows "uint_shr a shift = take 8 (shr_small (shift mod 32) (drop (shift div 32) a) @ replicate 8 0)"
proof -
  obtain a0 a1 a2 a3 a4 a5 a6 a7 where a: "a = [a0, a1, a2, a3, a4, a5, a6, a7]"
    using assms by (rule length8_cases)
  define k where "k = shift div 32"
  define s where "s = shift mod 32"
  show ?thesis
    unfolding uint_shr_def WIDTH_def upt_8 Let_def k_def [symmetric] s_def [symmetric]
    by (cases k rule: nat_8_cases; cases "s = 0")
      (simp_all add: a eval_nat_numeral or.commute exp_32_mult_word)
qed

lemma val_take: "val (take n a) = val a mod 2 ^ (32 * n)"
proof (cases "n \<le> length a")
  case True
  have "val a = val (take n a) + 2 ^ (32 * n) * val (drop n a)"
    using val_append [of "take n a" "drop n a"] True by (simp add: min_absorb2)
  moreover have "val (take n a) < 2 ^ (32 * n)"
    using val_bound [of "take n a"] True by (simp add: min_absorb2)
  ultimately show ?thesis by simp
next
  case False
  then have "(2::nat) ^ (32 * length a) \<le> 2 ^ (32 * n)" by (intro power_increasing) auto
  then have "val a < 2 ^ (32 * n)" using val_bound [of a] by linarith
  then show ?thesis using False by simp
qed

lemma val_drop: "val (drop n a) = val a div 2 ^ (32 * n)"
proof (cases "n \<le> length a")
  case True
  have "val a = val (take n a) + 2 ^ (32 * n) * val (drop n a)"
    using val_append [of "take n a" "drop n a"] True by (simp add: min_absorb2)
  moreover have "val (take n a) < 2 ^ (32 * n)"
    using val_bound [of "take n a"] True by (simp add: min_absorb2)
  ultimately show ?thesis by simp
next
  case False
  then have "(2::nat) ^ (32 * length a) \<le> 2 ^ (32 * n)" by (intro power_increasing) auto
  then have "val a < 2 ^ (32 * n)" using val_bound [of a] by linarith
  then show ?thesis using False by simp
qed

lemma unat_push32: "unat (push_bit s (x :: 32 word)) = (unat x * 2 ^ s) mod 2 ^ 32"
  by (simp only: unsigned_push_bit_eq) (simp add: push_bit_eq_mult take_bit_eq_mod)

lemma unat_drop32: "unat (drop_bit s (x :: 32 word)) = unat x div 2 ^ s"
  by (simp only: unsigned_drop_bit_eq) (simp add: drop_bit_eq_div take_bit_nat_eq_self [OF unat_lt_32])

lemma unat_or_disjoint:
  fixes c x :: "'a::len word"
  assumes "unat c < 2 ^ s" "2 ^ s dvd unat x"
  shows "unat (c OR x) = unat c + unat x"
proof -
  obtain q where "unat x = push_bit s q"
    using assms(2) by (auto simp: push_bit_eq_mult mult.commute)
  then have "bit (unat x) n \<Longrightarrow> s \<le> n" for n by (simp add: bit_push_bit_iff)
  moreover have "bit (unat c) n \<Longrightarrow> n < s" for n
    using assms(1) by (metis take_bit_nat_eq_self bit_take_bit_iff)
  ultimately have "unat c AND unat x = 0"
    by (intro bit_eqI) (simp add: bit_and_iff, meson leD)
  then show ?thesis by (simp add: unsigned_or_eq disjunctive_add_eq_or)
qed

lemma length_shl_small [simp]: "length (shl_small s c xs) = length xs"
  by (induction s c xs rule: shl_small.induct) auto

lemma length_shr_small [simp]: "length (shr_small s xs) = length xs"
  by (induction s xs rule: shr_small.induct) auto

lemma exp_split: "s \<le> 32 \<Longrightarrow> (2::nat) ^ 32 = 2 ^ (32 - s) * 2 ^ s"
  by (simp only: flip: power_add) simp

lemma div_exp_split: "s \<le> 32 \<Longrightarrow> x div 2 ^ (32 - s) = (x * 2 ^ s) div 2 ^ 32" for x :: nat
  by (simp only: exp_split) simp

lemma exp_dvd_mod: "s \<le> 32 \<Longrightarrow> 2 ^ s dvd (x * 2 ^ s) mod (2 ^ 32 :: nat)"
  by (simp only: exp_split mult.commute [of x] mult.commute [of _ "2 ^ s"]) (simp flip: mult_mod_right)

lemma val_shl_small:
  "s \<le> 32 \<Longrightarrow> unat c < 2 ^ s \<Longrightarrow>
   val (shl_small s c xs) = (val xs * 2 ^ s + unat c) mod 2 ^ (32 * length xs)"
proof (induction s c xs rule: shl_small.induct)
  case (2 s c x xs)
  let ?m = "unat x * 2 ^ s"
  have o: "unat (c OR push_bit s x) = unat c + ?m mod 2 ^ 32"
    using "2.prems" exp_dvd_mod [of s "unat x"] by (subst unat_or_disjoint [of _ s]) (simp_all only: unat_push32)
  have c': "unat (drop_bit (32 - s) x) = ?m div 2 ^ 32"
    using "2.prems" by (simp only: unat_drop32 div_exp_split)
  have lt: "unat (drop_bit (32 - s) x) < 2 ^ s"
    using unat_lt_32 [of x] by (simp only: c') (simp add: less_mult_imp_div_less)
  have "val (shl_small s c (x # xs)) =
      (unat c + ?m mod 2 ^ 32) + 2 ^ 32 * ((val xs * 2 ^ s + ?m div 2 ^ 32) mod 2 ^ (32 * length xs))"
    using "2.IH" [OF "2.prems"(1) lt] by (simp only: shl_small.simps val.simps o c')
  also have "\<dots> = (unat c + ?m mod 2 ^ 32 + 2 ^ 32 * (val xs * 2 ^ s + ?m div 2 ^ 32)) mod (2 ^ 32 * 2 ^ (32 * length xs))"
    using unat_lt_32 [of "c OR push_bit s x"] by (intro low_high_mod) (simp_all only: o)
  also have "unat c + ?m mod 2 ^ 32 + 2 ^ 32 * (val xs * 2 ^ s + ?m div 2 ^ 32) =
      val (x # xs) * 2 ^ s + unat c"
    using mod_mult_div_eq [of ?m "2 ^ 32"] by (simp only: val.simps algebra_simps)
  finally show ?case by (simp add: power_add)
qed simp

lemma val_shr_small: "s < 32 \<Longrightarrow> val (shr_small s xs) = val xs div 2 ^ s"
proof (induction s xs rule: shr_small.induct)
  case (2 s x xs)
  define y where "y = (case xs of [] \<Rightarrow> 0 | z # zs \<Rightarrow> z)"
  have y: "unat y = val xs mod 2 ^ 32"
    unfolding y_def using unat_lt_32 by (auto split: list.splits)
  have lt: "unat (drop_bit s x) < 2 ^ (32 - s)"
    using unat_lt_32 [of x] "2.prems" exp_split [of s]
    by (simp only: unat_drop32) (simp add: less_mult_imp_div_less)
  have push: "unat (push_bit (32 - s) y) = (val xs * 2 ^ (32 - s)) mod 2 ^ 32"
    by (simp only: unat_push32 y) (simp add: mod_mult_left_eq)
  have o: "unat (drop_bit s x OR push_bit (32 - s) y) = unat x div 2 ^ s + (val xs * 2 ^ (32 - s)) mod 2 ^ 32"
    using lt exp_dvd_mod [of "32 - s" "val xs"]
    by (subst unat_or_disjoint [of _ "32 - s"]) (simp_all only: push unat_drop32 diff_le_self)
  have q: "val xs div 2 ^ s = (val xs * 2 ^ (32 - s)) div 2 ^ 32"
    using div_exp_split [of "32 - s" "val xs"] "2.prems" by simp
  have "val (shr_small s (x # xs)) = unat x div 2 ^ s + val xs * 2 ^ (32 - s)"
    using "2.IH" "2.prems" mod_mult_div_eq [of "val xs * 2 ^ (32 - s)" "2 ^ 32"]
    by (simp only: shr_small.simps val.simps o q flip: y_def)
  also have "\<dots> = val (x # xs) div 2 ^ s"
  proof -
    have "val (x # xs) = unat x + 2 ^ s * (val xs * 2 ^ (32 - s))"
      using exp_split [of s] "2.prems" by (simp only: val.simps) (simp add: ac_simps)
    then show ?thesis by (simp del: val.simps)
  qed
  finally show ?case .
qed simp

lemma wf256_uint_shl [simp]: "wf256 a \<Longrightarrow> wf256 (uint_shl a n)"
  by (simp add: uint_shl_closed) (simp add: wf256_def WIDTH_def min_def)

lemma wf256_uint_shr [simp]: "wf256 a \<Longrightarrow> wf256 (uint_shr a n)"
  by (simp add: uint_shr_closed) (simp add: wf256_def WIDTH_def min_def)

lemma div_mod_exp: "(2::nat) ^ n = 2 ^ (32 * (n div 32)) * 2 ^ (n mod 32)"
  by (simp only: flip: power_add) simp

lemma val_uint_shl: "wf256 a \<Longrightarrow> val (uint_shl a n) = (val a * 2 ^ n) mod 2 ^ 256"
proof -
  assume a: "wf256 a"
  have "val (uint_shl a n) = (2 ^ (32 * (n div 32)) * ((val a * 2 ^ (n mod 32)) mod 2 ^ 256)) mod 2 ^ 256"
    using a by (simp only: uint_shl_closed val_take val_append val_replicate_0 length_replicate)
      (simp add: val_shl_small limb_simps)
  also have "\<dots> = (2 ^ (32 * (n div 32)) * (val a * 2 ^ (n mod 32))) mod 2 ^ 256"
    by (rule mod_mult_right_eq)
  finally show ?thesis by (simp only: div_mod_exp [of n] ac_simps)
qed

lemma val_uint_shr: "wf256 a \<Longrightarrow> val (uint_shr a n) = val a div 2 ^ n"
proof -
  assume a: "wf256 a"
  have "val (take 8 (xs @ replicate 8 0)) = val xs" if "length xs \<le> 8" for xs
    using that by (simp add: val_append)
  then have "val (uint_shr a n) = val (shr_small (n mod 32) (drop (n div 32) a))"
    using a unfolding uint_shr_closed [OF a] by (metis diff_le_self length_drop length_shr_small wf256_length)
  then have "val (uint_shr a n) = val a div 2 ^ (32 * (n div 32)) div 2 ^ (n mod 32)"
    by (simp add: val_shr_small val_drop)
  then show ?thesis by (simp only: div_mod_exp [of n] div_mult2_eq)
qed

section \<open>Division\<close>

text \<open>
  The shift-subtract loop: the argument counts the remaining rounds, so round
  \<^verbatim>\<open>shift\<close> is entered with \<^verbatim>\<open>shift + 1\<close>.  Division by zero throws.
\<close>

fun div_loop :: "nat \<Rightarrow> limbs \<Rightarrow> limbs \<Rightarrow> limbs \<Rightarrow> limbs \<times> limbs" where
  "div_loop 0 num dv pn = (pn, num)"
| "div_loop (Suc shift) num dv pn =
     (let (num, pn) =
        (if uint_ge num dv
         then (uint_sub num dv, pn[shift div 32 := pn ! (shift div 32) OR push_bit (shift mod 32) 1])
         else (num, pn))
      in div_loop shift num (uint_shr dv 1) pn)"

definition uint_div :: "limbs \<Rightarrow> limbs \<Rightarrow> limbs option" where
  "uint_div a b =
     (let num_bits = uint_bits a; div_bits = uint_bits b
      in if div_bits = 0 then None
         else if div_bits > num_bits then Some (of_uint64 0)
         else let shift = num_bits - div_bits
              in Some (fst (div_loop (Suc shift) a (uint_shl b shift) (of_uint64 0))))"

lemma val_list_update:
  "i < length xs \<Longrightarrow> val (xs[i := x]) + 2 ^ (32 * i) * unat (xs ! i) = val xs + 2 ^ (32 * i) * unat x"
proof (induction xs arbitrary: i)
  case (Cons y ys)
  show ?case
  proof (cases i)
    case (Suc j)
    then have "2 ^ 32 * (val (ys[j := x]) + 2 ^ (32 * j) * unat (ys ! j)) =
               2 ^ 32 * (val ys + 2 ^ (32 * j) * unat x)"
      using Cons by simp
    then show ?thesis using Suc by (simp add: power_add algebra_simps)
  qed simp
qed simp

lemma unat_nth: "i < length a \<Longrightarrow> unat (a ! i) = val a div 2 ^ (32 * i) mod 2 ^ 32"
proof -
  assume i: "i < length a"
  have "val (drop i a) = unat (a ! i) + 2 ^ 32 * val (drop (Suc i) a)"
    using i by (simp flip: Cons_nth_drop_Suc)
  then show ?thesis using unat_lt_32 [of "a ! i"] by (simp flip: val_drop)
qed

lemma val_set_bit:
  assumes "wf256 q" "n < 256" "2 ^ Suc n dvd val q"
  shows "val (q[n div 32 := q ! (n div 32) OR push_bit (n mod 32) 1]) = val q + 2 ^ n"
proof -
  let ?i = "n div 32" and ?j = "n mod 32"
  have i: "?i < length q" using assms by (simp add: limb_simps less_mult_imp_div_less)
  have one: "unat (push_bit ?j 1 :: 32 word) = 2 ^ ?j"
  proof -
    have "(2::nat) ^ ?j < 2 ^ 32" by (rule power_strict_increasing) simp_all
    then show ?thesis by (simp only: unat_push32) simp
  qed
  have "2 ^ Suc ?j dvd unat (q ! ?i)"
  proof -
    have "(2::nat) ^ Suc n = 2 ^ (32 * ?i) * 2 ^ Suc ?j" using div_mod_exp [of n] by simp
    then obtain k where "val q = 2 ^ (32 * ?i) * (2 ^ Suc ?j * k)" using assms(3) by (auto simp: ac_simps elim!: dvdE)
    then have "val q div 2 ^ (32 * ?i) = 2 ^ Suc ?j * k" by simp
    moreover have "(2::nat) ^ Suc ?j dvd 2 ^ 32" by (rule le_imp_power_dvd) (simp add: Suc_leI)
    ultimately show ?thesis using i by (simp only: unat_nth) (simp only: dvd_mod dvd_triv_left)
  qed
  then have "unat (push_bit ?j 1 OR q ! ?i) = 2 ^ ?j + unat (q ! ?i)"
    by (subst unat_or_disjoint [of _ "Suc ?j"]) (simp_all only: one, simp)
  then have "unat (q ! ?i OR push_bit ?j 1) = 2 ^ ?j + unat (q ! ?i)"
    by (simp only: or.commute)
  then show ?thesis
    using val_list_update [OF i, of "q ! ?i OR push_bit ?j 1"] div_mod_exp [of n] by (simp add: algebra_simps)
qed

lemma wf256_uint_sub [simp]: "wf256 a \<Longrightarrow> wf256 b \<Longrightarrow> wf256 (uint_sub a b)"
  by (simp add: wf256_def uint_sub_def uint_add_def)

lemma wf256_of_uint64 [simp]: "wf256 (of_uint64 x)"
  by (simp add: wf256_def WIDTH_def of_uint64_def)

lemma wf256_list_update [simp]: "wf256 a \<Longrightarrow> wf256 (a[i := x])"
  by (simp add: wf256_def)

lemma val_of_uint64: "val (of_uint64 x) = unat x"
  by (simp only: of_uint64_def val.simps unat_low_half unat_high_half unsigned_0)
    (use mod_mult_div_eq [of "unat x" "2 ^ 32"] unat_lt_64 [of x] in
      \<open>simp add: less_mult_imp_div_less\<close>)

lemma div_loop_spec:
  "wf256 num \<Longrightarrow> wf256 dv \<Longrightarrow> wf256 q \<Longrightarrow> n \<le> 256 \<Longrightarrow> 0 < D \<Longrightarrow>
   (n \<noteq> 0 \<Longrightarrow> val dv = D * 2 ^ (n - 1)) \<Longrightarrow> val num < D * 2 ^ n \<Longrightarrow> 2 ^ n dvd val q \<Longrightarrow>
   div_loop n num dv q = (q', r) \<Longrightarrow>
   wf256 q' \<and> wf256 r \<and> val q' * D + val r = val q * D + val num \<and> val r < D"
proof (induction n num dv q rule: div_loop.induct)
  case (2 s num dv q)
  let ?q = "q[s div 32 := q ! (s div 32) OR push_bit (s mod 32) 1]"
  have dv: "val dv = D * 2 ^ s" using "2.prems"(6) by simp
  have shr: "s \<noteq> 0 \<Longrightarrow> val (uint_shr dv 1) = D * 2 ^ (s - 1)"
    using dv "2.prems"(2) by (cases s) (simp_all add: val_uint_shr)
  have dvd: "2 ^ s dvd val q" using "2.prems"(8) by (rule power_le_dvd) simp
  show ?case
  proof (cases "val dv \<le> val num")
    case True
    then have ge: "uint_ge num dv" using "2.prems" by (simp add: uint_ge_val)
    have q: "val ?q = val q + 2 ^ s" using "2.prems" by (intro val_set_bit) auto
    have sub: "val (uint_sub num dv) = val num - D * 2 ^ s"
      using True "2.prems" dv by (subst val_uint_sub) (auto simp: limb_simps)
    have "wf256 q' \<and> wf256 r \<and> val q' * D + val r = val ?q * D + val (uint_sub num dv) \<and> val r < D"
      by (rule "2.IH" [OF _ refl]) (use "2.prems" ge shr q sub dvd True dv in auto)
    then show ?thesis using q sub True dv by (simp add: algebra_simps)
  next
    case False
    then have ge: "\<not> uint_ge num dv" using "2.prems" by (simp add: uint_ge_val)
    show ?thesis
      by (rule "2.IH" [OF _ refl]) (use "2.prems" ge shr dvd False dv in auto)
  qed
qed auto

lemma uint_div_zero: "wf256 a \<Longrightarrow> wf256 b \<Longrightarrow> uint_div a b = None \<longleftrightarrow> val b = 0"
  by (auto simp: uint_div_def Let_def uint_bits_eq_0)

lemma uint_div_spec:
  assumes a: "wf256 a" and b: "wf256 b" and nz: "val b \<noteq> 0"
  obtains q where "uint_div a b = Some q" "wf256 q" "val q = val a div val b"
proof (cases "uint_bits b > uint_bits a")
  case True
  have "val a < 2 ^ uint_bits a" using a by (rule uint_bits_less)
  also have "\<dots> \<le> 2 ^ (uint_bits b - 1)" using True by (intro power_increasing) auto
  also have "\<dots> \<le> val b" using b nz True by (intro uint_bits_ge) auto
  finally have "val a div val b = 0" by simp
  then show ?thesis
    using that [of "of_uint64 0"] True nz b by (simp add: uint_div_def Let_def uint_bits_eq_0 val_of_uint64)
next
  case False
  let ?s = "uint_bits a - uint_bits b"
  have bits: "uint_bits b \<noteq> 0" using b nz by (simp add: uint_bits_eq_0)
  obtain q r where loop: "div_loop (Suc ?s) a (uint_shl b ?s) (of_uint64 0) = (q, r)" by force
  have "val b * 2 ^ ?s < 2 ^ uint_bits b * 2 ^ ?s" using uint_bits_less [OF b] by simp
  also have "\<dots> = 2 ^ uint_bits a" using False by (simp flip: power_add)
  also have "\<dots> \<le> 2 ^ 256" using uint_bits_le_256 [OF a] by (intro power_increasing) auto
  finally have shl: "val (uint_shl b ?s) = val b * 2 ^ ?s" using b by (simp add: val_uint_shl)
  have "val a < 2 ^ uint_bits a" using a by (rule uint_bits_less)
  also have "\<dots> = 2 ^ (uint_bits b - 1) * 2 ^ Suc ?s" using False bits by (simp only: flip: power_add) simp
  also have "\<dots> \<le> val b * 2 ^ Suc ?s" using uint_bits_ge [OF b bits] by simp
  finally have num: "val a < val b * 2 ^ Suc ?s" .
  have spec: "wf256 q \<and> wf256 r \<and> val q * val b + val r = val (of_uint64 0) * val b + val a \<and> val r < val b"
    by (rule div_loop_spec [OF a _ _ _ _ _ num _ loop])
      (use b nz shl uint_bits_le_256 [OF a] bits in \<open>simp_all add: val_of_uint64\<close>)
  then have "val a div val b = val q"
    by (metis add.commute add_0 div_mult_self3 div_less add_cancel_right_left mult_0 nz val_of_uint64 unsigned_0 plus_nat.add_0)
  then show ?thesis using that [of q] spec loop False bits by (simp add: uint_div_def Let_def)
qed

section \<open>The compact encoding of targets\<close>

text \<open>\<^verbatim>\<open>SetCompact\<close> returns the number with its negative and overflow flags.\<close>

definition SetCompact :: "32 word \<Rightarrow> limbs \<times> bool \<times> bool" where
  "SetCompact nCompact =
     (let nSize = unat (drop_bit 24 nCompact);
          nWord = nCompact AND 0x007fffff;
          nWord = (if nSize \<le> 3 then drop_bit (8 * (3 - nSize)) nWord else nWord);
          this = (if nSize \<le> 3 then of_uint64 (ucast nWord)
                  else uint_shl (of_uint64 (ucast nWord)) (8 * (nSize - 3)));
          fNegative = (nWord \<noteq> 0 \<and> nCompact AND 0x00800000 \<noteq> 0);
          fOverflow = (nWord \<noteq> 0 \<and> (nSize > 34 \<or> nWord > 0xff \<and> nSize > 33 \<or> nWord > 0xffff \<and> nSize > 32))
      in (this, fNegative, fOverflow))"

text \<open>\<^verbatim>\<open>GetCompact\<close>; a failed \<^verbatim>\<open>assert\<close> is \<^term>\<open>None\<close>.\<close>

definition GetCompact :: "bool \<Rightarrow> limbs \<Rightarrow> 32 word option" where
  "GetCompact fNegative a =
     (let nSize = (uint_bits a + 7) div 8;
          nCompact = (if nSize \<le> 3 then ucast (push_bit (8 * (3 - nSize)) (GetLow64 a))
                      else ucast (GetLow64 (uint_shr a (8 * (nSize - 3)))) :: 32 word);
          (nCompact, nSize) = (if nCompact AND 0x00800000 \<noteq> 0 then (drop_bit 8 nCompact, nSize + 1)
                               else (nCompact, nSize))
      in if nCompact AND NOT 0x007fffff \<noteq> 0 then None
         else if \<not> nSize < 256 then None
         else let nCompact = nCompact OR push_bit 24 (word_of_nat nSize)
              in Some (nCompact OR (if fNegative \<and> nCompact AND 0x007fffff \<noteq> 0 then 0x00800000 else 0)))"

definition compact_size :: "32 word \<Rightarrow> nat" where
  "compact_size c = unat c div 2 ^ 24"

definition compact_word :: "32 word \<Rightarrow> nat" where
  "compact_word c = unat c mod 2 ^ 23"

lemma unat_and_mask23: "unat (c AND 0x007fffff) = compact_word c" for c :: "32 word"
proof -
  have "(0x007fffff :: 32 word) = mask 23" by (simp add: mask_eq_exp_minus_1)
  then have "c AND 0x007fffff = take_bit 23 c" by (simp add: take_bit_eq_mask)
  then have "unat (c AND 0x007fffff) = take_bit 23 (unat c)" by (simp add: unsigned_take_bit_eq)
  then show ?thesis by (simp add: compact_word_def take_bit_eq_mod)
qed

lemma and_bit23: "(c AND 0x00800000 \<noteq> 0) \<longleftrightarrow> bit c 23" for c :: "32 word"
  using and_push_bit_1 [of c 23] by (simp add: push_bit_eq_mult)

lemma bit23_nat: "bit (c :: 32 word) 23 \<longleftrightarrow> odd (unat c div 2 ^ 23)"
  using bit_unsigned_iff [of c 23, where ?'a = nat] by (simp add: bit_iff_odd [of "unat c"])

lemma val_of_word32: "val (of_uint64 (ucast (w :: 32 word))) = unat w"
  by (simp add: val_of_uint64)

lemma overflow_iff:
  "m < 2 ^ 23 \<Longrightarrow>
   (m \<noteq> 0 \<and> (n > 34 \<or> m > 0xff \<and> n > 33 \<or> m > 0xffff \<and> n > 32)) \<longleftrightarrow> 2 ^ 256 \<le> m * 256 ^ (n - 3)"
  for m n :: nat
proof -
  assume m: "m < 2 ^ 23"
  have e: "(2::nat) ^ 256 = 256 ^ 32" by simp
  consider "n \<le> 32" | "n = 33" | "n = 34" | "n \<ge> 35" by linarith
  then show ?thesis
  proof cases
    case 1
    have p: "(256::nat) ^ (n - 3) \<le> 256 ^ 29" by (rule power_increasing) (use 1 in auto)
    have "m * 256 ^ (n - 3) < 256 ^ 3 * 256 ^ 29"
      by (rule mult_less_le_imp_less [OF _ p]) (use m in auto)
    then show ?thesis using 1 by (simp add: e not_le)
  next
    case 4
    have "m = 0 \<or> 256 ^ 32 \<le> m * 256 ^ (n - 3)"
    proof (cases "m = 0")
      case False
      have p: "(256::nat) ^ 32 \<le> 256 ^ (n - 3)" by (rule power_increasing) (use 4 in auto)
      have "1 * (256::nat) ^ 32 \<le> m * 256 ^ (n - 3)"
        by (rule mult_le_mono [OF _ p]) (use False in auto)
      then show ?thesis by simp
    qed simp
    then show ?thesis using 4 by (cases "m = 0") (auto simp: e)
  qed (simp_all, presburger+)
qed

lemma SetCompact_spec:
  assumes "SetCompact c = (a, neg, ovf)"
  defines "n \<equiv> compact_size c" and "m \<equiv> compact_word c"
  shows "wf256 a"
    and "n \<le> 3 \<Longrightarrow> val a = m div 256 ^ (3 - n) \<and> \<not> ovf"
    and "3 < n \<Longrightarrow> val a = (m * 256 ^ (n - 3)) mod 2 ^ 256"
    and "3 < n \<Longrightarrow> ovf \<longleftrightarrow> 2 ^ 256 \<le> m * 256 ^ (n - 3)"
    and "neg \<Longrightarrow> bit c 23"
proof -
  define w where "w = c AND 0x007fffff"
  have n: "unat (drop_bit 24 c) = n" by (simp only: unat_drop32 n_def compact_size_def)
  have m: "unat w = m" by (simp only: unat_and_mask23 m_def w_def)
  have m23: "m < 2 ^ 23" by (simp add: m_def compact_word_def)
  have p: "(2::nat) ^ (8 * k) = 256 ^ k" for k by (simp add: power_mult)
  note defs = assms(1) [unfolded SetCompact_def Let_def n, folded w_def, symmetric]
  show "wf256 a" using defs by auto
  show "n \<le> 3 \<Longrightarrow> val a = m div 256 ^ (3 - n) \<and> \<not> ovf"
    using defs by (auto simp: val_of_word32 unat_drop32 m p)
  show "3 < n \<Longrightarrow> val a = (m * 256 ^ (n - 3)) mod 2 ^ 256"
    using defs by (auto simp: val_uint_shl val_of_word32 m p)
  show "3 < n \<Longrightarrow> ovf \<longleftrightarrow> 2 ^ 256 \<le> m * 256 ^ (n - 3)"
    using defs overflow_iff [OF m23, of n] by (auto simp: word_less_nat_alt m unat_eq_0 [symmetric])
  show "neg \<Longrightarrow> bit c 23"
    using defs by (auto simp: and_bit23)
qed

lemma unat_GetLow64: "wf256 a \<Longrightarrow> unat (GetLow64 a) = val a mod 2 ^ 64"
proof -
  assume "wf256 a"
  then obtain a0 a1 a2 a3 a4 a5 a6 a7 where a: "a = [a0, a1, a2, a3, a4, a5, a6, a7]"
    by (rule length8_cases)
  have "GetLow64 a = ucast a0 + push_bit 32 (ucast a1)"
    unfolding GetLow64_def a
    by (simp, rule disjunctive_add_eq_or [symmetric], rule bit_eqI)
      (auto simp: bit_and_iff bit_push_bit_iff bit_ucast_iff dest: bit_imp_le_length)
  moreover have "unat (push_bit 32 (ucast a1 :: 64 word)) = unat a1 * 2 ^ 32"
    using unat_lt_32 [of a1]
    by (simp only: unsigned_push_bit_eq) (simp add: push_bit_eq_mult take_bit_nat_eq_self)
  ultimately have "unat (GetLow64 a) = unat a0 + 2 ^ 32 * unat a1"
    using unat_lt_32 [of a0] unat_lt_32 [of a1] by (simp add: unat_word_ariths)
  moreover have "val (take 2 a) = unat a0 + 2 ^ 32 * unat a1" by (simp add: a)
  ultimately show ?thesis by (simp add: val_take)
qed

lemma uint_bytes_bounds:
  assumes "wf256 a"
  defines "n \<equiv> (uint_bits a + 7) div 8"
  shows "val a < 256 ^ n" "n \<noteq> 0 \<Longrightarrow> 256 ^ (n - 1) \<le> val a" "n \<le> 32" "n = 0 \<longleftrightarrow> val a = 0"
proof -
  have p: "(256::nat) ^ k = 2 ^ (8 * k)" for k by (simp add: power_mult)
  have "val a < 2 ^ uint_bits a" using assms(1) by (rule uint_bits_less)
  also have "\<dots> \<le> 2 ^ (8 * n)" by (rule power_increasing) (simp_all add: n_def)
  finally show "val a < 256 ^ n" by (simp only: p)
  show nz: "n = 0 \<longleftrightarrow> val a = 0" using uint_bits_eq_0 [OF assms(1)] by (auto simp: n_def)
  show "256 ^ (n - 1) \<le> val a" if "n \<noteq> 0"
  proof -
    have "uint_bits a \<noteq> 0" using that nz uint_bits_eq_0 [OF assms(1)] by simp
    then have "(2::nat) ^ (8 * (n - 1)) \<le> 2 ^ (uint_bits a - 1)"
      by (intro power_increasing) (simp_all add: n_def)
    also have "\<dots> \<le> val a" using assms(1) \<open>uint_bits a \<noteq> 0\<close> by (rule uint_bits_ge)
    finally show ?thesis by (simp only: p)
  qed
  show "n \<le> 32" using uint_bits_le_256 [OF assms(1)] by (simp add: n_def)
qed

text \<open>The mantissa for a given number of bytes.\<close>

definition mantissa :: "nat \<Rightarrow> nat \<Rightarrow> nat" where
  "mantissa v n = (if n \<le> 3 then v * 256 ^ (3 - n) else v div 256 ^ (n - 3))"

lemma mantissa_Suc: "mantissa v (Suc n) = mantissa v n div 256"
proof -
  consider "n < 3" | "n = 3" | "n > 3" by linarith
  then show ?thesis
  proof cases
    case 1
    then have "3 - n = Suc (3 - Suc n)" by simp
    then show ?thesis using 1 by (simp add: mantissa_def)
  next
    case 3
    then have "Suc n - 3 = Suc (n - 3)" by simp
    then show ?thesis using 3 by (simp add: mantissa_def div_mult2_eq [symmetric] mult.commute)
  qed (simp add: mantissa_def)
qed

lemma mantissa_bounds:
  assumes "wf256 a"
  defines "n \<equiv> (uint_bits a + 7) div 8"
  shows "mantissa (val a) n < 2 ^ 24" "val a \<noteq> 0 \<Longrightarrow> 2 ^ 16 \<le> mantissa (val a) n"
proof -
  note b = uint_bytes_bounds [OF assms(1), folded n_def]
  have e: "(256::nat) ^ n = 256 ^ (n - 3) * 256 ^ 3" if "3 < n"
    using that by (simp only: flip: power_add) simp
  have e': "(256::nat) ^ (n - 1) = 256 ^ (n - 3) * 256 ^ 2" if "3 < n"
  proof -
    have "n - 1 = (n - 3) + 2" using that by simp
    then show ?thesis by (simp only: power_add)
  qed
  have t: "(256::nat) ^ n * 256 ^ (3 - n) = 2 ^ 24" if "n \<le> 3"
    using that by (simp only: flip: power_add) simp
  have t': "(256::nat) ^ (n - 1) * 256 ^ (3 - n) = 2 ^ 16" if "n \<le> 3" "n \<noteq> 0"
    using that by (simp only: flip: power_add) simp
  show "mantissa (val a) n < 2 ^ 24"
  proof (cases "n \<le> 3")
    case True
    have "val a * 256 ^ (3 - n) < 256 ^ n * 256 ^ (3 - n)" using b(1) by simp
    then show ?thesis using True t by (simp add: mantissa_def)
  next
    case False
    then have "val a < 2 ^ 24 * 256 ^ (n - 3)" using b(1) e by (simp add: mult.commute)
    then show ?thesis using False by (simp add: mantissa_def less_mult_imp_div_less)
  qed
  show "2 ^ 16 \<le> mantissa (val a) n" if "val a \<noteq> 0"
  proof (cases "n \<le> 3")
    case True
    have n: "n \<noteq> 0" using b(4) that by simp
    have "2 ^ 16 \<le> val a * 256 ^ (3 - n)"
      using mult_le_mono1 [OF b(2) [OF n], of "256 ^ (3 - n)"] by (simp only: t' [OF True n])
    then show ?thesis using True by (simp add: mantissa_def)
  next
    case False
    then have "2 ^ 16 * 256 ^ (n - 3) \<le> val a" using b that e' by (simp add: mult.commute)
    then have "(2 ^ 16 * 256 ^ (n - 3)) div 256 ^ (n - 3) \<le> val a div 256 ^ (n - 3)" by (rule div_le_mono)
    then show ?thesis using False by (simp add: mantissa_def)
  qed
qed

lemma GetCompact_mantissa:
  assumes "wf256 a"
  defines "n \<equiv> (uint_bits a + 7) div 8"
  shows "unat (if n \<le> 3 then ucast (push_bit (8 * (3 - n)) (GetLow64 a))
               else ucast (GetLow64 (uint_shr a (8 * (n - 3)))) :: 32 word) = mantissa (val a) n"
proof -
  have p: "(2::nat) ^ (8 * k) = 256 ^ k" for k by (simp add: power_mult)
  have m: "mantissa (val a) n < 2 ^ 24" unfolding n_def by (rule mantissa_bounds(1) [OF assms(1)])
  show ?thesis
  proof (cases "n \<le> 3")
    case True
    have "val a \<le> mantissa (val a) n" using True by (simp add: mantissa_def)
    then have low: "unat (GetLow64 a) = val a" using assms(1) m by (simp add: unat_GetLow64)
    have "unat (push_bit (8 * (3 - n)) (GetLow64 a)) = mantissa (val a) n"
      using True m by (simp only: unsigned_push_bit_eq low)
        (simp add: push_bit_eq_mult take_bit_nat_eq_self mantissa_def p)
    then show ?thesis using True m by (simp add: unat_low_half)
  next
    case False
    have "val (uint_shr a (8 * (n - 3))) = mantissa (val a) n"
      using False assms(1) by (simp only: val_uint_shr p mantissa_def) simp
    then have "unat (GetLow64 (uint_shr a (8 * (n - 3)))) = mantissa (val a) n"
      using m assms(1) by (simp add: unat_GetLow64)
    then show ?thesis using False m by (simp add: unat_low_half)
  qed
qed

lemma no_high_bits: "unat w < 2 ^ 23 \<Longrightarrow> w AND NOT 0x007fffff = 0" for w :: "32 word"
proof -
  assume "unat w < 2 ^ 23"
  then have "take_bit 23 w = w" by (simp add: word_unat_eq_iff unsigned_take_bit_eq take_bit_nat_eq_self)
  moreover have "(0x007fffff :: 32 word) = mask 23" by (simp add: mask_eq_exp_minus_1)
  ultimately have "w = w AND 0x007fffff" by (simp add: take_bit_eq_mask)
  then show ?thesis by (metis and.assoc and.right_neutral bit.conj_cancel_right and_zero_eq)
qed

lemma GetCompact_spec:
  assumes "wf256 a"
  obtains c m n where "GetCompact False a = Some c" "unat c = m + 2 ^ 24 * n" "m < 2 ^ 23" "n \<le> 33"
    "m = mantissa (val a) n" "val a \<noteq> 0 \<longrightarrow> 2 ^ 15 \<le> m" "val a = 0 \<longrightarrow> n = 0"
proof -
  define n0 where "n0 = (uint_bits a + 7) div 8"
  define w0 :: "32 word" where
    "w0 = (if n0 \<le> 3 then ucast (push_bit (8 * (3 - n0)) (GetLow64 a))
           else ucast (GetLow64 (uint_shr a (8 * (n0 - 3)))))"
  define m0 where "m0 = mantissa (val a) n0"
  have w0: "unat w0 = m0" unfolding w0_def m0_def n0_def by (rule GetCompact_mantissa [OF assms])
  have m0: "m0 < 2 ^ 24" "val a \<noteq> 0 \<Longrightarrow> 2 ^ 16 \<le> m0"
    using mantissa_bounds [OF assms] by (simp_all add: m0_def n0_def)
  have n0: "n0 \<le> 32" "n0 = 0 \<longleftrightarrow> val a = 0" using uint_bytes_bounds [OF assms] by (simp_all add: n0_def)
  have b: "bit w0 23 \<longleftrightarrow> 2 ^ 23 \<le> m0"
  proof -
    have "m0 div 2 ^ 23 < 2" using m0(1) by (simp add: less_mult_imp_div_less)
    then have "odd (m0 div 2 ^ 23) \<longleftrightarrow> m0 div 2 ^ 23 = 1" by (auto simp: less_2_cases_iff)
    also have "\<dots> \<longleftrightarrow> 2 ^ 23 \<le> m0" using m0(1) by (auto simp: div_nat_eqI le_div_geq)
    finally show ?thesis by (simp only: bit23_nat w0)
  qed
  define w n where "w = (if bit w0 23 then drop_bit 8 w0 else w0)" and "n = (if bit w0 23 then n0 + 1 else n0)"
  have w: "unat w = mantissa (val a) n"
    by (simp add: w_def n_def unat_drop32 w0 mantissa_Suc m0_def)
  have lt: "unat w < 2 ^ 23" using b m0(1) by (auto simp: w_def unat_drop32 w0)
  have ge: "val a \<noteq> 0 \<longrightarrow> 2 ^ 15 \<le> unat w" using b m0(2) by (auto simp: w_def unat_drop32 w0)
  have n: "n \<le> 33" "val a = 0 \<longrightarrow> n = 0" using n0 b w0 by (auto simp: n_def m0_def mantissa_def)
  have "unat (push_bit 24 (word_of_nat n) :: 32 word) = 2 ^ 24 * n"
    using n(1) by (simp only: unat_push32) (simp add: unsigned_of_nat take_bit_nat_eq_self)
  then have u: "unat (w OR push_bit 24 (word_of_nat n)) = unat w + 2 ^ 24 * n"
    using lt by (subst unat_or_disjoint [of _ 24]) simp_all
  have "GetCompact False a = Some (w OR push_bit 24 (word_of_nat n))"
    unfolding GetCompact_def Let_def n0_def [symmetric] w0_def [symmetric] and_bit23
    using no_high_bits [OF lt] n(1) by (cases "bit w0 23") (simp_all add: w_def n_def)
  then show ?thesis using that [OF _ u lt n(1) w ge n(2)] by simp
qed

lemma compact_parts:
  assumes "unat c = m + 2 ^ 24 * n" "m < 2 ^ 23"
  shows "compact_size c = n" "compact_word c = m" "\<not> bit c 23"
proof -
  show "compact_size c = n" using assms by (simp add: compact_size_def)
  have e: "unat c = m + 2 ^ 23 * (2 * n)" using assms by simp
  show "compact_word c = m" unfolding compact_word_def e using assms(2) by (simp only: mod_mult_self2 mod_less)
  have "unat c div 2 ^ 23 = 2 * n" unfolding e using assms(2) by (simp only: div_mult_self2) simp
  then show "\<not> bit c 23" by (simp only: bit23_nat) simp
qed

text \<open>Encoding and decoding a target only clears low bits, and is exact on three bytes.\<close>

lemma compact_round_down:
  assumes "wf256 a" "GetCompact False a = Some c"
  obtains b where "SetCompact c = (b, False, False)" "wf256 b"
    "val b \<le> val a" "val a < val b + 256 ^ (compact_size c - 3)" "val a < 2 ^ 23 \<Longrightarrow> val b = val a"
    "val a \<noteq> 0 \<Longrightarrow> val b \<noteq> 0"
proof -
  obtain m n where c: "unat c = m + 2 ^ 24 * n" "m < 2 ^ 23" and n: "n \<le> 33"
    and m: "m = mantissa (val a) n" "val a \<noteq> 0 \<longrightarrow> 2 ^ 15 \<le> m"
    using GetCompact_spec [OF assms(1)] assms(2) by (metis option.inject)
  note parts = compact_parts [OF c]
  obtain b neg ovf where b: "SetCompact c = (b, neg, ovf)" by (cases "SetCompact c") auto
  note spec = SetCompact_spec [OF b, unfolded parts(1,2)]
  have neg: "\<not> neg" using spec(5) parts(3) by blast
  show ?thesis
  proof (cases "n \<le> 3")
    case True
    then have "val b = val a" "\<not> ovf" using spec(2) m(1) by (simp_all add: mantissa_def)
    then show ?thesis using that [of b] b neg spec(1) parts(1) True by simp
  next
    case False
    let ?p = "256 ^ (n - 3) :: nat"
    have mb: "m * ?p \<le> val a" using False m(1) by (simp add: mantissa_def)
    then have nov: "\<not> ovf" "val b = m * ?p"
      using spec(3,4) False val_bound256 [OF assms(1)] by auto
    have "val a < m * ?p + ?p"
      using False m(1) mod_less_divisor [of ?p "val a"] div_mult_mod_eq [of "val a" ?p]
      by (simp add: mantissa_def del: mod_less_divisor)
    moreover have "val b = val a" if "val a < 2 ^ 23"
    proof (rule ccontr)
      assume ne: "val b \<noteq> val a"
      then have "val a \<noteq> 0" using mb nov by auto
      then have "2 ^ 15 * 256 \<le> m * ?p"
        using m(2) False by (intro mult_le_mono) (auto simp: self_le_power)
      then show False using mb that by simp
    qed
    moreover have "val b \<noteq> 0" if "val a \<noteq> 0" using that m(2) nov by auto
    ultimately show ?thesis using that [of b] b neg spec(1) parts(1) nov mb by simp
  qed
qed

section \<open>Conversion from and to byte blobs\<close>

definition ReadLE32 :: "8 word list \<Rightarrow> 32 word" where
  "ReadLE32 p =
     ((ucast (p ! 0) OR push_bit 8 (ucast (p ! 1))) OR push_bit 16 (ucast (p ! 2))) OR push_bit 24 (ucast (p ! 3))"

definition WriteLE32 :: "32 word \<Rightarrow> 8 word list" where
  "WriteLE32 x = [ucast x, ucast (drop_bit 8 x), ucast (drop_bit 16 x), ucast (drop_bit 24 x)]"

definition UintToArith256 :: "uint256 \<Rightarrow> limbs" where
  "UintToArith256 a = map (\<lambda>x. ReadLE32 (drop (x * 4) a)) [0..<WIDTH]"

definition ArithToUint256 :: "limbs \<Rightarrow> uint256" where
  "ArithToUint256 a = concat (map (\<lambda>x. WriteLE32 (a ! x)) [0..<WIDTH])"

fun bval :: "8 word list \<Rightarrow> nat" where
  "bval [] = 0"
| "bval (b # bs) = unat b + 256 * bval bs"

lemma wf256_UintToArith256 [simp]: "wf256 (UintToArith256 b)"
  by (simp add: UintToArith256_def wf256_def)

lemma unat_lt_8: "unat (b :: 8 word) < 256"
  using unsigned_less [of b, where ?'a = nat] by simp

lemma unat_push_byte: "k \<le> 24 \<Longrightarrow> unat (push_bit k (ucast (b :: 8 word)) :: 32 word) = unat b * 2 ^ k"
proof -
  assume "k \<le> 24"
  have "unat b * 2 ^ k < 2 ^ 8 * 2 ^ 24"
    by (rule mult_less_le_imp_less) (use unat_lt_8 [of b] power_increasing [OF \<open>k \<le> 24\<close>, of "2::nat"] in auto)
  moreover have "unat (ucast b :: 32 word) = unat b"
    using unat_lt_8 [of b] by (simp add: unsigned_ucast_eq take_bit_nat_eq_self)
  ultimately show ?thesis by (simp only: unat_push32) simp
qed

lemma unat_ReadLE32:
  "length p \<ge> 4 \<Longrightarrow> unat (ReadLE32 p) = bval (take 4 p)"
proof -
  assume "length p \<ge> 4"
  then obtain b0 b1 b2 b3 r where p: "p = b0 # b1 # b2 # b3 # r"
    by (cases p; cases "tl p"; cases "tl (tl p)"; cases "tl (tl (tl p))") auto
  note lt = unat_lt_8 [of b0] unat_lt_8 [of b1] unat_lt_8 [of b2]
  have 1: "unat (ucast b0 OR push_bit 8 (ucast b1) :: 32 word) = unat b0 + unat b1 * 2 ^ 8"
    using lt unat_push_byte [of 0 b0] unat_push_byte [of 8 b1]
    by (subst unat_or_disjoint [of _ 8]) simp_all
  have 2: "unat ((ucast b0 OR push_bit 8 (ucast b1)) OR push_bit 16 (ucast b2) :: 32 word) =
      unat b0 + unat b1 * 2 ^ 8 + unat b2 * 2 ^ 16"
    using lt 1 unat_push_byte [of 16 b2] by (subst unat_or_disjoint [of _ 16]) simp_all
  have "unat (((ucast b0 OR push_bit 8 (ucast b1)) OR push_bit 16 (ucast b2)) OR push_bit 24 (ucast b3) :: 32 word) =
      unat b0 + unat b1 * 2 ^ 8 + unat b2 * 2 ^ 16 + unat b3 * 2 ^ 24"
    using lt 2 unat_push_byte [of 24 b3] by (subst unat_or_disjoint [of _ 24]) simp_all
  then show ?thesis by (simp add: ReadLE32_def p)
qed

lemma bval_append: "bval (a @ b) = bval a + 256 ^ length a * bval b"
  by (induction a) (auto simp: algebra_simps)

lemma val_map_ReadLE32:
  "length bs = 4 * n \<Longrightarrow> val (map (\<lambda>x. ReadLE32 (drop (x * 4) bs)) [0..<n]) = bval bs"
proof (induction n arbitrary: bs)
  case (Suc n)
  have up: "[0..<Suc n] = 0 # map Suc [0..<n]" by (simp only: upt_conv_Cons map_Suc_upt zero_less_Suc)
  have "val (map (\<lambda>x. ReadLE32 (drop (x * 4) bs)) [0..<Suc n]) =
      unat (ReadLE32 bs) + 2 ^ 32 * val (map (\<lambda>x. ReadLE32 (drop (x * 4) (drop 4 bs))) [0..<n])"
    unfolding up by (simp add: comp_def add.commute)
  also have "\<dots> = bval (take 4 bs) + 256 ^ 4 * bval (drop 4 bs)"
    using Suc.IH [of "drop 4 bs"] Suc.prems by (simp add: unat_ReadLE32)
  also have "\<dots> = bval bs" using bval_append [of "take 4 bs" "drop 4 bs"] Suc.prems by simp
  finally show ?case .
qed simp

lemma val_UintToArith256: "length b = 32 \<Longrightarrow> val (UintToArith256 b) = bval b"
  unfolding UintToArith256_def WIDTH_def by (rule val_map_ReadLE32) simp

lemma unat_byte_of32: "unat (ucast (x :: 32 word) :: 8 word) = unat x mod 256"
  by (simp add: unsigned_ucast_eq take_bit_eq_mod)

lemma bytes_sum:
  "n < 256 ^ 4 \<Longrightarrow>
   n mod 256 + 256 * (n div 256 mod 256 + 256 * (n div 256 ^ 2 mod 256 + 256 * (n div 256 ^ 3 mod 256))) = n"
  for n :: nat
proof -
  assume "n < 256 ^ 4"
  then have "n div 256 ^ 3 < 256" by (simp add: less_mult_imp_div_less)
  then have 3: "n div 256 ^ 3 mod 256 = n div 256 ^ 3" by simp
  have e: "n div 256 ^ 3 = n div 256 ^ 2 div 256" "n div 256 ^ 2 = n div 256 div 256"
    by (simp_all add: div_mult2_eq [symmetric])
  show ?thesis unfolding 3 unfolding e(1) unfolding mod_mult_div_eq e(2) by (simp only: mod_mult_div_eq)
qed

lemma bval_WriteLE32: "bval (WriteLE32 x) = unat x"
  using bytes_sum [of "unat x"] unat_lt_32 [of x]
  by (simp add: WriteLE32_def unat_byte_of32 unat_drop32)

lemma ReadLE32_WriteLE32: "ReadLE32 (WriteLE32 x @ r) = x"
  using unat_ReadLE32 [of "WriteLE32 x @ r"] bval_WriteLE32 [of x]
  by (simp add: WriteLE32_def word_unat_eq_iff)

lemma UintToArith256_ArithToUint256: "wf256 a \<Longrightarrow> UintToArith256 (ArithToUint256 a) = a"
proof -
  assume a: "wf256 a"
  have l: "length (WriteLE32 x) = 4" for x by (simp add: WriteLE32_def)
  have len: "length (ArithToUint256 a) = 32"
    by (simp add: ArithToUint256_def WIDTH_def length_concat comp_def l sum_list_triv)
  have "bval (concat (map WriteLE32 xs)) = val xs" for xs
    by (induction xs) (simp_all add: bval_append l bval_WriteLE32)
  moreover have "ArithToUint256 a = concat (map WriteLE32 a)"
  proof -
    have "map (\<lambda>x. WriteLE32 (a ! x)) [0..<length a] = map WriteLE32 (map (\<lambda>x. a ! x) [0..<length a])"
      by simp
    also have "\<dots> = map WriteLE32 a" by (simp only: map_nth)
    finally show ?thesis using wf256_length [OF a] by (simp only: ArithToUint256_def WIDTH_def)
  qed
  ultimately have "val (UintToArith256 (ArithToUint256 a)) = val a"
    using len by (simp add: val_UintToArith256)
  then show ?thesis using a by (intro val_inj) (simp_all add: limb_simps)
qed

lemma wf256_uint_add [simp]: "wf256 a \<Longrightarrow> wf256 b \<Longrightarrow> wf256 (uint_add a b)"
  by (simp add: wf256_def uint_add_def)

lemma wf256_uint_not [simp]: "wf256 a \<Longrightarrow> wf256 (uint_not a)"
  by (simp add: wf256_def)

lemma wf256_uint_mul32 [simp]: "wf256 a \<Longrightarrow> wf256 (uint_mul32 a b)"
  by (simp add: wf256_def)

lemma val_uint_add256: "wf256 a \<Longrightarrow> wf256 b \<Longrightarrow> val (uint_add a b) = (val a + val b) mod 2 ^ 256"
  by (simp add: val_uint_add limb_simps)

lemma val_uint_mul32_256: "wf256 a \<Longrightarrow> val (uint_mul32 a b) = (val a * unat b) mod 2 ^ 256"
  by (simp add: val_uint_mul32 limb_simps)

lemma val_uint_not256: "wf256 a \<Longrightarrow> val (uint_not a) = 2 ^ 256 - 1 - val a"
  by (simp add: val_uint_not limb_simps)

section \<open>The contract of modular arithmetic\<close>

text \<open>
  What the difficulty and chain-work code relies on: a bounded number type whose
  operations are those of the naturals modulo the bound.
\<close>

locale modular_arith =
  fixes wf :: "'n \<Rightarrow> bool" and nval :: "'n \<Rightarrow> nat" and bound :: nat
    and plus mult :: "'n \<Rightarrow> 'n \<Rightarrow> 'n" and scale :: "'n \<Rightarrow> 's \<Rightarrow> 'n" and sval :: "'s \<Rightarrow> nat"
    and cpl :: "'n \<Rightarrow> 'n" and divide :: "'n \<Rightarrow> 'n \<Rightarrow> 'n option"
  assumes nval_bound: "wf a \<Longrightarrow> nval a < bound"
    and wf_plus: "wf a \<Longrightarrow> wf b \<Longrightarrow> wf (plus a b)"
    and nval_plus: "wf a \<Longrightarrow> wf b \<Longrightarrow> nval (plus a b) = (nval a + nval b) mod bound"
    and wf_mult: "wf a \<Longrightarrow> wf b \<Longrightarrow> wf (mult a b)"
    and nval_mult: "wf a \<Longrightarrow> wf b \<Longrightarrow> nval (mult a b) = (nval a * nval b) mod bound"
    and wf_scale: "wf a \<Longrightarrow> wf (scale a s)"
    and nval_scale: "wf a \<Longrightarrow> nval (scale a s) = (nval a * sval s) mod bound"
    and wf_cpl: "wf a \<Longrightarrow> wf (cpl a)"
    and nval_cpl: "wf a \<Longrightarrow> nval (cpl a) = bound - 1 - nval a"
    and divide: "wf a \<Longrightarrow> wf b \<Longrightarrow> nval b \<noteq> 0 \<Longrightarrow>
                 \<exists>q. divide a b = Some q \<and> wf q \<and> nval q = nval a div nval b"
begin

text \<open>The number of hashes for a target, computed without representing the bound itself.\<close>

lemma work_of_target:
  assumes "wf t" "wf one" "nval one = 1" "nval t \<noteq> 0" "nval t + 1 < bound"
  obtains q where "divide (cpl t) (plus t one) = Some q" "wf q" "wf (plus q one)"
    "nval (plus q one) = bound div (nval t + 1)"
proof -
  let ?T = "nval t + 1"
  have t1: "nval (plus t one) = ?T" using assms by (simp add: nval_plus)
  obtain q where q: "divide (cpl t) (plus t one) = Some q" "wf q" "nval q = (bound - ?T) div ?T"
    using divide [of "cpl t" "plus t one"] assms t1 by (auto simp: wf_cpl wf_plus nval_cpl)
  have b: "bound = (bound - ?T) + ?T" using assms by simp
  then have e: "bound div ?T = (bound - ?T) div ?T + 1" by (metis add.commute div_add_self2 Suc_eq_plus1 nat.distinct(1))
  have "bound div ?T < bound" using assms by (intro div_less_dividend) auto
  then have "((bound - ?T) div ?T + 1) mod bound = bound div ?T" by (simp only: e mod_less)
  then have "nval (plus q one) = bound div ?T" using q assms by (simp only: nval_plus)
  then show ?thesis using that q assms by (simp add: wf_plus)
qed

text \<open>A product that fits followed by a division is the exact quotient.\<close>

lemma scale_divide:
  assumes "wf a" "wf d" "nval d \<noteq> 0" "nval a * sval s < bound"
  obtains q where "divide (scale a s) d = Some q" "wf q" "nval q = nval a * sval s div nval d"
  using divide [of "scale a s" d] assms by (auto simp: wf_scale nval_scale)

lemma mult_divide:
  assumes "wf a" "wf b" "wf d" "nval d \<noteq> 0" "nval a * nval b < bound"
  obtains q where "divide (mult a b) d = Some q" "wf q" "nval q = nval a * nval b div nval d"
  using divide [of "mult a b" d] assms by (auto simp: wf_mult nval_mult)

end

interpretation u256: modular_arith wf256 val "2 ^ 256" uint_add uint_mul uint_mul32 unat uint_not uint_div
proof (unfold_locales, goal_cases)
  case (10 a b)
  then show ?case by (metis uint_div_spec)
qed (simp_all only: val_bound256 wf256_uint_add val_uint_add256 val_uint_mul wf256_uint_mul32
       val_uint_mul32_256 wf256_uint_not val_uint_not256)

section \<open>Properties\<close>

text \<open>
  C31: the shift-subtract division throws exactly on a zero divisor and otherwise
  returns the quotient of the two 256-bit numbers.
\<close>

theorem uint_div_correct:
  assumes "wf256 a" "wf256 b"
  shows "case uint_div a b of None \<Rightarrow> val b = 0 | Some q \<Rightarrow> val b \<noteq> 0 \<and> wf256 q \<and> val q = val a div val b"
proof (cases "val b = 0")
  case True
  then show ?thesis using uint_div_zero [OF assms] by simp
next
  case False
  then obtain q where "uint_div a b = Some q" "wf256 q" "val q = val a div val b"
    using uint_div_spec [OF assms] by metis
  then show ?thesis using False by simp
qed

theorem uint_div_correct_witness:
  "case uint_div (of_uint64 17) (of_uint64 5) of None \<Rightarrow> val (of_uint64 5) = 0
   | Some q \<Rightarrow> val (of_uint64 5) \<noteq> 0 \<and> wf256 q \<and> val q = val (of_uint64 17) div val (of_uint64 5)"
  by (rule uint_div_correct) simp_all

text \<open>
  C32: encoding a target in the compact form and decoding it again never raises a flag,
  never makes the target larger, loses less than one unit of the last mantissa byte,
  and is exact below \<open>2 ^ 23\<close>.
\<close>

theorem compact_encoding_rounds_down:
  assumes "wf256 a"
  shows "\<exists>c b. GetCompact False a = Some c \<and> SetCompact c = (b, False, False) \<and>
               val b \<le> val a \<and> val a < val b + 256 ^ (compact_size c - 3) \<and> (val a < 2 ^ 23 \<longrightarrow> val b = val a)"
proof -
  obtain c where c: "GetCompact False a = Some c" using GetCompact_spec [OF assms] by metis
  show ?thesis using compact_round_down [OF assms c] c by metis
qed

theorem compact_encoding_rounds_down_witness:
  "\<exists>c b. GetCompact False (of_uint64 77) = Some c \<and> SetCompact c = (b, False, False) \<and>
         val b \<le> val (of_uint64 77) \<and> val (of_uint64 77) < val b + 256 ^ (compact_size c - 3) \<and>
         (val (of_uint64 77) < 2 ^ 23 \<longrightarrow> val b = val (of_uint64 77))"
  by (rule compact_encoding_rounds_down) simp

text \<open>
  Decoding a compact value whose exponent exceeds three raises the overflow flag
  exactly when mantissa times base to the exponent does not fit in 256 bits, and without
  the flag the decoded number is that product.
\<close>

theorem compact_overflow_exact:
  assumes "SetCompact c = (a, neg, ovf)" "3 < compact_size c"
  shows "(ovf \<longleftrightarrow> 2 ^ 256 \<le> compact_word c * 256 ^ (compact_size c - 3)) \<and>
         (\<not> ovf \<longrightarrow> val a = compact_word c * 256 ^ (compact_size c - 3))"
  using SetCompact_spec(3,4) [OF assms(1) assms(2)] by auto

theorem compact_overflow_exact_witness:
  "\<exists>a neg ovf. SetCompact 0x04123456 = (a, neg, ovf) \<and>
     (ovf \<longleftrightarrow> 2 ^ 256 \<le> compact_word 0x04123456 * 256 ^ (compact_size 0x04123456 - 3)) \<and>
     (\<not> ovf \<longrightarrow> val a = compact_word 0x04123456 * 256 ^ (compact_size 0x04123456 - 3))"
proof -
  obtain a neg ovf where s: "SetCompact 0x04123456 = (a, neg, ovf)" by (cases "SetCompact 0x04123456") auto
  show ?thesis using compact_overflow_exact [OF s] s by (auto simp: compact_size_def)
qed

end
