(* ===== verification/Consensus_Params.thy ===== *)
theory Consensus_Params
  imports Arith_Uint256
begin

text \<open>
  \<^verbatim>\<open>Consensus::Params\<close> of \<^verbatim>\<open>consensus/params.h\<close>: the fields the modelled components
  read, the height gates, and the treasury-script predicates; the mining
  algorithms of \<^verbatim>\<open>primitives/block.h\<close>; the main-network values of
  \<^verbatim>\<open>chainparams.cpp\<close>, whose treasury scripts (hashes of redeem scripts) are
  arguments.
\<close>

unbundle bit_operations_syntax

type_synonym script = "8 word list"
type_synonym CAmount = int

definition COIN :: CAmount where
  "COIN = 100000000"

section \<open>Mining algorithms\<close>

definition NUM_ALGOS :: int where
  "NUM_ALGOS = 4"

definition valid_algo :: "int \<Rightarrow> bool" where
  "valid_algo algo = (algo \<ge> 0 \<and> algo < NUM_ALGOS)"

text \<open>\<^verbatim>\<open>CBlockIndex::GetAlgo\<close>: the algorithm nibble of the block version; \<^verbatim>\<open>-1\<close> is \<^verbatim>\<open>ALGO_INVALID\<close>.\<close>

definition GetAlgo :: "32 word \<Rightarrow> int" where
  "GetAlgo nVersion =
     (let b = nVersion AND 0x0F00
      in if b = 0x000 then 0 else if b = 0x200 then 1 else if b = 0x400 then 2 else if b = 0x600 then 3 else - 1)"

definition GetVersionForAlgo :: "int \<Rightarrow> 32 word option" where
  "GetVersionForAlgo algo =
     (if algo = 0 then Some 0x000 else if algo = 1 then Some 0x200
      else if algo = 2 then Some 0x400 else if algo = 3 then Some 0x600 else None)"

definition IsEquihash :: "int \<Rightarrow> bool" where
  "IsEquihash algo = (algo = 2 \<or> algo = 3)"

section \<open>Parameters\<close>

record Params =
  nSubsidyHalvingInterval :: int
  nMasternodePaymentsStartBlock :: int
  nBudgetPaymentsStartBlock :: int
  nSuperblockStartBlock :: int
  nSuperblockCycle :: int
  DIP0008Height :: int
  V20Height :: int
  SaplingHeight :: int
  nSaplingStrictnessHeight :: int
  HMPHeight :: int
  nHMPStage2Height :: int
  nHMPStage3Height :: int
  nHMPStage4Height :: int
  nHMPWarmupBlocks :: int
  nHMPPrivilegeWindow :: int
  nHMPMinBlocksSolved :: int
  nHMPSigningWindowMs :: int
  nHMPGracePeriodMs :: int
  nHMPSealTrailingDepth :: int
  nHMPDominanceCatchFloor :: int
  nHMPDominanceCatchMaxLookback :: int
  nHMPCommitmentOffset :: int
  nHMPMandatoryProofHeight :: int
  nHMPSealAlgoFixHeight :: int
  nPrevSealHashFixHeight :: int
  nHMPDeterministicSealHeight :: int
  nDaaRetargetFixHeight :: int
  nDaaLwmaHeight :: int
  nHMPRearmHeight :: int
  nDronePayoutHeight :: int
  nDroneCollateralAmount :: CAmount
  nDroneMaxAge :: int
  nHMPBroodChainWeightBonus :: int
  powLimit :: uint256
  powLimitAlgo :: "uint256 list"
  nDiffFloorHeight :: int
  powLimitFloorAlgo :: "uint256 list"
  fPowAllowMinDifficultyBlocks :: bool
  fPowNoRetargeting :: bool
  nPowTargetSpacing :: int
  foundersPaymentScript :: script
  devFundPaymentScript :: script
  growthEscrowScript :: script
  legacyEscrowScripts :: "script list"
  legacyDevFundScripts :: "script list"
  legacyFoundersPaymentScripts :: "script list"
  nGrowthEscrowEndHeight :: int
  nEscrowBurnHeight :: int
  nLegacyDevfundSunsetHeight :: int

definition MAX_COMMITMENTS_PER_BLOCK :: nat where
  "MAX_COMMITMENTS_PER_BLOCK = 16"

section \<open>Height gates\<close>

definition IsDeterministicSealActive :: "Params \<Rightarrow> int \<Rightarrow> bool" where
  "IsDeterministicSealActive p height = (nHMPDeterministicSealHeight p > 0 \<and> height \<ge> nHMPDeterministicSealHeight p)"

definition IsDaaRetargetFixActive :: "Params \<Rightarrow> int \<Rightarrow> bool" where
  "IsDaaRetargetFixActive p height = (nDaaRetargetFixHeight p > 0 \<and> height \<ge> nDaaRetargetFixHeight p)"

definition IsDaaLwmaActive :: "Params \<Rightarrow> int \<Rightarrow> bool" where
  "IsDaaLwmaActive p height = (nDaaLwmaHeight p > 0 \<and> height \<ge> nDaaLwmaHeight p)"

definition IsHMPRearmActive :: "Params \<Rightarrow> int \<Rightarrow> bool" where
  "IsHMPRearmActive p height = (nHMPRearmHeight p > 0 \<and> height \<ge> nHMPRearmHeight p)"

definition IsDronePayoutActive :: "Params \<Rightarrow> int \<Rightarrow> bool" where
  "IsDronePayoutActive p height = (nDronePayoutHeight p > 0 \<and> height \<ge> nDronePayoutHeight p)"

definition GetEffectiveMinBlocksSolved :: "Params \<Rightarrow> int \<Rightarrow> int" where
  "GetEffectiveMinBlocksSolved p height =
     (if nHMPSealAlgoFixHeight p > 0 \<and> height \<ge> nHMPSealAlgoFixHeight p then 3 else nHMPMinBlocksSolved p)"

section \<open>Treasury scripts\<close>

definition script_in :: "script \<Rightarrow> script list \<Rightarrow> script \<Rightarrow> bool" where
  "script_in current legacy spk =
     (if spk = [] then False
      else if current \<noteq> [] \<and> spk = current then True
      else list_ex (\<lambda>l. l \<noteq> [] \<and> spk = l) legacy)"

definition IsGrowthEscrowScript :: "Params \<Rightarrow> script \<Rightarrow> bool" where
  "IsGrowthEscrowScript p spk = script_in (growthEscrowScript p) (legacyEscrowScripts p) spk"

definition IsDevFundScript :: "Params \<Rightarrow> script \<Rightarrow> bool" where
  "IsDevFundScript p spk = script_in (devFundPaymentScript p) (legacyDevFundScripts p) spk"

definition IsFoundersPaymentScript :: "Params \<Rightarrow> script \<Rightarrow> bool" where
  "IsFoundersPaymentScript p spk = script_in (foundersPaymentScript p) (legacyFoundersPaymentScripts p) spk"

lemma GetAlgo_range: "GetAlgo v = - 1 \<or> valid_algo (GetAlgo v)"
  by (simp add: GetAlgo_def valid_algo_def NUM_ALGOS_def Let_def)

lemma GetAlgo_GetVersionForAlgo: "GetVersionForAlgo algo = Some v \<Longrightarrow> GetAlgo v = algo"
  by (auto simp: GetVersionForAlgo_def GetAlgo_def split: if_splits)

lemma script_in_iff: "script_in c l spk \<longleftrightarrow> spk \<noteq> [] \<and> spk \<in> insert c (set l)"
  by (auto simp: script_in_def list_ex_iff)

section \<open>Main network\<close>

text \<open>\<^verbatim>\<open>uint256S\<close> on a 64-digit hexadecimal constant: the little-endian bytes of its value.\<close>

definition uint256S :: "nat \<Rightarrow> uint256" where
  "uint256S v = map (\<lambda>i. word_of_nat (v div 256 ^ i)) [0..<32]"

definition mainnet :: "script \<Rightarrow> script \<Rightarrow> script \<Rightarrow> script list \<Rightarrow> script list \<Rightarrow> script list \<Rightarrow> Params" where
  "mainnet founders dev escrow lEscrow lDev lFounders = \<lparr>
     nSubsidyHalvingInterval = 1051200,
     nMasternodePaymentsStartBlock = 1,
     nBudgetPaymentsStartBlock = 2100000000,
     nSuperblockStartBlock = 2100000000,
     nSuperblockCycle = 16616,
     DIP0008Height = 2,
     V20Height = 2,
     SaplingHeight = 500,
     nSaplingStrictnessHeight = 15500,
     HMPHeight = 100,
     nHMPStage2Height = 100,
     nHMPStage3Height = 300,
     nHMPStage4Height = 500,
     nHMPWarmupBlocks = 10,
     nHMPPrivilegeWindow = 100,
     nHMPMinBlocksSolved = 10,
     nHMPSigningWindowMs = 5000,
     nHMPGracePeriodMs = 15000,
     nHMPSealTrailingDepth = 2,
     nHMPDominanceCatchFloor = 6,
     nHMPDominanceCatchMaxLookback = 1000,
     nHMPCommitmentOffset = 10,
     nHMPMandatoryProofHeight = 0,
     nHMPSealAlgoFixHeight = 55000,
     nPrevSealHashFixHeight = 57000,
     nHMPDeterministicSealHeight = 130000,
     nDaaRetargetFixHeight = 130000,
     nDaaLwmaHeight = 151000,
     nHMPRearmHeight = 148000,
     nDronePayoutHeight = 130000,
     nDroneCollateralAmount = 10000 * COIN,
     nDroneMaxAge = 21600,
     nHMPBroodChainWeightBonus = 300,
     powLimit = uint256S 0x0010000000000000000000000000000000000000000000000000000000000000,
     powLimitAlgo =
       [uint256S 0x00000ffff0000000000000000000000000000000000000000000000000000000,
        uint256S 0x0000000100000000000000000000000000000000000000000000000000000000,
        uint256S 0x0000020000000000000000000000000000000000000000000000000000000000,
        uint256S 0x0010000000000000000000000000000000000000000000000000000000000000],
     nDiffFloorHeight = 14000,
     powLimitFloorAlgo =
       [uint256S 0x0000000000271700000000000000000000000000000000000000000000000000,
        uint256S 0x000000007f420000000000000000000000000000000000000000000000000000,
        uint256S 0x0000020000000000000000000000000000000000000000000000000000000000,
        uint256S 0x00048d1000000000000000000000000000000000000000000000000000000000],
     fPowAllowMinDifficultyBlocks = False,
     fPowNoRetargeting = False,
     nPowTargetSpacing = 120,
     foundersPaymentScript = founders,
     devFundPaymentScript = dev,
     growthEscrowScript = escrow,
     legacyEscrowScripts = lEscrow,
     legacyDevFundScripts = lDev,
     legacyFoundersPaymentScripts = lFounders,
     nGrowthEscrowEndHeight = 129999,
     nEscrowBurnHeight = 130000,
     nLegacyDevfundSunsetHeight = 59000\<rparr>"

lemma length_uint256S [simp]: "length (uint256S v) = 32"
  by (simp add: uint256S_def)

lemma bval_uint256S: "v < 256 ^ 32 \<Longrightarrow> bval (uint256S v) = v"
proof -
  have "bval (map (\<lambda>i. word_of_nat (v div 256 ^ i)) [0..<n]) = v mod 256 ^ n" for n v
  proof (induction n arbitrary: v)
    case (Suc n)
    have up: "[0..<Suc n] = 0 # map Suc [0..<n]" by (simp only: upt_conv_Cons map_Suc_upt zero_less_Suc)
    have "bval (map (\<lambda>i. word_of_nat (v div 256 ^ i)) [0..<Suc n]) =
        v mod 256 + 256 * bval (map (\<lambda>i. word_of_nat (v div 256 div 256 ^ i)) [0..<n])"
      unfolding up by (simp add: comp_def unsigned_of_nat take_bit_eq_mod div_mult2_eq)
    also have "\<dots> = v mod 256 + 256 * (v div 256 mod 256 ^ n)" by (simp only: Suc.IH)
    also have "\<dots> = v mod (256 * 256 ^ n)" by (simp only: mod_mult2_eq add.commute)
    finally show ?case by simp
  qed simp
  then show "v < 256 ^ 32 \<Longrightarrow> bval (uint256S v) = v" by (simp only: uint256S_def mod_less)
qed

end
