(* ===== verification/Pow_Target.thy ===== *)
theory Pow_Target
  imports Consensus_Params
begin

text \<open>
  Difficulty targets: \<^verbatim>\<open>pow.cpp\<close> (per-algorithm limits, the Hivemind and LWMA
  retargets, the proof-of-work check) and the block proof of \<^verbatim>\<open>chain.cpp\<close>.  A
  pointer to a \<^verbatim>\<open>CBlockIndex\<close> is the list of the block and its ancestors, newest
  first; the null pointer is the empty list.  A failed \<^verbatim>\<open>assert\<close> of \<^verbatim>\<open>GetCompact\<close>, a
  division by zero and a null dereference are \<^term>\<open>None\<close>.
\<close>

unbundle bit_operations_syntax

record CBlockIndex =
  bi_nHeight :: int
  bi_nTime :: int
  bi_nBits :: "32 word"
  bi_nVersion :: "32 word"

type_synonym chain = "CBlockIndex list"

section \<open>Limits\<close>

definition PowLimit :: "Params \<Rightarrow> 32 word option" where
  "PowLimit p = GetCompact False (UintToArith256 (powLimit p))"

definition PowLimitForAlgo :: "Params \<Rightarrow> int \<Rightarrow> 32 word option" where
  "PowLimitForAlgo p algo =
     (if algo \<ge> 0 \<and> algo < NUM_ALGOS then GetCompact False (UintToArith256 (powLimitAlgo p ! nat algo))
      else PowLimit p)"

definition EffectivePowLimitForAlgo :: "Params \<Rightarrow> int \<Rightarrow> int \<Rightarrow> 32 word option" where
  "EffectivePowLimitForAlgo p algo height =
     (if nDiffFloorHeight p > 0 \<and> height \<ge> nDiffFloorHeight p \<and> algo \<ge> 0 \<and> algo < NUM_ALGOS
      then GetCompact False (UintToArith256 (powLimitFloorAlgo p ! nat algo))
      else PowLimitForAlgo p algo)"

section \<open>Walking the chain\<close>

fun GetLastBlockIndexForAlgo :: "chain \<Rightarrow> Params \<Rightarrow> int \<Rightarrow> nat \<Rightarrow> chain" where
  "GetLastBlockIndexForAlgo pindex p algo 0 = []"
| "GetLastBlockIndexForAlgo [] p algo (Suc d) = []"
| "GetLastBlockIndexForAlgo (b # pprev) p algo (Suc d) =
     (if GetAlgo (bi_nVersion b) \<noteq> algo then GetLastBlockIndexForAlgo pprev p algo d
      else if fPowAllowMinDifficultyBlocks p \<and> pprev \<noteq> [] \<and>
              bi_nTime b > bi_nTime (hd pprev) + nPowTargetSpacing p * 2
      then GetLastBlockIndexForAlgo pprev p algo d
      else b # pprev)"

definition GetMedianTimePast :: "chain \<Rightarrow> int" where
  "GetMedianTimePast pindex =
     (let times = sort (map bi_nTime (take 11 pindex)) in times ! (length times div 2))"

section \<open>Hivemind\<close>

text \<open>The bounded easing of a stalled algorithm: at most \<open>n\<close> factors of four, capped at the limit.\<close>

fun ease_loop :: "nat \<Rightarrow> limbs \<Rightarrow> limbs \<Rightarrow> limbs" where
  "ease_loop 0 bnEased bnLimit = bnEased"
| "ease_loop (Suc n) bnEased bnLimit =
     (if uint_lt bnEased bnLimit
      then (if uint_gt bnEased (uint_shr bnLimit 2) then bnLimit
            else ease_loop n (uint_shl bnEased 2) bnLimit)
      else bnEased)"

definition ease_target :: "32 word \<Rightarrow> 32 word \<Rightarrow> int \<Rightarrow> int \<Rightarrow> 32 word option" where
  "ease_target nBits nResetLimit algoGap nGapThreshold =
     (let bnEased = fst (SetCompact nBits);
          bnLimit = fst (SetCompact nResetLimit);
          nSteps = 1 + cdiv (algoGap - nGapThreshold) NUM_ALGOS;
          bnEased = ease_loop (nat nSteps) bnEased bnLimit;
          bnEased = (if uint_gt bnEased bnLimit then bnLimit else bnEased)
      in GetCompact False bnEased)"

fun local_harder :: "nat \<Rightarrow> limbs \<Rightarrow> limbs option" where
  "local_harder 0 bnNew = Some bnNew"
| "local_harder (Suc n) bnNew =
     do { bnNew \<leftarrow> uint_div (uint_mul32 bnNew 100) (of_uint64 104); local_harder n bnNew }"

fun local_easier :: "nat \<Rightarrow> limbs \<Rightarrow> limbs \<Rightarrow> limbs option" where
  "local_easier 0 limit bnNew = Some bnNew"
| "local_easier (Suc n) limit bnNew =
     do { bnNew \<leftarrow> uint_div (uint_mul32 bnNew 104) (of_uint64 100);
          if uint_gt bnNew limit then Some limit else local_easier n limit bnNew }"

text \<open>The clamped timespan of the global retarget.\<close>

definition hivemind_timespan :: "bool \<Rightarrow> int \<Rightarrow> int \<Rightarrow> int" where
  "hivemind_timespan fDaaRetargetFix nAveragingTargetTimespan mtpSpan =
     (let nMaxAdjustUp = (if fDaaRetargetFix then 16 else 8);
          nMaxAdjustDown = 16;
          nMinActualTimespan = cdiv (nAveragingTargetTimespan * (100 - nMaxAdjustUp)) 100;
          nMaxActualTimespan = cdiv (nAveragingTargetTimespan * (100 + nMaxAdjustDown)) 100;
          nActualTimespan = nAveragingTargetTimespan + cdiv (mtpSpan - nAveragingTargetTimespan) 4;
          nActualTimespan = (if nActualTimespan < nMinActualTimespan then nMinActualTimespan else nActualTimespan)
      in if nActualTimespan > nMaxActualTimespan then nMaxActualTimespan else nActualTimespan)"

definition hivemind_retarget :: "Params \<Rightarrow> int \<Rightarrow> int \<Rightarrow> 32 word \<Rightarrow> int \<Rightarrow> int \<Rightarrow> int \<Rightarrow> 32 word option" where
  "hivemind_retarget p algo nNextHeight nBits nActualTimespan nAveragingTargetTimespan nAdjustments =
     do { let bnNew = fst (SetCompact nBits);
          bnOverflowGuard \<leftarrow> uint_div (replicate WIDTH 0xffffffff) (of_uint64 (word_of_int nActualTimespan));
          let bnNew = (if uint_gt bnNew bnOverflowGuard then bnOverflowGuard else bnNew);
          bnNew \<leftarrow> uint_div (uint_mul32 bnNew (word_of_int nActualTimespan))
                            (of_uint64 (word_of_int nAveragingTargetTimespan));
          let limit = UintToArith256 (powLimitAlgo p ! nat algo);
          let nAdjustments = (if nAdjustments > 100 then 100 else nAdjustments);
          let nAdjustments = (if nAdjustments < - 100 then - 100 else nAdjustments);
          bnNew \<leftarrow> (if nAdjustments > 0 then local_harder (nat nAdjustments) bnNew
                     else if nAdjustments < 0 then local_easier (nat (- nAdjustments)) limit bnNew
                     else Some bnNew);
          let bnNew = (if uint_gt bnNew limit then limit else bnNew);
          let bnFloor = UintToArith256 (powLimitFloorAlgo p ! nat algo);
          let bnNew = (if nDiffFloorHeight p > 0 \<and> nNextHeight \<ge> nDiffFloorHeight p \<and> algo \<ge> 0 \<and> algo < NUM_ALGOS
                       then (if uint_gt bnNew bnFloor then bnFloor else bnNew) else bnNew);
          GetCompact False bnNew }"

definition Hivemind :: "chain \<Rightarrow> Params \<Rightarrow> int \<Rightarrow> int \<Rightarrow> 32 word option" where
  "Hivemind pindexLast p algo gapThresholdOverride =
     (if pindexLast = [] then None else
      let nNextHeight = bi_nHeight (hd pindexLast) + 1;
          fDaaRetargetFix = IsDaaRetargetFixActive p nNextHeight;
          nAveragingInterval = 10;
          nAlgoTargetSpacing = nPowTargetSpacing p * NUM_ALGOS;
          nAveragingTargetTimespan = nAveragingInterval * nAlgoTargetSpacing;
          pindexFirst = drop (nat (NUM_ALGOS * nAveragingInterval)) pindexLast;
          pindexPrevAlgo = GetLastBlockIndexForAlgo pindexLast p algo 240
      in if pindexPrevAlgo = [] \<or> pindexFirst = [] then EffectivePowLimitForAlgo p algo nNextHeight
         else
           let nGapThreshold =
                 (if gapThresholdOverride > 0 then gapThresholdOverride
                  else if nNextHeight \<ge> nDiffFloorHeight p \<and> nDiffFloorHeight p > 0
                  then NUM_ALGOS * nAveragingInterval
                  else NUM_ALGOS * nAveragingInterval * 6);
               algoGap = bi_nHeight (hd pindexLast) - bi_nHeight (hd pindexPrevAlgo)
           in if algoGap \<ge> nGapThreshold
              then do { nResetLimit \<leftarrow> EffectivePowLimitForAlgo p algo nNextHeight;
                        if \<not> fDaaRetargetFix then Some nResetLimit
                        else ease_target (bi_nBits (hd pindexPrevAlgo)) nResetLimit algoGap nGapThreshold }
              else hivemind_retarget p algo nNextHeight (bi_nBits (hd pindexPrevAlgo))
                     (hivemind_timespan fDaaRetargetFix nAveragingTargetTimespan
                        (GetMedianTimePast pindexLast - GetMedianTimePast pindexFirst))
                     nAveragingTargetTimespan
                     (bi_nHeight (hd pindexPrevAlgo) + NUM_ALGOS - 1 - bi_nHeight (hd pindexLast)))"

section \<open>LWMA\<close>

text \<open>The bounded walk collecting the newest same-algorithm blocks.\<close>

fun lwma_collect :: "int \<Rightarrow> nat \<Rightarrow> nat \<Rightarrow> chain \<Rightarrow> chain" where
  "lwma_collect algo room 0 c = []"
| "lwma_collect algo 0 (Suc d) c = []"
| "lwma_collect algo (Suc room) (Suc d) [] = []"
| "lwma_collect algo (Suc room) (Suc d) (b # pprev) =
     (if GetAlgo (bi_nVersion b) = algo then b # lwma_collect algo room d pprev
      else lwma_collect algo (Suc room) d pprev)"

definition lwma_solvetime :: "int \<Rightarrow> CBlockIndex \<Rightarrow> CBlockIndex \<Rightarrow> int" where
  "lwma_solvetime T cur prev =
     (let st = bi_nTime cur - bi_nTime prev;
          st = (if st > 6 * T then 6 * T else st)
      in if st < - 5 * T then - 5 * T else st)"

text \<open>One round of the window loop, for weight \<open>i\<close> (1 is the oldest block).\<close>

definition lwma_step :: "int \<Rightarrow> chain \<Rightarrow> nat \<Rightarrow> nat \<Rightarrow> int \<times> limbs \<Rightarrow> int \<times> limbs" where
  "lwma_step T a Neff i acc =
     (let cur = a ! (Neff - i); prev = a ! (Neff - i + 1)
      in (fst acc + lwma_solvetime T cur prev * int i,
          uint_add (snd acc) (fst (SetCompact (bi_nBits cur)))))"

definition lwma_sums :: "int \<Rightarrow> chain \<Rightarrow> nat \<Rightarrow> int \<times> limbs" where
  "lwma_sums T a Neff = fold (lwma_step T a Neff) [1..<Suc Neff] (0, of_uint64 0)"

text \<open>The caps at the end: the limit, the floor once it is active, and the floor for a zero target.\<close>

definition lwma_cap :: "Params \<Rightarrow> int \<Rightarrow> int \<Rightarrow> limbs \<Rightarrow> limbs" where
  "lwma_cap p algo nNextHeight bnNew =
     (let bnPowLimit = UintToArith256 (powLimitAlgo p ! nat algo);
          bnNew = (if uint_gt bnNew bnPowLimit then bnPowLimit else bnNew);
          bnFloor = UintToArith256 (powLimitFloorAlgo p ! nat algo);
          bnNew = (if nDiffFloorHeight p > 0 \<and> nNextHeight \<ge> nDiffFloorHeight p \<and> algo \<ge> 0 \<and> algo < NUM_ALGOS
                   then (if uint_gt bnNew bnFloor then bnFloor else bnNew) else bnNew)
      in if bnNew = of_uint64 0 then bnFloor else bnNew)"

definition lwma_window :: "Params \<Rightarrow> int \<Rightarrow> int \<Rightarrow> int \<Rightarrow> chain \<Rightarrow> 32 word option" where
  "lwma_window p algo nNextHeight T a =
     (let Neff = min 60 (length a - 1);
          k = cdiv (int Neff * (int Neff + 1)) 2 * T;
          (weightedSolvetimes, sumTarget) = lwma_sums T a Neff;
          weightedSolvetimes = (if weightedSolvetimes < cdiv k 20 then cdiv k 20 else weightedSolvetimes)
      in do { bnNew \<leftarrow> uint_div sumTarget (of_uint64 (ucast (word_of_nat Neff :: 32 word)));
              bnNew \<leftarrow> uint_div bnNew (of_uint64 (ucast (word_of_int k :: 32 word)));
              let bnNew = uint_mul32 bnNew (word_of_int weightedSolvetimes);
              GetCompact False (lwma_cap p algo nNextHeight bnNew) })"

definition LwmaPerAlgo :: "chain \<Rightarrow> Params \<Rightarrow> int \<Rightarrow> 32 word option" where
  "LwmaPerAlgo pindexLast p algo =
     (if pindexLast = [] then None else
      let nNextHeight = bi_nHeight (hd pindexLast) + 1;
          T = nPowTargetSpacing p * NUM_ALGOS;
          N = 60;
          maxDepth = (N + 1) * nat NUM_ALGOS * 8;
          a = lwma_collect algo (N + 1) maxDepth pindexLast;
          nGapThreshold = NUM_ALGOS * 10;
          algoGap = bi_nHeight (hd pindexLast) - bi_nHeight (hd a)
      in if IsHMPRearmActive p nNextHeight \<and> a \<noteq> [] \<and> algoGap \<ge> nGapThreshold
         then do { nResetLimit \<leftarrow> EffectivePowLimitForAlgo p algo nNextHeight;
                   ease_target (bi_nBits (hd a)) nResetLimit algoGap nGapThreshold }
         else if length a < 2 then EffectivePowLimitForAlgo p algo nNextHeight
         else lwma_window p algo nNextHeight T a)"

section \<open>Required work and its check\<close>

definition GetNextWorkRequired :: "chain \<Rightarrow> int \<Rightarrow> Params \<Rightarrow> int \<Rightarrow> 32 word option" where
  "GetNextWorkRequired pindexLast blockTime p algo =
     (if pindexLast = [] then PowLimitForAlgo p algo
      else if fPowAllowMinDifficultyBlocks p \<and> blockTime > bi_nTime (hd pindexLast) + nPowTargetSpacing p * 2
      then EffectivePowLimitForAlgo p algo (bi_nHeight (hd pindexLast) + 1)
      else if fPowNoRetargeting p then PowLimitForAlgo p algo
      else if IsDaaLwmaActive p (bi_nHeight (hd pindexLast) + 1) then LwmaPerAlgo pindexLast p algo
      else Hivemind pindexLast p algo 0)"

definition CheckProofOfWork :: "uint256 \<Rightarrow> 32 word \<Rightarrow> Params \<Rightarrow> int \<Rightarrow> bool" where
  "CheckProofOfWork hash nBits p algo =
     (let (bnTarget, fNegative, fOverflow) = SetCompact nBits;
          limit = (if algo \<ge> 0 \<and> algo < NUM_ALGOS then powLimitAlgo p ! nat algo else powLimit p)
      in if fNegative \<or> EqualTo bnTarget 0 \<or> fOverflow \<or> uint_gt bnTarget (UintToArith256 limit) then False
         else if uint_gt (UintToArith256 hash) bnTarget then False
         else True)"

section \<open>Block proof\<close>

definition GetBlockProof :: "32 word \<Rightarrow> limbs option" where
  "GetBlockProof nBits =
     (let (bnTarget, fNegative, fOverflow) = SetCompact nBits
      in if fNegative \<or> fOverflow \<or> EqualTo bnTarget 0 then Some (of_uint64 0)
         else do { q \<leftarrow> uint_div (uint_not bnTarget) (uint_add bnTarget (of_uint64 1));
                   Some (uint_add q (of_uint64 1)) })"

section \<open>Well-formed parameters\<close>

definition pow_params_ok :: "Params \<Rightarrow> bool" where
  "pow_params_ok p =
     (length (powLimit p) = 32 \<and>
      length (powLimitAlgo p) = 4 \<and> length (powLimitFloorAlgo p) = 4 \<and>
      list_all (\<lambda>b. length b = 32 \<and> bval b > 0) (powLimitAlgo p) \<and>
      list_all (\<lambda>b. length b = 32 \<and> bval b > 0) (powLimitFloorAlgo p) \<and>
      list_all2 (\<lambda>f l. bval f \<le> bval l) (powLimitFloorAlgo p) (powLimitAlgo p) \<and>
      0 < nPowTargetSpacing p \<and> nPowTargetSpacing p \<le> 1000)"

definition eff_limit :: "Params \<Rightarrow> int \<Rightarrow> int \<Rightarrow> nat" where
  "eff_limit p algo height =
     (if nDiffFloorHeight p > 0 \<and> height \<ge> nDiffFloorHeight p then bval (powLimitFloorAlgo p ! nat algo)
      else bval (powLimitAlgo p ! nat algo))"

text \<open>The target a compact value stands for.\<close>

definition target :: "32 word \<Rightarrow> nat" where
  "target c = val (fst (SetCompact c))"

definition good_bits :: "32 word \<Rightarrow> bool" where
  "good_bits c = (target c > 0 \<and> snd (SetCompact c) = (False, False))"

lemma EqualTo_0: "wf256 a \<Longrightarrow> EqualTo a 0 \<longleftrightarrow> val a = 0"
proof -
  assume "wf256 a"
  then obtain a0 a1 a2 a3 a4 a5 a6 a7 where a: "a = [a0, a1, a2, a3, a4, a5, a6, a7]"
    by (rule length8_cases)
  have u: "ucast x = (0 :: 64 word) \<longleftrightarrow> x = 0" for x :: "32 word"
    by (metis unat_ucast_32_64 unat_eq_0)
  have r: "[2..<8] = [2, 3, 4, 5, 6, 7 :: nat]" by (simp add: upt_rec)
  show ?thesis
    by (auto simp: a EqualTo_def WIDTH_def r u unat_eq_0)
qed

lemma wf256_SetCompact [simp]: "wf256 (fst (SetCompact c))"
  using SetCompact_spec(1) [of c] by (cases "SetCompact c") auto

lemma good_bitsI: "SetCompact c = (b, False, False) \<Longrightarrow> val b \<noteq> 0 \<Longrightarrow> good_bits c"
  by (simp add: good_bits_def target_def)

lemma GetCompact_target:
  assumes "wf256 a"
  obtains c where "GetCompact False a = Some c" "target c \<le> val a" "val a \<noteq> 0 \<Longrightarrow> good_bits c"
proof -
  obtain c where c: "GetCompact False a = Some c" using GetCompact_spec [OF assms] by metis
  obtain b where "SetCompact c = (b, False, False)" "val b \<le> val a" "val a \<noteq> 0 \<Longrightarrow> val b \<noteq> 0"
    using compact_round_down [OF assms c] by metis
  then show ?thesis using that [OF c] by (simp add: target_def good_bitsI)
qed

lemma pow_params_limits:
  assumes "pow_params_ok p" "valid_algo algo"
  shows "length (powLimitAlgo p ! nat algo) = 32" "length (powLimitFloorAlgo p ! nat algo) = 32"
    "0 < bval (powLimitAlgo p ! nat algo)" "0 < bval (powLimitFloorAlgo p ! nat algo)"
    "bval (powLimitFloorAlgo p ! nat algo) \<le> bval (powLimitAlgo p ! nat algo)"
  using assms
  by (auto simp: pow_params_ok_def valid_algo_def NUM_ALGOS_def list_all_length list_all2_conv_all_nth)

lemma EffectivePowLimit_target:
  assumes "pow_params_ok p" "valid_algo algo"
  obtains c where "EffectivePowLimitForAlgo p algo h = Some c" "target c \<le> eff_limit p algo h" "good_bits c"
proof -
  note l = pow_params_limits [OF assms]
  show ?thesis
  proof (cases "nDiffFloorHeight p > 0 \<and> h \<ge> nDiffFloorHeight p")
    case True
    then show ?thesis
      using GetCompact_target [of "UintToArith256 (powLimitFloorAlgo p ! nat algo)"] l assms(2) that
      by (force simp: EffectivePowLimitForAlgo_def eff_limit_def valid_algo_def val_UintToArith256)
  next
    case False
    then show ?thesis
      using GetCompact_target [of "UintToArith256 (powLimitAlgo p ! nat algo)"] l assms(2) that
      by (force simp: EffectivePowLimitForAlgo_def PowLimitForAlgo_def eff_limit_def valid_algo_def val_UintToArith256)
  qed
qed

lemma eff_limit_le: "pow_params_ok p \<Longrightarrow> valid_algo algo \<Longrightarrow> eff_limit p algo h \<le> bval (powLimitAlgo p ! nat algo)"
  using pow_params_limits(5) by (simp add: eff_limit_def)

section \<open>The bounded easing never passes the limit\<close>

lemma ease_loop_spec:
  "wf256 e \<Longrightarrow> wf256 l \<Longrightarrow>
   wf256 (ease_loop n e l) \<and> val (ease_loop n e l) \<le> max (val e) (val l) \<and> val e \<le> val (ease_loop n e l)"
proof (induction n e l rule: ease_loop.induct)
  case (2 n e l)
  have sh: "val (uint_shr l 2) = val l div 4" using "2.prems" by (simp add: val_uint_shr)
  show ?case
  proof (cases "val e < val l \<and> \<not> val l div 4 < val e")
    case True
    then have e4: "val e * 4 \<le> val l" by linarith
    then have "val e * 4 < 2 ^ 256" using val_bound256 [OF "2.prems"(2)] by linarith
    then have "val (uint_shl e 2) = val e * 4"
      using "2.prems" by (simp add: val_uint_shl)
    then show ?thesis using True "2.IH" "2.prems" sh e4
      by (auto simp: uint_lt_val uint_gt_val)
  qed (use "2.prems" sh in \<open>auto simp: uint_lt_val uint_gt_val\<close>)
qed simp

lemma ease_target_spec:
  obtains c where "ease_target bits lim gap thr = Some c" "target c \<le> target lim"
    "good_bits lim \<Longrightarrow> target bits > 0 \<Longrightarrow> good_bits c"
proof -
  let ?e = "fst (SetCompact bits)" and ?l = "fst (SetCompact lim)"
  define r where "r = ease_loop (nat (1 + cdiv (gap - thr) NUM_ALGOS)) ?e ?l"
  define r' where "r' = (if uint_gt r ?l then ?l else r)"
  have r: "wf256 r" "val ?e \<le> val r"
    using ease_loop_spec [of ?e ?l] by (simp_all add: r_def)
  then have r': "wf256 r'" "val r' \<le> val ?l" "val ?l > 0 \<Longrightarrow> val ?e > 0 \<Longrightarrow> val r' > 0"
    by (auto simp: r'_def uint_gt_val)
  obtain c where "GetCompact False r' = Some c" "target c \<le> val r'" "val r' \<noteq> 0 \<Longrightarrow> good_bits c"
    using GetCompact_target [OF r'(1)] by metis
  moreover have "ease_target bits lim gap thr = GetCompact False r'"
    by (simp add: ease_target_def r'_def r_def Let_def)
  ultimately show ?thesis using r' that [of c] by (simp add: target_def good_bits_def)
qed

section \<open>The retargets stay within the effective limit\<close>

lemma unat_word_of_int64: "0 \<le> x \<Longrightarrow> x < 2 ^ 64 \<Longrightarrow> unat (word_of_int x :: 64 word) = nat x"
  by (simp add: unsigned_of_int take_bit_int_eq_self)

lemma unat_word_of_int32: "0 \<le> x \<Longrightarrow> x < 2 ^ 32 \<Longrightarrow> unat (word_of_int x :: 32 word) = nat x"
  by (simp add: unsigned_of_int take_bit_int_eq_self)

lemma uint_div_Some:
  assumes "wf256 a" "unat d \<noteq> 0"
  obtains q where "uint_div a (of_uint64 d) = Some q" "wf256 q" "val q = val a div unat d"
  using uint_div_spec [OF assms(1) wf256_of_uint64, of d] assms(2) val_of_uint64 by metis

lemma local_harder_spec:
  "wf256 a \<Longrightarrow> \<exists>r. local_harder n a = Some r \<and> wf256 r"
proof (induction n arbitrary: a)
  case (Suc n)
  obtain q where "uint_div (uint_mul32 a 100) (of_uint64 104) = Some q" "wf256 q"
    using uint_div_Some [of "uint_mul32 a 100" 104] Suc.prems by auto
  then show ?case using Suc.IH [of q] by simp
qed simp

lemma local_easier_spec:
  "wf256 a \<Longrightarrow> wf256 l \<Longrightarrow> \<exists>r. local_easier n l a = Some r \<and> wf256 r"
proof (induction n arbitrary: a)
  case (Suc n)
  obtain q where "uint_div (uint_mul32 a 104) (of_uint64 100) = Some q" "wf256 q"
    using uint_div_Some [of "uint_mul32 a 104" 100] Suc.prems by auto
  then show ?case using Suc.IH [of q] Suc.prems by simp
qed simp

lemma hivemind_timespan_bounds:
  assumes "0 < avg"
  shows "hivemind_timespan fix avg span \<ge> avg * (if fix then 84 else 92) div 100"
    and "hivemind_timespan fix avg span \<le> avg * 116 div 100"
proof -
  have "avg * 84 div 100 \<le> avg * 116 div 100" "avg * 92 div 100 \<le> avg * 116 div 100"
    by (rule zdiv_mono1; use assms in simp)+
  then show "hivemind_timespan fix avg span \<ge> avg * (if fix then 84 else 92) div 100"
    and "hivemind_timespan fix avg span \<le> avg * 116 div 100"
    using assms by (auto simp: hivemind_timespan_def Let_def cdiv_nonneg)
qed

lemma hivemind_retarget_spec:
  assumes p: "pow_params_ok p" "valid_algo algo"
    and t: "0 < span" "span < 2 ^ 32" "0 < avg" "avg < 2 ^ 32"
  obtains c where "hivemind_retarget p algo h bits span avg adj = Some c" "target c \<le> eff_limit p algo h"
proof -
  note lim = pow_params_limits [OF p]
  let ?l = "UintToArith256 (powLimitAlgo p ! nat algo)" and ?f = "UintToArith256 (powLimitFloorAlgo p ! nat algo)"
  have w: "wf256 (replicate WIDTH 0xffffffff)" by (simp add: wf256_def)
  obtain g where g: "uint_div (replicate WIDTH 0xffffffff) (of_uint64 (word_of_int span)) = Some g" "wf256 g"
    using uint_div_Some [OF w, of "word_of_int span"] t by (auto simp: unat_word_of_int64)
  define b where "b = (if uint_gt (fst (SetCompact bits)) g then g else fst (SetCompact bits))"
  have "wf256 b" using g by (simp add: b_def)
  then obtain q where q: "uint_div (uint_mul32 b (word_of_int span)) (of_uint64 (word_of_int avg)) = Some q" "wf256 q"
    using uint_div_Some [of "uint_mul32 b (word_of_int span)" "word_of_int avg"] t by (auto simp: unat_word_of_int64)
  define a where "a = (if (if adj > 100 then 100 else adj) < - 100 then - 100 else (if adj > 100 then 100 else adj))"
  obtain r where r: "(if a > 0 then local_harder (nat a) q else if a < 0 then local_easier (nat (- a)) ?l q else Some q) = Some r"
    "wf256 r"
    using local_harder_spec [OF q(2), of "nat a"] local_easier_spec [OF q(2), of ?l "nat (- a)"] q(2)
    by (cases "a > 0"; cases "a < 0") auto
  define r1 where "r1 = (if uint_gt r ?l then ?l else r)"
  define r2 where "r2 = (if nDiffFloorHeight p > 0 \<and> h \<ge> nDiffFloorHeight p \<and> algo \<ge> 0 \<and> algo < NUM_ALGOS
                       then (if uint_gt r1 ?f then ?f else r1) else r1)"
  have r1: "wf256 r1" "val r1 \<le> bval (powLimitAlgo p ! nat algo)"
    using r lim by (auto simp: r1_def uint_gt_val val_UintToArith256)
  have r2: "wf256 r2" "val r2 \<le> eff_limit p algo h"
    using r1 lim p(2) by (auto simp: r2_def uint_gt_val val_UintToArith256 eff_limit_def valid_algo_def)
  have "hivemind_retarget p algo h bits span avg adj = GetCompact False r2"
    unfolding hivemind_retarget_def Let_def g(1) b_def [symmetric] q(1) a_def [symmetric] Option.bind.bind_lunit r(1) r1_def [symmetric] r2_def [symmetric] ..
  moreover obtain c where "GetCompact False r2 = Some c" "target c \<le> val r2"
    using GetCompact_target [OF r2(1)] by metis
  ultimately show ?thesis using that [of c] r2(2) by simp
qed

lemma Hivemind_bounded:
  assumes p: "pow_params_ok p" "valid_algo algo" and c: "pindexLast \<noteq> []"
  obtains c where "Hivemind pindexLast p algo gap = Some c"
    "target c \<le> eff_limit p algo (bi_nHeight (hd pindexLast) + 1)"
proof -
  let ?h = "bi_nHeight (hd pindexLast) + 1" and ?avg = "10 * (nPowTargetSpacing p * NUM_ALGOS)"
  have avg: "0 < ?avg" "40 \<le> ?avg" "?avg \<le> 40000" using p(1) by (simp_all add: pow_params_ok_def NUM_ALGOS_def)
  define span where "span = hivemind_timespan (IsDaaRetargetFixActive p ?h) ?avg
      (GetMedianTimePast pindexLast - GetMedianTimePast (drop (nat (NUM_ALGOS * 10)) pindexLast))"
  have "?avg * 84 div 100 \<ge> 33" "?avg * 92 div 100 \<ge> 36" "?avg * 116 div 100 \<le> 46400" using avg by linarith+
  then have "0 < span" "span < 2 ^ 32"
    using hivemind_timespan_bounds [OF avg(1), of "IsDaaRetargetFixActive p ?h"
        "GetMedianTimePast pindexLast - GetMedianTimePast (drop (nat (NUM_ALGOS * 10)) pindexLast)"]
    unfolding span_def by (auto split: if_splits)
  then have r: "\<exists>c. hivemind_retarget p algo ?h bits span ?avg adj = Some c \<and> target c \<le> eff_limit p algo ?h"
    for bits adj
    using hivemind_retarget_spec [OF p, of span ?avg ?h bits adj] avg by auto
  obtain e where e: "EffectivePowLimitForAlgo p algo ?h = Some e" "target e \<le> eff_limit p algo ?h"
    using EffectivePowLimit_target [OF p] by metis
  have s: "\<exists>c. ease_target bits e g t = Some c \<and> target c \<le> eff_limit p algo ?h" for bits g t
    using ease_target_spec [of bits e g t] e(2) by (metis order_trans)
  have "\<exists>c. Hivemind pindexLast p algo gap = Some c \<and> target c \<le> eff_limit p algo ?h"
    unfolding Hivemind_def Let_def span_def [symmetric] using c e s r
    by simp
  then show ?thesis using that by blast
qed

lemma lwma_collect_subset: "set (lwma_collect algo room d c) \<subseteq> set c"
  by (induction algo room d c rule: lwma_collect.induct) auto

lemma lwma_collect_algo: "b \<in> set (lwma_collect algo room d c) \<Longrightarrow> GetAlgo (bi_nVersion b) = algo"
  by (induction algo room d c rule: lwma_collect.induct) (auto split: if_splits)

lemma length_lwma_collect: "length (lwma_collect algo room d c) \<le> room"
  by (induction algo room d c rule: lwma_collect.induct) auto

lemma wf256_lwma_sums: "wf256 (snd (lwma_sums T a Neff))"
proof -
  have "wf256 (snd acc) \<Longrightarrow> wf256 (snd (fold (lwma_step T a Neff) is acc))" for "is" acc
    by (induction "is" arbitrary: acc) (auto simp: lwma_step_def Let_def)
  then show ?thesis by (simp add: lwma_sums_def)
qed

lemma lwma_k_bounds:
  assumes "1 \<le> n" "n \<le> 60" "0 < T" "T \<le> (4000::int)"
  shows "0 < cdiv (int n * (int n + 1)) 2 * T" "cdiv (int n * (int n + 1)) 2 * T < 2 ^ 32"
    "T \<le> cdiv (int n * (int n + 1)) 2 * T" "6 * (cdiv (int n * (int n + 1)) 2 * T) < 2 ^ 32"
proof -
  have "int n * (int n + 1) \<le> 60 * 61" using assms by (intro mult_mono) auto
  moreover have "1 * 2 \<le> int n * (int n + 1)" using assms by (intro mult_mono) auto
  ultimately have c: "1 \<le> cdiv (int n * (int n + 1)) 2" "cdiv (int n * (int n + 1)) 2 \<le> 1830"
    by (simp_all add: cdiv_nonneg)
  then show "0 < cdiv (int n * (int n + 1)) 2 * T" using assms by simp
  have num: "x \<le> 1830 * 4000 \<Longrightarrow> x < 2 ^ 32 \<and> 6 * x < 2 ^ 32" for x :: int by simp
  have "cdiv (int n * (int n + 1)) 2 * T \<le> 1830 * 4000" using c assms by (intro mult_mono) auto
  from num [OF this] show "cdiv (int n * (int n + 1)) 2 * T < 2 ^ 32"
    "6 * (cdiv (int n * (int n + 1)) 2 * T) < 2 ^ 32" by blast+
  have "1 * T \<le> cdiv (int n * (int n + 1)) 2 * T" using c assms by (intro mult_right_mono) auto
  then show "T \<le> cdiv (int n * (int n + 1)) 2 * T" by simp
qed

lemma unat_ucast_word_of_int: "0 \<le> x \<Longrightarrow> x < 2 ^ 32 \<Longrightarrow> unat (ucast (word_of_int x :: 32 word) :: 64 word) = nat x"
  by (simp add: unat_word_of_int32)

lemma lwma_cap_spec:
  assumes p: "pow_params_ok p" "valid_algo algo" and b: "wf256 b"
  shows "wf256 (lwma_cap p algo h b)" "val (lwma_cap p algo h b) \<noteq> 0"
    "val (lwma_cap p algo h b) \<le> eff_limit p algo h"
    "val b \<noteq> 0 \<Longrightarrow> val (lwma_cap p algo h b) = min (eff_limit p algo h) (val b)"
proof -
  note lim = pow_params_limits [OF p]
  let ?l = "UintToArith256 (powLimitAlgo p ! nat algo)" and ?f = "UintToArith256 (powLimitFloorAlgo p ! nat algo)"
  define b1 where "b1 = (if uint_gt b ?l then ?l else b)"
  define b2 where "b2 = (if nDiffFloorHeight p > 0 \<and> h \<ge> nDiffFloorHeight p \<and> algo \<ge> 0 \<and> algo < NUM_ALGOS
                         then (if uint_gt b1 ?f then ?f else b1) else b1)"
  have cap: "lwma_cap p algo h b = (if b2 = of_uint64 0 then ?f else b2)"
    unfolding lwma_cap_def Let_def b1_def b2_def ..
  have b1: "wf256 b1" "val b1 = min (bval (powLimitAlgo p ! nat algo)) (val b)"
    using b lim by (auto simp: b1_def uint_gt_val val_UintToArith256)
  have b2: "wf256 b2" "val b2 = min (eff_limit p algo h) (val b)"
    using b1 lim p(2) by (auto simp: b2_def uint_gt_val val_UintToArith256 eff_limit_def valid_algo_def)
  have z: "b2 = of_uint64 0 \<longleftrightarrow> val b2 = 0"
    using b2(1) val_inj [of b2 "of_uint64 0"] by (auto simp: val_of_uint64 wf256_length)
  have e: "0 < eff_limit p algo h" using lim by (simp add: eff_limit_def)
  show "wf256 (lwma_cap p algo h b)" "val (lwma_cap p algo h b) \<noteq> 0"
    "val (lwma_cap p algo h b) \<le> eff_limit p algo h"
    using b2 lim z e by (auto simp: cap val_UintToArith256 eff_limit_def)
  show "val b \<noteq> 0 \<Longrightarrow> val (lwma_cap p algo h b) = min (eff_limit p algo h) (val b)"
    using b2 z e by (auto simp: cap)
qed

text \<open>The window up to the caps: the average, divided by the nominal weight, times the measured weight.\<close>

lemma lwma_window_eval:
  assumes p: "pow_params_ok p" and a: "length a \<ge> 2"
  defines "T \<equiv> nPowTargetSpacing p * NUM_ALGOS" and "n \<equiv> min 60 (length a - 1)"
  defines "k \<equiv> int n * (int n + 1) div 2 * T"
  obtains q where "wf256 q" "val q = val (snd (lwma_sums T a n)) div n div nat k"
    "lwma_window p algo h T a = GetCompact False
       (lwma_cap p algo h (uint_mul32 q (word_of_int (max (fst (lwma_sums T a n)) (k div 20)))))"
    "1 \<le> n" "T \<le> k" "6 * k < 2 ^ 32"
proof -
  have T: "0 < T" "T \<le> 4000" using p(1) by (simp_all add: T_def pow_params_ok_def NUM_ALGOS_def)
  have n: "1 \<le> n" "n \<le> 60" using a by (simp_all add: n_def)
  have kc: "cdiv (int n * (int n + 1)) 2 * T = k" by (simp add: k_def cdiv_nonneg)
  note k = lwma_k_bounds [OF n T, unfolded kc]
  obtain w S where sums: "lwma_sums T a n = (w, S)" by force
  have S: "wf256 S" using wf256_lwma_sums [of T a n] sums by simp
  have w': "(if w < cdiv k 20 then cdiv k 20 else w) = max w (k div 20)"
    using k by (auto simp: cdiv_nonneg)
  obtain q1 where q1: "uint_div S (of_uint64 (ucast (word_of_nat n :: 32 word))) = Some q1" "wf256 q1" "val q1 = val S div n"
    using uint_div_Some [OF S, of "ucast (word_of_nat n :: 32 word)"] n
    by (auto simp: unsigned_of_nat take_bit_nat_eq_self)
  obtain q2 where q2: "uint_div q1 (of_uint64 (ucast (word_of_int k :: 32 word))) = Some q2" "wf256 q2"
     "val q2 = val S div n div nat k"
    using uint_div_Some [OF q1(2), of "ucast (word_of_int k :: 32 word)"] k unat_ucast_word_of_int [of k] q1(3) by auto
  have "lwma_window p algo h T a = GetCompact False (lwma_cap p algo h (uint_mul32 q2 (word_of_int (max w (k div 20)))))"
    unfolding lwma_window_def Let_def n_def [symmetric] kc sums prod.case q1(1) q2(1) Option.bind.bind_lunit w' ..
  then show ?thesis using that [of q2] q2 sums n k by simp
qed

lemma lwma_window_spec:
  assumes p: "pow_params_ok p" "valid_algo algo" and a: "length a \<ge> 2"
  obtains c where "lwma_window p algo h (nPowTargetSpacing p * NUM_ALGOS) a = Some c"
    "target c \<le> eff_limit p algo h" "good_bits c"
proof -
  let ?T = "nPowTargetSpacing p * NUM_ALGOS"
  obtain b where b: "wf256 b" "lwma_window p algo h ?T a = GetCompact False (lwma_cap p algo h b)"
    using lwma_window_eval [OF p(1) a] by (metis wf256_uint_mul32)
  note cap = lwma_cap_spec [OF p b(1), of h]
  obtain c where "GetCompact False (lwma_cap p algo h b) = Some c" "target c \<le> val (lwma_cap p algo h b)" "good_bits c"
    using GetCompact_target [OF cap(1)] cap(2) by metis
  then show ?thesis using that [of c] cap(3) b(2) by simp
qed

lemma LwmaPerAlgo_spec:
  assumes p: "pow_params_ok p" "valid_algo algo" and c: "pindexLast \<noteq> []"
    and g: "\<And>b. b \<in> set pindexLast \<Longrightarrow> target (bi_nBits b) > 0"
  obtains c where "LwmaPerAlgo pindexLast p algo = Some c" "good_bits c"
    "target c \<le> eff_limit p algo (bi_nHeight (hd pindexLast) + 1)"
proof -
  let ?h = "bi_nHeight (hd pindexLast) + 1"
  define a where "a = lwma_collect algo (60 + 1) ((60 + 1) * nat NUM_ALGOS * 8) pindexLast"
  obtain e where e: "EffectivePowLimitForAlgo p algo ?h = Some e" "target e \<le> eff_limit p algo ?h" "good_bits e"
    using EffectivePowLimit_target [OF p] by metis
  have s: "\<exists>c. ease_target (bi_nBits (hd a)) e x t = Some c \<and> good_bits c \<and> target c \<le> eff_limit p algo ?h"
    if "a \<noteq> []" for x t
  proof -
    have "hd a \<in> set pindexLast"
      using hd_in_set [OF that] lwma_collect_subset unfolding a_def by (rule subsetD [rotated])
    then show ?thesis using ease_target_spec [of "bi_nBits (hd a)" e x t] e g by (metis order_trans)
  qed
  have w: "length a \<ge> 2 \<Longrightarrow> \<exists>c. lwma_window p algo ?h (nPowTargetSpacing p * NUM_ALGOS) a = Some c \<and>
      good_bits c \<and> target c \<le> eff_limit p algo ?h"
    using lwma_window_spec [OF p] by metis
  have "\<exists>c. LwmaPerAlgo pindexLast p algo = Some c \<and> good_bits c \<and> target c \<le> eff_limit p algo ?h"
    unfolding LwmaPerAlgo_def Let_def a_def [symmetric] using c e s w by auto
  then show ?thesis using that by blast
qed

lemma CheckProofOfWork_spec:
  assumes "pow_params_ok p" "valid_algo algo" "length hash = 32"
  shows "CheckProofOfWork hash c p algo \<longleftrightarrow>
         good_bits c \<and> target c \<le> bval (powLimitAlgo p ! nat algo) \<and> bval hash \<le> target c"
proof -
  obtain t neg ovf where t: "SetCompact c = (t, neg, ovf)" by (cases "SetCompact c") auto
  have "wf256 t" using wf256_SetCompact [of c] t by simp
  then show ?thesis
    using t assms pow_params_limits [OF assms(1,2)]
    by (auto simp: CheckProofOfWork_def EqualTo_0 uint_gt_val val_UintToArith256 valid_algo_def
        good_bits_def target_def)
qed

lemma GetBlockProof_spec:
  assumes "good_bits c" "target c < 2 ^ 256 - 1"
  obtains w where "GetBlockProof c = Some w" "wf256 w" "val w = 2 ^ 256 div (target c + 1)"
proof -
  obtain t where t: "SetCompact c = (t, False, False)" "wf256 t" "val t = target c" "target c \<noteq> 0"
    using assms(1) wf256_SetCompact [of c] by (cases "SetCompact c") (auto simp: good_bits_def target_def)
  obtain q where "uint_div (uint_not t) (uint_add t (of_uint64 1)) = Some q" "wf256 (uint_add q (of_uint64 1))"
    "val (uint_add q (of_uint64 1)) = 2 ^ 256 div (val t + 1)"
  proof (rule u256.work_of_target [OF t(2) wf256_of_uint64, of 1])
    show "val (of_uint64 1) = 1" by (simp add: val_of_uint64)
    show "val t \<noteq> 0" using t by simp
    show "val t + 1 < 2 ^ 256" using t assms(2) by simp
  qed
  then show ?thesis using that t by (simp add: GetBlockProof_def EqualTo_0)
qed

section \<open>What the LWMA window computes\<close>

lemma lwma_solvetime_bounds:
  "0 < T \<Longrightarrow> - 5 * T \<le> lwma_solvetime T x y \<and> lwma_solvetime T x y \<le> 6 * T"
  by (auto simp: lwma_solvetime_def Let_def)

lemma upt_1_Suc: "[1..<Suc (Suc m)] = [1..<Suc m] @ [Suc m]"
  by simp

lemma lwma_fold_invariant:
  assumes "m \<le> n" "P 0 (0, of_uint64 0)"
    and "\<And>i acc. i < n \<Longrightarrow> P i acc \<Longrightarrow> P (Suc i) (lwma_step T a n (Suc i) acc)"
  shows "P m (fold (lwma_step T a n) [1..<Suc m] (0, of_uint64 0))"
  using assms(1)
proof (induction m)
  case (Suc m)
  then show ?case using assms(3) [of m] by (simp only: upt_1_Suc fold_append) simp
qed (simp add: assms(2))

lemma triangle_Suc: "int (Suc m) * (int (Suc m) + 1) div 2 = int m * (int m + 1) div 2 + int (Suc m)"
proof -
  have "int (Suc m) * (int (Suc m) + 1) = int m * (int m + 1) + int (Suc m) * 2" by (simp add: algebra_simps)
  then show ?thesis by simp
qed

text \<open>The weighted sum never exceeds six times its nominal value, and the target sum is exact.\<close>

lemma lwma_sums_bounds:
  assumes "0 < T" "n < length a" "n * M < 2 ^ 256"
    and M: "\<And>i. i < n \<Longrightarrow> m \<le> target (bi_nBits (a ! i)) \<and> target (bi_nBits (a ! i)) \<le> M"
  shows "fst (lwma_sums T a n) \<le> 6 * (int n * (int n + 1) div 2 * T)"
    and "n * m \<le> val (snd (lwma_sums T a n))" and "val (snd (lwma_sums T a n)) \<le> n * M"
proof -
  define P where "P i acc \<longleftrightarrow> fst acc \<le> 6 * (int i * (int i + 1) div 2 * T) \<and> wf256 (snd acc) \<and>
      i * m \<le> val (snd acc) \<and> val (snd acc) \<le> i * M" for i :: nat and acc :: "int \<times> limbs"
  have "P n (fold (lwma_step T a n) [1..<Suc n] (0, of_uint64 0))"
  proof (rule lwma_fold_invariant)
    fix i acc assume i: "i < n" and P: "P i acc"
    let ?cur = "a ! (n - Suc i)"
    have t: "m \<le> target (bi_nBits ?cur)" "target (bi_nBits ?cur) \<le> M" using M [of "n - Suc i"] i by auto
    have "val (snd acc) + target (bi_nBits ?cur) \<le> Suc i * M" using P t by (simp add: P_def)
    also have "\<dots> \<le> n * M" using i by (intro mult_le_mono1) simp
    finally have v: "val (snd (lwma_step T a n (Suc i) acc)) = val (snd acc) + target (bi_nBits ?cur)"
      using P assms(3) by (simp add: lwma_step_def Let_def P_def val_uint_add256 target_def)
    have "lwma_solvetime T ?cur (a ! (n - Suc i + 1)) * int (Suc i) \<le> 6 * T * int (Suc i)"
      using lwma_solvetime_bounds [OF assms(1)] by (intro mult_right_mono) auto
    then have "fst (lwma_step T a n (Suc i) acc) \<le> 6 * (int i * (int i + 1) div 2 * T) + 6 * T * int (Suc i)"
      using P by (auto simp only: lwma_step_def Let_def P_def fst_conv intro: add_mono)
    then have "fst (lwma_step T a n (Suc i) acc) \<le> 6 * (int (Suc i) * (int (Suc i) + 1) div 2 * T)"
      unfolding triangle_Suc by (simp add: algebra_simps)
    then show "P (Suc i) (lwma_step T a n (Suc i) acc)"
      using P v t by (simp add: P_def lwma_step_def Let_def del: of_nat_Suc)
  qed (simp_all add: P_def val_of_uint64)
  then show "fst (lwma_sums T a n) \<le> 6 * (int n * (int n + 1) div 2 * T)"
    "n * m \<le> val (snd (lwma_sums T a n))" "val (snd (lwma_sums T a n)) \<le> n * M"
    by (simp_all add: P_def lwma_sums_def)
qed

lemma lwma_sums_steady:
  assumes "n < length a" "n * t < 2 ^ 256" "0 < T"
    and "\<And>i. i < n \<Longrightarrow> target (bi_nBits (a ! i)) = t"
    and "\<And>i. i < n \<Longrightarrow> bi_nTime (a ! i) - bi_nTime (a ! (i + 1)) = T"
  shows "fst (lwma_sums T a n) = int n * (int n + 1) div 2 * T" and "val (snd (lwma_sums T a n)) = n * t"
proof -
  define P where "P i acc \<longleftrightarrow> fst acc = int i * (int i + 1) div 2 * T"
    for i :: nat and acc :: "int \<times> limbs"
  have "P n (fold (lwma_step T a n) [1..<Suc n] (0, of_uint64 0))"
  proof (rule lwma_fold_invariant)
    fix i acc assume i: "i < n" and P: "P i acc"
    have "lwma_solvetime T (a ! (n - Suc i)) (a ! (n - Suc i + 1)) = T"
      using assms(3,5) i by (simp add: lwma_solvetime_def Let_def)
    then have "fst (lwma_step T a n (Suc i) acc) = int i * (int i + 1) div 2 * T + T * int (Suc i)"
      using P unfolding lwma_step_def Let_def P_def by simp
    then show "P (Suc i) (lwma_step T a n (Suc i) acc)"
      unfolding P_def triangle_Suc by (simp add: algebra_simps)
  qed (simp_all add: P_def)
  then show "fst (lwma_sums T a n) = int n * (int n + 1) div 2 * T"
    by (simp_all add: P_def lwma_sums_def)
  show "val (snd (lwma_sums T a n)) = n * t"
    using lwma_sums_bounds(2,3) [of T n a t t] assms by (simp add: le_antisym)
qed

lemma lwma_window_value:
  assumes p: "pow_params_ok p" "valid_algo algo" and a: "length a \<ge> 2"
  defines "T \<equiv> nPowTargetSpacing p * NUM_ALGOS" and "n \<equiv> min 60 (length a - 1)"
  defines "k \<equiv> int n * (int n + 1) div 2 * T" and "avg \<equiv> val (snd (lwma_sums T a n)) div n"
  assumes T20: "20 \<le> T" and w: "fst (lwma_sums T a n) \<le> 6 * k" and v: "6 * avg < 2 ^ 256"
    and ge: "nat k \<le> avg"
  obtains c b where "lwma_window p algo h T a = Some c" "GetCompact False b = Some c" "wf256 b"
    "val b = min (eff_limit p algo h) (avg div nat k * nat (max (fst (lwma_sums T a n)) (k div 20)))"
proof -
  let ?w = "max (fst (lwma_sums T a n)) (k div 20)"
  obtain q where q: "wf256 q" "val q = avg div nat k"
    and win: "lwma_window p algo h T a = GetCompact False (lwma_cap p algo h (uint_mul32 q (word_of_int ?w)))"
    and k: "T \<le> k" "6 * k < 2 ^ 32"
    using lwma_window_eval [OF p(1) a, of algo h] unfolding T_def n_def k_def avg_def by metis
  have w': "1 \<le> ?w" "?w \<le> 6 * k" using T20 k(1) w by auto
  have u: "unat (word_of_int ?w :: 32 word) = nat ?w" using w' k(2) by (intro unat_word_of_int32) auto
  have "val q * nat ?w \<le> val q * nat (6 * k)" using w' by (intro mult_le_mono2 nat_mono)
  also have "\<dots> = 6 * (avg div nat k * nat k)" using T20 k(1) by (simp add: q(2) nat_mult_distrib)
  also have "\<dots> \<le> 6 * avg" by (intro mult_le_mono2) (simp add: div_times_less_eq_dividend)
  finally have b: "val (uint_mul32 q (word_of_int ?w)) = val q * nat ?w"
    using v q(1) by (simp add: val_uint_mul32_256 u)
  have "0 < avg div nat k" using ge k(1) T20 by (simp add: div_greater_zero_iff)
  then have "1 \<le> val q" by (simp add: q(2))
  moreover have "nat ?w \<noteq> 0" using w'(1) by linarith
  ultimately have nz: "val (uint_mul32 q (word_of_int ?w)) \<noteq> 0"
    unfolding b by (metis mult_is_0 not_one_le_zero)
  note cap = lwma_cap_spec [OF p, of "uint_mul32 q (word_of_int ?w)" h, OF wf256_uint_mul32 [OF q(1)]]
  obtain c where c: "GetCompact False (lwma_cap p algo h (uint_mul32 q (word_of_int ?w))) = Some c"
    using GetCompact_target [OF cap(1)] by metis
  show ?thesis
    by (rule that [OF _ c cap(1)]) (simp_all only: win c cap(4) [OF nz] b q(2))
qed

lemma nat_weight_le: "6 * k < 2 ^ 32 \<Longrightarrow> 2 ^ 32 \<le> t \<Longrightarrow> nat k \<le> t" for k :: int
  by (simp add: nat_le_iff)

lemma nat_weight_mono: "0 < k \<Longrightarrow> w \<le> 6 * k \<Longrightarrow> nat (max w (k div 20)) \<le> nat (6 * k)" for k :: int
  by (intro nat_mono) auto

lemma LwmaPerAlgo_window:
  assumes "pindexLast \<noteq> []" "a = lwma_collect algo 61 (61 * 4 * 8) pindexLast" "length a \<ge> 2"
    "bi_nHeight (hd pindexLast) - bi_nHeight (hd a) < 40"
  shows "LwmaPerAlgo pindexLast p algo =
         lwma_window p algo (bi_nHeight (hd pindexLast) + 1) (nPowTargetSpacing p * NUM_ALGOS) a"
proof -
  have "lwma_collect algo (60 + 1) ((60 + 1) * nat NUM_ALGOS * 8) pindexLast = a"
    using assms(2) by (simp add: NUM_ALGOS_def)
  then show ?thesis using assms(1,3,4) unfolding LwmaPerAlgo_def Let_def by (simp add: NUM_ALGOS_def)
qed


text \<open>
  a window whose blocks all carry the same target and arrive exactly at the
  per-algorithm spacing leaves the target unchanged, up to the rounding of the
  division by the nominal weight \<open>k\<close> and of the compact encoding.
\<close>

theorem lwma_steady_state:
  assumes "pow_params_ok p" "valid_algo algo" "20 \<le> nPowTargetSpacing p * NUM_ALGOS"
    and "pindexLast \<noteq> []" "a = lwma_collect algo 61 (61 * 4 * 8) pindexLast" "length a \<ge> 2"
    and "bi_nHeight (hd pindexLast) - bi_nHeight (hd a) < 40"
    and "\<And>i. i < length a - 1 \<Longrightarrow> target (bi_nBits (a ! i)) = t"
    and "\<And>i. i < length a - 1 \<Longrightarrow> bi_nTime (a ! i) - bi_nTime (a ! (i + 1)) = nPowTargetSpacing p * NUM_ALGOS"
    and "2 ^ 32 \<le> t" "60 * t < 2 ^ 256" "t \<le> eff_limit p algo (bi_nHeight (hd pindexLast) + 1)"
    and "n = int (min 60 (length a - 1))" "k = n * (n + 1) div 2 * (nPowTargetSpacing p * NUM_ALGOS)"
  shows "\<exists>c. LwmaPerAlgo pindexLast p algo = Some c \<and> target c \<le> t \<and>
             t < target c + nat k + 256 ^ (compact_size c - 3)"
proof -
  let ?T = "nPowTargetSpacing p * NUM_ALGOS" and ?h = "bi_nHeight (hd pindexLast) + 1"
  let ?n = "min 60 (length a - 1)"
  let ?s = "lwma_sums ?T a ?n"
  have n: "0 < ?n" "n = int ?n" using assms(6,13) by auto
  have "?n * t \<le> 60 * t" by (intro mult_le_mono1) simp
  then have nt: "?n * t < 2 ^ 256" using assms(11) by linarith
  have T: "0 < ?T" "?n < length a" using assms(3,6) by simp_all
  have sums: "fst ?s = k" "val (snd ?s) = ?n * t"
    using lwma_sums_steady [OF T(2) nt T(1)] assms(8,9) unfolding assms(14) n(2) by simp_all
  then have avg: "val (snd ?s) div ?n = t" using n(1) by simp
  have ke: "int ?n * (int ?n + 1) div 2 * ?T = k" using assms(14) n(2) by simp
  have k: "?T \<le> k" "6 * k < 2 ^ 32"
    using lwma_window_eval [OF assms(1,6)] unfolding ke by blast+
  have k': "nat k \<le> t" using k(2) assms(10) by (rule nat_weight_le)
  obtain c b where c: "lwma_window p algo ?h ?T a = Some c" "GetCompact False b = Some c" "wf256 b"
    "val b = min (eff_limit p algo ?h) (t div nat k * nat (max k (k div 20)))"
  proof (rule lwma_window_value [OF assms(1,2,6,3), of ?h, unfolded ke avg sums(1)])
    show "k \<le> 6 * k" "6 * t < 2 ^ 256" "nat k \<le> t" using k k' T(1) assms(11) by auto
  qed
  have kpos: "0 < k" using k(1) T(1) by linarith
  then have "max k (k div 20) = k" by (simp add: max_def)
  then have vb: "val b = t div nat k * nat k"
    using c(4) assms(12) order_trans [OF div_times_less_eq_dividend assms(12), of "nat k"] by simp
  have "t < val b + nat k"
    using vb mod_less_divisor [of "nat k" t] div_mult_mod_eq [of t "nat k"] kpos by linarith
  moreover have "val b \<le> t" using vb by (simp add: div_times_less_eq_dividend)
  moreover obtain b' where "SetCompact c = (b', False, False)" "val b' \<le> val b" "val b < val b' + 256 ^ (compact_size c - 3)"
    using compact_round_down [OF c(3,2)] by metis
  ultimately show ?thesis using c(1) LwmaPerAlgo_window [OF assms(4-7)] by (auto simp: target_def)
qed

lemma target_value:
  "3 < compact_size c \<Longrightarrow> compact_word c * 256 ^ (compact_size c - 3) < 2 ^ 256 \<Longrightarrow>
   target c = compact_word c * 256 ^ (compact_size c - 3)"
  using SetCompact_spec(3) [of c] by (cases "SetCompact c") (auto simp: target_def)

section \<open>Concrete parameters for the witnesses\<close>

lemma pow_params_ok_mainnet: "pow_params_ok (mainnet f d e lE lD lF)"
  by (simp add: pow_params_ok_def mainnet_def bval_uint256S)

lemma valid_algo_0: "valid_algo 0"
  by (simp add: valid_algo_def NUM_ALGOS_def)

text \<open>A compact value for the witnesses: mantissa \<open>0x0ffff0\<close>, 23 bytes.\<close>

lemma target_170ffff0: "target 0x170ffff0 = 0x0ffff0 * 256 ^ 20"
  using target_value [of "0x170ffff0"] by (simp add: compact_size_def compact_word_def)

lemma good_bits_170ffff0: "good_bits 0x170ffff0"
proof -
  have u: "unat (0x170ffff0 :: 32 word) = 0x0ffff0 + 2 ^ 24 * 0x17" by simp
  note parts = compact_parts [OF u]
  obtain b neg ovf where s: "SetCompact 0x170ffff0 = (b, neg, ovf)" by (cases "SetCompact 0x170ffff0") auto
  note spec = SetCompact_spec [OF s]
  have "\<not> neg" using spec(5) parts(3) by auto
  moreover have "\<not> ovf" using spec(4) parts(1,2) by simp
  moreover have "val b > 0" using target_170ffff0 s by (simp add: target_def)
  ultimately show ?thesis using s by (simp add: good_bits_def target_def)
qed

definition block_ex :: "int \<Rightarrow> CBlockIndex" where
  "block_ex i = \<lparr>bi_nHeight = 160000 + i, bi_nTime = 480 * i, bi_nBits = 0x170ffff0, bi_nVersion = 2\<rparr>"

definition chain_ex :: chain where
  "chain_ex = [block_ex 2, block_ex 1, block_ex 0]"

lemma lwma_collect_ex: "lwma_collect 0 61 (61 * 4 * 8) chain_ex = chain_ex"
  by (simp add: chain_ex_def block_ex_def GetAlgo_def eval_nat_numeral)

section \<open>Required work\<close>

lemma PowLimitForAlgo_target:
  assumes "pow_params_ok p" "valid_algo algo"
  obtains c where "PowLimitForAlgo p algo = Some c" "good_bits c" "target c \<le> bval (powLimitAlgo p ! nat algo)"
  using GetCompact_target [of "UintToArith256 (powLimitAlgo p ! nat algo)"] pow_params_limits [OF assms] assms(2)
  by (auto simp: PowLimitForAlgo_def valid_algo_def val_UintToArith256)

text \<open>
  C8: once the LWMA retarget is active, the work the node requires of the next block
  always exists, lies within the algorithm's limit, and is minable: the proof-of-work
  check accepts exactly the hashes that do not exceed the required target.
\<close>

theorem next_work_minable:
  assumes "pow_params_ok p" "valid_algo algo"
    and "\<And>b. b \<in> set pindexLast \<Longrightarrow> 0 < target (bi_nBits b)"
    and "pindexLast \<noteq> [] \<Longrightarrow> IsDaaLwmaActive p (bi_nHeight (hd pindexLast) + 1)"
  shows "\<exists>c. GetNextWorkRequired pindexLast blockTime p algo = Some c \<and>
             0 < target c \<and> target c \<le> bval (powLimitAlgo p ! nat algo) \<and>
             (\<forall>hash. length hash = 32 \<longrightarrow> CheckProofOfWork hash c p algo = (bval hash \<le> target c))"
proof -
  obtain l where l: "PowLimitForAlgo p algo = Some l" "good_bits l" "target l \<le> bval (powLimitAlgo p ! nat algo)"
    using PowLimitForAlgo_target [OF assms(1,2)] by metis
  have e: "\<exists>c. EffectivePowLimitForAlgo p algo h = Some c \<and> good_bits c \<and> target c \<le> bval (powLimitAlgo p ! nat algo)" for h
    using EffectivePowLimit_target [OF assms(1,2)] eff_limit_le [OF assms(1,2)] by (metis order_trans)
  have w: "\<exists>c. LwmaPerAlgo pindexLast p algo = Some c \<and> good_bits c \<and> target c \<le> bval (powLimitAlgo p ! nat algo)"
    if "pindexLast \<noteq> []"
    using LwmaPerAlgo_spec [OF assms(1,2) that assms(3)] eff_limit_le [OF assms(1,2)] by (metis order_trans)
  have "\<exists>c. GetNextWorkRequired pindexLast blockTime p algo = Some c \<and> good_bits c \<and>
      target c \<le> bval (powLimitAlgo p ! nat algo)"
    using l e w assms(4) by (simp add: GetNextWorkRequired_def)
  then show ?thesis using CheckProofOfWork_spec [OF assms(1,2)] by (auto simp: good_bits_def)
qed

theorem next_work_minable_witness:
  "\<exists>c. GetNextWorkRequired chain_ex 2000 (mainnet [] [] [] [] [] []) 0 = Some c \<and>
       0 < target c \<and> target c \<le> bval (powLimitAlgo (mainnet [] [] [] [] [] []) ! nat 0) \<and>
       (\<forall>hash. length hash = 32 \<longrightarrow> CheckProofOfWork hash c (mainnet [] [] [] [] [] []) 0 = (bval hash \<le> target c))"
  by (rule next_work_minable [OF pow_params_ok_mainnet valid_algo_0])
    (auto simp: chain_ex_def block_ex_def target_170ffff0 IsDaaLwmaActive_def mainnet_def)

text \<open>
  C29: the Hivemind retarget always returns, and never a target easier than the limit
  in force at the next height (the hardware floor once it is active).
\<close>

theorem hivemind_within_limit:
  assumes "pow_params_ok p" "valid_algo algo" "pindexLast \<noteq> []"
  shows "\<exists>c. Hivemind pindexLast p algo gap = Some c \<and>
             target c \<le> eff_limit p algo (bi_nHeight (hd pindexLast) + 1)"
  using Hivemind_bounded [OF assms] by metis

theorem hivemind_within_limit_witness:
  "\<exists>c. Hivemind chain_ex (mainnet [] [] [] [] [] []) 0 0 = Some c \<and>
       target c \<le> eff_limit (mainnet [] [] [] [] [] []) 0 (bi_nHeight (hd chain_ex) + 1)"
  by (rule hivemind_within_limit [OF pow_params_ok_mainnet valid_algo_0]) (simp add: chain_ex_def)

text \<open>
  The proof-of-work check accepts a block exactly when its compact target is
  positive, representable, within the algorithm's limit, and not below the hash.
\<close>

theorem check_pow_iff:
  assumes "pow_params_ok p" "valid_algo algo" "length hash = 32"
  shows "CheckProofOfWork hash nBits p algo \<longleftrightarrow>
         good_bits nBits \<and> target nBits \<le> bval (powLimitAlgo p ! nat algo) \<and> bval hash \<le> target nBits"
  using assms by (rule CheckProofOfWork_spec)

theorem check_pow_iff_witness:
  "CheckProofOfWork (uint256S 5) 0x170ffff0 (mainnet [] [] [] [] [] []) 0 \<longleftrightarrow>
   good_bits 0x170ffff0 \<and> target 0x170ffff0 \<le> bval (powLimitAlgo (mainnet [] [] [] [] [] []) ! nat 0) \<and>
   bval (uint256S 5) \<le> target 0x170ffff0"
  by (rule check_pow_iff [OF pow_params_ok_mainnet valid_algo_0 length_uint256S])

text \<open>
  the work credited to a block is the expected number of hashes for its target,
  although the numerator \<open>2 ^ 256\<close> is not representable in the 256-bit type.
\<close>

theorem block_proof_value:
  assumes "good_bits nBits" "target nBits < 2 ^ 256 - 1"
  shows "\<exists>w. GetBlockProof nBits = Some w \<and> wf256 w \<and> val w = 2 ^ 256 div (target nBits + 1)"
  using GetBlockProof_spec [OF assms] by metis

theorem block_proof_value_witness:
  "\<exists>w. GetBlockProof 0x170ffff0 = Some w \<and> wf256 w \<and> val w = 2 ^ 256 div (target 0x170ffff0 + 1)"
  by (rule block_proof_value [OF good_bits_170ffff0]) (simp add: target_170ffff0)


theorem lwma_steady_state_witness:
  "\<exists>c. LwmaPerAlgo chain_ex (mainnet [] [] [] [] [] []) 0 = Some c \<and> target c \<le> 0x0ffff0 * 256 ^ 20 \<and>
       0x0ffff0 * 256 ^ 20 < target c + nat 1440 + 256 ^ (compact_size c - 3)"
  by (rule lwma_steady_state [OF pow_params_ok_mainnet valid_algo_0 _ _ lwma_collect_ex [symmetric], where n = 2])
    (auto simp: chain_ex_def block_ex_def mainnet_def NUM_ALGOS_def target_170ffff0 less_Suc_eq eff_limit_def bval_uint256S)

section \<open>The local adjustment and its headroom\<close>

lemma local_easier_exact:
  "wf256 a \<Longrightarrow> wf256 l \<Longrightarrow> 104 * val l < 2 ^ 256 \<Longrightarrow> val a \<le> val l \<Longrightarrow>
   \<exists>r. local_easier n l a = Some r \<and> wf256 r \<and> val a \<le> val r \<and> val r \<le> val l"
proof (induction n arbitrary: a)
  case (Suc n)
  obtain q where q: "uint_div (uint_mul32 a 104) (of_uint64 100) = Some q" "wf256 q"
    "val q = val (uint_mul32 a 104) div unat (100 :: 64 word)"
    using uint_div_Some [of "uint_mul32 a 104" 100] Suc.prems by auto
  have "val a * 104 < 2 ^ 256" using Suc.prems(3,4) by linarith
  then have vq: "val q = val a * 104 div 100" using q(3) Suc.prems(1) by (simp add: val_uint_mul32_256)
  then have ge: "val a \<le> val q" by linarith
  show ?case
  proof (cases "val l < val q")
    case True
    then show ?thesis using q Suc.prems by (simp add: uint_gt_val)
  next
    case False
    then show ?thesis using Suc.IH [OF q(2) Suc.prems(2,3)] q Suc.prems ge
      by (auto simp: uint_gt_val intro: order_trans)
  qed
qed simp

text \<open>
  With a limit that leaves room for the factor 104, every local easing step of the
  Hivemind retarget makes the target no harder and stops at the limit.
\<close>

theorem hivemind_local_easing_sound:
  assumes "wf256 bnNew" "wf256 limit" "104 * val limit < 2 ^ 256" "val bnNew \<le> val limit"
  shows "\<exists>r. local_easier n limit bnNew = Some r \<and> val bnNew \<le> val r \<and> val r \<le> val limit"
  using local_easier_exact [OF assms] by blast

theorem hivemind_local_easing_sound_witness:
  "\<exists>r. local_easier 3 (of_uint64 1000) (of_uint64 500) = Some r \<and>
       val (of_uint64 500) \<le> val r \<and> val r \<le> val (of_uint64 1000)"
  by (rule hivemind_local_easing_sound) (simp_all add: val_of_uint64)

definition testnet_limit :: limbs where
  "testnet_limit = UintToArith256 (uint256S 0x7fffff0000000000000000000000000000000000000000000000000000000000)"

lemma val_testnet_limit: "val testnet_limit = 0x7fffff0000000000000000000000000000000000000000000000000000000000"
  by (simp add: testnet_limit_def val_UintToArith256 bval_uint256S)


end
