(* ===== verification/Serialize.thy ===== *)
theory Serialize
  imports Arith_Uint256
begin

text \<open>
  \<^verbatim>\<open>serialize.h\<close>: little-endian integers, compact sizes, variable-length integers, bit
  sets and length-limited vectors.  A writer gives the bytes it appends to the stream; a
  reader gives the value and the rest of the stream, and \<open>None\<close> when it throws
  \<^verbatim>\<open>std::ios_base::failure\<close> (a short stream included).
\<close>

unbundle bit_operations_syntax

type_synonym bytes = "8 word list"
type_synonym 'a reader = "bytes \<Rightarrow> ('a \<times> bytes) option"

section \<open>Fixed-width integers\<close>

definition le_bytes :: "nat \<Rightarrow> nat \<Rightarrow> bytes" where
  "le_bytes n v = map (\<lambda>i. word_of_nat (v div 256 ^ i)) [0..<n]"

definition read_span :: "nat \<Rightarrow> bytes reader" where
  "read_span n s = (if length s < n then None else Some (take n s, drop n s))"

definition ser_writedata8 :: "8 word \<Rightarrow> bytes" where
  "ser_writedata8 w = [w]"

definition ser_writedata16 :: "16 word \<Rightarrow> bytes" where
  "ser_writedata16 w = le_bytes 2 (unat w)"

definition ser_writedata32 :: "32 word \<Rightarrow> bytes" where
  "ser_writedata32 w = le_bytes 4 (unat w)"

definition ser_writedata64 :: "64 word \<Rightarrow> bytes" where
  "ser_writedata64 w = le_bytes 8 (unat w)"

definition ser_readdata8 :: "8 word reader" where
  "ser_readdata8 s = do { (b, s) \<leftarrow> read_span 1 s; Some (word_of_nat (bval b), s) }"

definition ser_readdata16 :: "16 word reader" where
  "ser_readdata16 s = do { (b, s) \<leftarrow> read_span 2 s; Some (word_of_nat (bval b), s) }"

definition ser_readdata32 :: "32 word reader" where
  "ser_readdata32 s = do { (b, s) \<leftarrow> read_span 4 s; Some (word_of_nat (bval b), s) }"

definition ser_readdata64 :: "64 word reader" where
  "ser_readdata64 s = do { (b, s) \<leftarrow> read_span 8 s; Some (word_of_nat (bval b), s) }"

text \<open>Signed integers are written and read through the unsigned type of their width.\<close>

definition ser_int32 :: "int \<Rightarrow> bytes" where
  "ser_int32 i = ser_writedata32 (word_of_int i)"

definition ser_int64 :: "int \<Rightarrow> bytes" where
  "ser_int64 i = ser_writedata64 (word_of_int i)"

definition unser_int32 :: "int reader" where
  "unser_int32 s = do { (w, s) \<leftarrow> ser_readdata32 s; Some (sint w, s) }"

definition unser_int64 :: "int reader" where
  "unser_int64 s = do { (w, s) \<leftarrow> ser_readdata64 s; Some (sint w, s) }"

section \<open>Compact sizes\<close>

definition MAX_SIZE :: "64 word" where
  "MAX_SIZE = 0x02000000"

definition GetSizeOfCompactSize :: "64 word \<Rightarrow> nat" where
  "GetSizeOfCompactSize nSize =
     (if nSize < 253 then 1 else if nSize \<le> 0xFFFF then 1 + 2 else if nSize \<le> 0xFFFFFFFF then 1 + 4 else 1 + 8)"

definition WriteCompactSize :: "64 word \<Rightarrow> bytes" where
  "WriteCompactSize nSize =
     (if nSize < 253 then ser_writedata8 (ucast nSize)
      else if nSize \<le> 0xFFFF then ser_writedata8 253 @ ser_writedata16 (ucast nSize)
      else if nSize \<le> 0xFFFFFFFF then ser_writedata8 254 @ ser_writedata32 (ucast nSize)
      else ser_writedata8 255 @ ser_writedata64 nSize)"

definition ReadCompactSize :: "bool \<Rightarrow> 64 word reader" where
  "ReadCompactSize range_check s =
     do {
       (chSize, s) \<leftarrow> ser_readdata8 s;
       (nSizeRet, s) \<leftarrow>
         (if chSize < 253 then Some (ucast chSize, s)
          else if chSize = 253 then
            do { (w, s) \<leftarrow> ser_readdata16 s; if w < 253 then None else Some (ucast w, s) }
          else if chSize = 254 then
            do { (w, s) \<leftarrow> ser_readdata32 s; if w < 0x10000 then None else Some (ucast w, s) }
          else
            do { (w, s) \<leftarrow> ser_readdata64 s; if w < 0x100000000 then None else Some (w, s) });
       if range_check \<and> nSizeRet > MAX_SIZE then None else Some (nSizeRet, s)
     }"

text \<open>\<^verbatim>\<open>COMPACTSIZE\<close> of a \<^verbatim>\<open>uint32_t\<close>: the reader checks the range.\<close>

definition ser_compact32 :: "32 word \<Rightarrow> bytes" where
  "ser_compact32 v = WriteCompactSize (ucast v)"

definition unser_compact32 :: "32 word reader" where
  "unser_compact32 s =
     do { (n, s) \<leftarrow> ReadCompactSize True s; if n > 0xFFFFFFFF then None else Some (ucast n, s) }"

section \<open>Variable-length integers\<close>

text \<open>
  The digit loop of \<^verbatim>\<open>WriteVarInt\<close>; \<open>acc\<close> holds the digits written to \<^verbatim>\<open>tmp\<close> so far, the
  latest first, which is the order in which they are sent.
\<close>

lemma varint_shrinks: "\<not> n \<le> 0x7F \<Longrightarrow> unat (drop_bit 7 n - 1) < unat n"
  for n :: "'a::len word"
proof -
  assume a: "\<not> n \<le> 0x7F"
  have d: "unat (drop_bit 7 n) \<le> unat n" unfolding unat_drop_bit_eq by (simp add: drop_bit_eq_div)
  show ?thesis
  proof (cases "drop_bit 7 n = 0")
    case True
    have "n = take_bit 7 n" using bits_ident [of 7 n] True by simp
    also have "\<dots> \<le> mask 7" by (simp add: take_bit_eq_mask word_and_le1)
    finally show ?thesis using a by (simp add: mask_eq_decr_exp numeral_eq_Suc)
  next
    case False
    then have "unat (drop_bit 7 n - 1) < unat (drop_bit 7 n)"
      by (metis measure_unat)
    then show ?thesis using d by simp
  qed
qed

function varint_digits :: "'a::len word \<Rightarrow> bytes \<Rightarrow> bytes" where
  "varint_digits n acc =
     (let b = ucast (n AND 0x7F) OR (if acc = [] then 0 else 0x80)
      in if n \<le> 0x7F then b # acc else varint_digits (drop_bit 7 n - 1) (b # acc))"
  by pat_completeness auto
termination
  by (relation "measure (\<lambda>(n, acc). unat n)") (use varint_shrinks in \<open>simp_all only: in_measure prod.case wf_measure\<close>)

declare varint_digits.simps [simp del]

definition WriteVarInt :: "'a::len word \<Rightarrow> bytes" where
  "WriteVarInt n = varint_digits n []"

fun varint_loop :: "'a::len word \<Rightarrow> 'a word reader" where
  "varint_loop n [] = None"
| "varint_loop n (chData # s) =
     (if n > drop_bit 7 (- 1) then None
      else let n = push_bit 7 n OR ucast (chData AND 0x7F)
           in if chData AND 0x80 \<noteq> 0 then (if n = - 1 then None else varint_loop (n + 1) s)
              else Some (n, s))"

definition ReadVarInt :: "'a::len word reader" where
  "ReadVarInt s = varint_loop 0 s"

section \<open>Bit sets\<close>

definition WriteFixedBitSet :: "bool list \<Rightarrow> nat \<Rightarrow> bytes" where
  "WriteFixedBitSet vec sz =
     fold (\<lambda>p vBytes. vBytes[p div 8 := vBytes ! (p div 8) OR push_bit (p mod 8) (of_bool (vec ! p))])
       [0..<min sz (length vec)] (replicate ((sz + 7) div 8) 0)"

definition ReadFixedBitSet :: "nat \<Rightarrow> bool list reader" where
  "ReadFixedBitSet sz s =
     do {
       (vBytes, s) \<leftarrow> read_span ((sz + 7) div 8) s;
       let vec = map (\<lambda>p. vBytes ! (p div 8) AND push_bit (p mod 8) 1 \<noteq> 0) [0..<sz];
           rem = length vBytes * 8 - sz
       in if length vBytes * 8 \<noteq> sz \<and> vBytes ! (length vBytes - 1) AND NOT (drop_bit rem 0xFF) \<noteq> 0 then None
          else Some (vec, s)
     }"

text \<open>The loop over the set positions; \<open>prev\<close> is the position written before.\<close>

fun varints_bits :: "nat option \<Rightarrow> nat \<Rightarrow> bool list \<Rightarrow> bytes" where
  "varints_bits prev i [] = WriteVarInt (0 :: 32 word)"
| "varints_bits prev i (b # bs) =
     (if b then WriteVarInt (of_nat (case prev of Some l \<Rightarrow> i - l | None \<Rightarrow> i + 1) :: 32 word) @ varints_bits (Some i) (Suc i) bs
      else varints_bits prev (Suc i) bs)"

definition WriteFixedVarIntsBitSet :: "bool list \<Rightarrow> bytes" where
  "WriteFixedVarIntsBitSet vec = varints_bits None 0 vec"

lemma varint_loop_consumes: "varint_loop n s = Some (m, s') \<Longrightarrow> length s' < length s"
  by (induction n s rule: varint_loop.induct) (fastforce simp: Let_def split: if_splits)+

lemma ReadVarInt_consumes [termination_simp]: "ReadVarInt s = Some (m, s') \<Longrightarrow> length s' < length s"
  unfolding ReadVarInt_def by (rule varint_loop_consumes)

function read_varints :: "nat \<Rightarrow> bool list \<Rightarrow> nat option \<Rightarrow> bool list reader" where
  "read_varints sz vec prev s =
     (case ReadVarInt s of
        None \<Rightarrow> None
      | Some (offset :: 32 word, s') \<Rightarrow>
          if offset = 0 then Some (vec, s')
          else let idx = (case prev of Some l \<Rightarrow> l + unat offset | None \<Rightarrow> unat offset - 1)
               in if idx \<ge> sz then None
                  else if (case prev of Some l \<Rightarrow> idx \<le> l | None \<Rightarrow> False) then None
                  else read_varints sz (vec[idx := True]) (Some idx) s')"
  by pat_completeness auto
termination
  by (relation "measure (\<lambda>(sz, vec, prev, s). length s)") (auto simp: ReadVarInt_consumes)

declare read_varints.simps [simp del]

definition ReadFixedVarIntsBitSet :: "nat \<Rightarrow> bool list reader" where
  "ReadFixedVarIntsBitSet sz s = read_varints sz (replicate sz False) None s"

text \<open>\<^verbatim>\<open>WriteAutoBitSet\<close> asserts that the vector has the declared size.\<close>

definition WriteAutoBitSet :: "bool list \<times> nat \<Rightarrow> bytes option" where
  "WriteAutoBitSet item =
     (let (vec, sz) = item; size1 = length (WriteFixedBitSet vec sz); size2 = length (WriteFixedVarIntsBitSet vec)
      in if length vec \<noteq> sz then None
         else if size1 < size2 then Some (ser_writedata8 0 @ WriteFixedBitSet vec (length vec))
         else Some (ser_writedata8 1 @ WriteFixedVarIntsBitSet vec))"

definition ReadAutoBitSet :: "nat \<Rightarrow> bool list reader" where
  "ReadAutoBitSet sz s =
     do {
       (isVarInts, s) \<leftarrow> ser_readdata8 s;
       if isVarInts \<noteq> 0 \<and> isVarInts \<noteq> 1 then None
       else if isVarInts = 0 then ReadFixedBitSet sz s
       else ReadFixedVarIntsBitSet sz s
     }"

definition ser_dynbitset :: "bool list \<Rightarrow> bytes" where
  "ser_dynbitset vec = WriteCompactSize (of_nat (length vec)) @ WriteFixedBitSet vec (length vec)"

definition unser_limited_dynbitset :: "nat \<Rightarrow> bool list reader" where
  "unser_limited_dynbitset limit s =
     do { (n, s) \<leftarrow> ReadCompactSize True s; if unat n > limit then None else ReadFixedBitSet (unat n) s }"

section \<open>Vectors with a length limit\<close>

fun ser_many :: "('a \<Rightarrow> bytes) \<Rightarrow> 'a list \<Rightarrow> bytes" where
  "ser_many w [] = []"
| "ser_many w (x # xs) = w x @ ser_many w xs"

fun unser_many :: "'a reader \<Rightarrow> nat \<Rightarrow> 'a list reader" where
  "unser_many rd 0 s = Some ([], s)"
| "unser_many rd (Suc n) s = do { (x, s) \<leftarrow> rd s; (xs, s) \<leftarrow> unser_many rd n s; Some (x # xs, s) }"

definition ser_limited :: "('a \<Rightarrow> bytes) \<Rightarrow> 'a list \<Rightarrow> bytes" where
  "ser_limited w v = WriteCompactSize (of_nat (length v)) @ ser_many w v"

definition unser_limited :: "nat \<Rightarrow> 'a reader \<Rightarrow> 'a list reader" where
  "unser_limited limit rd s =
     do { (n, s) \<leftarrow> ReadCompactSize True s; if unat n > limit then None else unser_many rd (unat n) s }"

definition ser_limited_bytes :: "bytes \<Rightarrow> bytes" where
  "ser_limited_bytes v = WriteCompactSize (of_nat (length v)) @ v"

definition unser_limited_bytes :: "nat \<Rightarrow> bytes reader" where
  "unser_limited_bytes limit s =
     do { (n, s) \<leftarrow> ReadCompactSize True s; if unat n > limit then None else read_span (unat n) s }"

text \<open>A \<^verbatim>\<open>uint256\<close> is its 32 bytes.\<close>

definition unser_uint256 :: "uint256 reader" where
  "unser_uint256 s = read_span 32 s"

section \<open>The contract of a format\<close>

text \<open>
  What the readers and writers of the node rely on: reading what was written gives the
  value back and leaves the rest of the stream.  A canonical format accepts nothing
  else: the bytes consumed are the bytes the writer would produce.
\<close>

locale format =
  fixes ser :: "'a \<Rightarrow> bytes" and unser :: "'a reader" and ok :: "'a \<Rightarrow> bool"
  assumes roundtrip: "ok x \<Longrightarrow> unser (ser x @ r) = Some (x, r)"
begin

lemma prefix_free: "ok x \<Longrightarrow> ok y \<Longrightarrow> ser x @ r = ser y @ r' \<Longrightarrow> x = y \<and> r = r'"
  by (metis roundtrip option.inject prod.inject)

lemma many_roundtrip: "\<forall>x \<in> set xs. ok x \<Longrightarrow> unser_many unser (length xs) (ser_many ser xs @ r) = Some (xs, r)"
  by (induction xs) (simp_all add: roundtrip)

end

locale canonical_format = format +
  assumes canonical: "unser s = Some (x, r) \<Longrightarrow> ok x \<and> s = ser x @ r"
begin

lemma unser_iff: "unser s = Some (x, r) \<longleftrightarrow> ok x \<and> s = ser x @ r"
  using canonical roundtrip by auto

lemma many_canonical:
  "unser_many unser n s = Some (xs, r) \<Longrightarrow> length xs = n \<and> (\<forall>x \<in> set xs. ok x) \<and> s = ser_many ser xs @ r"
proof (induction n arbitrary: s xs)
  case (Suc n)
  obtain p where p: "unser s = Some p" "(do { (xs, s) \<leftarrow> unser_many unser n (snd p); Some (fst p # xs, s) }) = Some (xs, r)"
    using Suc.prems by (cases "unser s") (simp_all add: case_prod_unfold)
  obtain q where q: "unser_many unser n (snd p) = Some q" "xs = fst p # fst q" "r = snd q"
    using p(2) by (cases "unser_many unser n (snd p)") (simp_all add: case_prod_unfold)
  have "ok (fst p) \<and> s = ser (fst p) @ snd p" using p(1) by (intro canonical) simp
  moreover have "length (fst q) = n \<and> (\<forall>x \<in> set (fst q). ok x) \<and> snd p = ser_many ser (fst q) @ r"
    using q by (intro Suc.IH) simp
  ultimately show ?case using q(2) by simp
qed simp

lemma many_iff:
  "unser_many unser n s = Some (xs, r) \<longleftrightarrow> length xs = n \<and> (\<forall>x \<in> set xs. ok x) \<and> s = ser_many ser xs @ r"
proof (rule iffI)
  assume "length xs = n \<and> (\<forall>x \<in> set xs. ok x) \<and> s = ser_many ser xs @ r"
  then show "unser_many unser n s = Some (xs, r)" using many_roundtrip [of xs r] by auto
qed (rule many_canonical)

end

section \<open>Integers\<close>

lemma length_le_bytes [simp]: "length (le_bytes n v) = n"
  by (simp add: le_bytes_def)

lemma le_bytes_Suc: "le_bytes (Suc n) v = word_of_nat v # le_bytes n (v div 256)"
proof -
  have "[0..<Suc n] = 0 # map Suc [0..<n]" by (simp only: upt_conv_Cons map_Suc_upt zero_less_Suc)
  then show ?thesis by (simp add: le_bytes_def comp_def div_mult2_eq)
qed

lemma le_bytes_0 [simp]: "le_bytes 0 v = []"
  by (simp add: le_bytes_def)

lemma bval_le_bytes: "bval (le_bytes n v) = v mod 256 ^ n"
proof (induction n arbitrary: v)
  case (Suc n)
  have "bval (le_bytes (Suc n) v) = v mod 256 + 256 * (v div 256 mod 256 ^ n)"
    using Suc.IH by (simp add: le_bytes_Suc unsigned_of_nat take_bit_eq_mod)
  also have "\<dots> = v mod (256 * 256 ^ n)" by (simp only: mod_mult2_eq add.commute)
  finally show ?case by simp
qed simp

lemma le_bytes_bval: "le_bytes (length bs) (bval bs) = bs"
proof (induction bs)
  case (Cons b bs)
  have "unat b < 2 ^ LENGTH(8)" by (rule unsigned_less)
  then have "unat b < 256" by simp
  then have "(unat b + 256 * bval bs) div 256 = bval bs" by simp
  moreover have z: "(256 :: 8 word) = 0" by code_simp
  have "(word_of_nat (unat b + 256 * bval bs) :: 8 word) = b + 256 * word_of_nat (bval bs)" by simp
  then have "word_of_nat (unat b + 256 * bval bs) = b" by (simp only: z mult_zero_left add_0_right)
  ultimately show ?case using Cons.IH by (simp add: le_bytes_Suc)
qed simp

lemma bval_less: "bval bs < 256 ^ length bs"
  using bval_le_bytes [of "length bs" "bval bs"] le_bytes_bval [of bs] by (metis mod_less_divisor zero_less_numeral zero_less_power)

lemma read_span_append: "length b = n \<Longrightarrow> read_span n (b @ r) = Some (b, r)"
  by (simp add: read_span_def)

lemma read_span_iff: "read_span n s = Some (b, r) \<longleftrightarrow> length b = n \<and> s = b @ r"
  by (auto simp: read_span_def)

lemma le_word_format:
  fixes wr :: "'a::len word \<Rightarrow> bytes"
  assumes "LENGTH('a) = 8 * n" "\<And>w. wr w = le_bytes n (unat w)"
    and "\<And>s. rd s = do { (b, s) \<leftarrow> read_span n s; Some (word_of_nat (bval b), s) }"
  shows "canonical_format wr rd (\<lambda>_. True)"
proof
  have p: "(256::nat) ^ n = 2 ^ LENGTH('a)" using assms(1) by (simp add: power_mult)
  fix x :: "'a word" and r
  have "unat x mod 2 ^ LENGTH('a) = unat x" by (intro mod_less unsigned_less)
  then show "rd (wr x @ r) = Some (x, r)"
    unfolding assms(2,3) by (simp add: read_span_append bval_le_bytes p)
next
  have p: "(256::nat) ^ n = 2 ^ LENGTH('a)" using assms(1) by (simp add: power_mult)
  fix s r and x :: "'a word" assume "rd s = Some (x, r)"
  then obtain b where b: "length b = n" "s = b @ r" "x = word_of_nat (bval b)"
    unfolding assms(3) by (auto simp: read_span_iff split: bind_splits)
  have "bval b < 2 ^ LENGTH('a)" using bval_less [of b] b(1) p by simp
  then have "unat x = bval b" unfolding b(3) by (simp add: unsigned_of_nat take_bit_nat_eq_self)
  then show "True \<and> s = wr x @ r" unfolding assms(2) using b le_bytes_bval [of b] by simp
qed

interpretation u8: canonical_format ser_writedata8 ser_readdata8 "\<lambda>_. True"
  by (rule le_word_format [where n = 1])
    (simp_all add: ser_writedata8_def ser_readdata8_def One_nat_def le_bytes_Suc)

interpretation u16: canonical_format ser_writedata16 ser_readdata16 "\<lambda>_. True"
  by (rule le_word_format [where n = 2]) (simp_all add: ser_writedata16_def ser_readdata16_def)

interpretation u32: canonical_format ser_writedata32 ser_readdata32 "\<lambda>_. True"
  by (rule le_word_format [where n = 4]) (simp_all add: ser_writedata32_def ser_readdata32_def)

interpretation u64: canonical_format ser_writedata64 ser_readdata64 "\<lambda>_. True"
  by (rule le_word_format [where n = 8]) (simp_all add: ser_writedata64_def ser_readdata64_def)

definition int32_ok :: "int \<Rightarrow> bool" where
  "int32_ok i = (- (2 ^ 31) \<le> i \<and> i < 2 ^ 31)"

definition int64_ok :: "int \<Rightarrow> bool" where
  "int64_ok i = (- (2 ^ 63) \<le> i \<and> i < 2 ^ 63)"

interpretation i32: canonical_format ser_int32 unser_int32 int32_ok
proof
  fix x r assume "int32_ok x"
  then have "sint (word_of_int x :: 32 word) = x"
    by (simp add: signed_of_int signed_take_bit_int_eq_self int32_ok_def)
  then show "unser_int32 (ser_int32 x @ r) = Some (x, r)"
    using u32.roundtrip [of "word_of_int x" r] by (simp add: unser_int32_def ser_int32_def)
next
  fix s x r assume "unser_int32 s = Some (x, r)"
  then obtain w where "ser_readdata32 s = Some (w, r)" "x = sint w" by (auto simp: unser_int32_def split: bind_splits)
  then show "int32_ok x \<and> s = ser_int32 x @ r"
    using u32.unser_iff [of s w r] sint_greater_eq [of w] sint_less [of w] by (simp add: ser_int32_def int32_ok_def)
qed

interpretation i64: canonical_format ser_int64 unser_int64 int64_ok
proof
  fix x r assume "int64_ok x"
  then have "sint (word_of_int x :: 64 word) = x"
    by (simp add: signed_of_int signed_take_bit_int_eq_self int64_ok_def)
  then show "unser_int64 (ser_int64 x @ r) = Some (x, r)"
    using u64.roundtrip [of "word_of_int x" r] by (simp add: unser_int64_def ser_int64_def)
next
  fix s x r assume "unser_int64 s = Some (x, r)"
  then obtain w where "ser_readdata64 s = Some (w, r)" "x = sint w" by (auto simp: unser_int64_def split: bind_splits)
  then show "int64_ok x \<and> s = ser_int64 x @ r"
    using u64.unser_iff [of s w r] sint_greater_eq [of w] sint_less [of w] by (simp add: ser_int64_def int64_ok_def)
qed

interpretation h256: canonical_format "\<lambda>h. h" unser_uint256 "\<lambda>h. length h = 32"
  by unfold_locales (simp_all add: unser_uint256_def read_span_append read_span_iff)

section \<open>Compact sizes\<close>

lemma unat_bound: "unat w < 2 ^ LENGTH('a)" for w :: "'a::len word"
  by (rule unsigned_less)

lemma ucast_down:
  "unat n < 2 ^ LENGTH('b) \<Longrightarrow> unat (ucast n :: 'b::len word) = unat (n :: 'a::len word)"
  by (simp add: unsigned_ucast_eq take_bit_nat_eq_self)

lemma ucast_up: "LENGTH('b) \<le> LENGTH('a) \<Longrightarrow> unat (ucast n :: 'a::len word) = unat (n :: 'b::len word)"
proof -
  assume "LENGTH('b) \<le> LENGTH('a)"
  then have "(2::nat) ^ LENGTH('b) \<le> 2 ^ LENGTH('a)" by simp
  then show ?thesis using unsigned_less [of n] less_le_trans by (intro ucast_down) blast
qed

lemma ucast_down_up:
  "unat n < 2 ^ LENGTH('b) \<Longrightarrow> LENGTH('b) \<le> LENGTH('a) \<Longrightarrow> ucast (ucast n :: 'b::len word) = (n :: 'a::len word)"
  by (rule unsigned_word_eqI [where 'a = nat]) (simp only: ucast_up ucast_down)

lemma ucast_up_down: "LENGTH('b) \<le> LENGTH('a) \<Longrightarrow> ucast (ucast n :: 'a::len word) = (n :: 'b::len word)"
  by (rule unsigned_word_eqI [where 'a = nat]) (use unat_bound [of n] in \<open>simp add: ucast_down ucast_up\<close>)

lemma compact_small: "(n :: 64 word) < 253 \<Longrightarrow> unat n < 2 ^ LENGTH(8) \<and> (ucast n :: 8 word) < 253"
  using ucast_down [of n, where 'b = 8] by (simp add: word_less_nat_alt)

lemma compact_medium:
  "\<not> (n :: 64 word) < 253 \<Longrightarrow> n \<le> 0xFFFF \<Longrightarrow> unat n < 2 ^ LENGTH(16) \<and> \<not> (ucast n :: 16 word) < 253"
  using ucast_down [of n, where 'b = 16] by (simp add: word_less_nat_alt word_le_nat_alt)

lemma compact_large:
  "\<not> (n :: 64 word) \<le> 0xFFFF \<Longrightarrow> n \<le> 0xFFFFFFFF \<Longrightarrow> unat n < 2 ^ LENGTH(32) \<and> \<not> (ucast n :: 32 word) < 0x10000"
  using ucast_down [of n, where 'b = 32] by (simp add: word_less_nat_alt word_le_nat_alt)

lemma ReadCompactSize_Write:
  "ReadCompactSize range_check (WriteCompactSize n @ r) =
     (if range_check \<and> n > MAX_SIZE then None else Some (n, r))"
proof -
  consider "n < 253" | "\<not> n < 253" "n \<le> 0xFFFF" | "\<not> n < 253" "\<not> n \<le> 0xFFFF" "n \<le> 0xFFFFFFFF" |
    "\<not> n < 253" "\<not> n \<le> 0xFFFF" "\<not> n \<le> 0xFFFFFFFF" by blast
  then show ?thesis
  proof cases
    case 1
    then show ?thesis using compact_small [of n] ucast_down_up [of n, where 'b = 8]
      by (simp add: ReadCompactSize_def WriteCompactSize_def u8.roundtrip)
  next
    case 2
    then show ?thesis using compact_medium [of n] ucast_down_up [of n, where 'b = 16]
      by (simp add: ReadCompactSize_def WriteCompactSize_def u8.roundtrip u16.roundtrip)
  next
    case 3
    then show ?thesis using compact_large [of n] ucast_down_up [of n, where 'b = 32]
      by (simp add: ReadCompactSize_def WriteCompactSize_def u8.roundtrip u32.roundtrip)
  next
    case 4
    then have "\<not> n < 0x100000000" by (simp add: word_less_nat_alt word_le_nat_alt)
    then show ?thesis using 4
      by (simp add: ReadCompactSize_def WriteCompactSize_def u8.roundtrip u64.roundtrip)
  qed
qed

text \<open>Each of the four lengths accepts only values that need it.\<close>

lemma compact_up16: "\<not> w < 253 \<Longrightarrow> \<not> (ucast (w :: 16 word) :: 64 word) < 253 \<and> (ucast w :: 64 word) \<le> 0xFFFF"
  using ucast_up [of w, where 'a = 64] unat_bound [of w] by (simp add: word_less_nat_alt word_le_nat_alt)

lemma compact_up32: "\<not> w < 0x10000 \<Longrightarrow> \<not> (ucast (w :: 32 word) :: 64 word) \<le> 0xFFFF \<and> (ucast w :: 64 word) \<le> 0xFFFFFFFF"
  using ucast_up [of w, where 'a = 64] unat_bound [of w] by (simp add: word_less_nat_alt word_le_nat_alt)

lemma compact_up8: "w < 253 \<Longrightarrow> (ucast (w :: 8 word) :: 64 word) < 253"
  using ucast_up [of w, where 'a = 64] by (simp add: word_less_nat_alt)

lemma compact_not_small: "\<not> n \<le> (0xFFFF :: 64 word) \<Longrightarrow> \<not> n < 253"
  by (simp add: word_less_nat_alt word_le_nat_alt)

lemma ReadCompactSize_canonical:
  assumes "ReadCompactSize range_check s = Some (n, r)"
  shows "(range_check \<longrightarrow> n \<le> MAX_SIZE) \<and> s = WriteCompactSize n @ r"
proof -
  obtain b s1 where b: "ser_readdata8 s = Some (b, s1)"
    using assms by (cases "ser_readdata8 s") (auto simp: ReadCompactSize_def)
  have s: "s = b # s1" using u8.canonical [OF b] by (simp add: ser_writedata8_def)
  note rd = assms [unfolded ReadCompactSize_def b Option.bind.simps(2) prod.case]
  have n: "range_check \<longrightarrow> n \<le> MAX_SIZE" using rd by (auto split: bind_splits if_splits)
  consider "b < 253" | "b = 253" | "b = 254" | "b = 255"
  proof -
    have "unat b < 2 ^ LENGTH(8)" by (rule unsigned_less)
    then have "unat b < 253 \<or> unat b = 253 \<or> unat b = 254 \<or> unat b = 255" by simp linarith
    then show ?thesis using that by (auto simp: word_less_nat_alt word_unat_eq_iff)
  qed
  then have "s = WriteCompactSize n @ r"
  proof cases
    case 1
    then have "n = ucast b" "r = s1" using rd by (auto split: if_splits)
    then show ?thesis using s compact_up8 [OF 1] by (simp add: WriteCompactSize_def ser_writedata8_def ucast_up_down)
  next
    case 2
    then obtain w where w: "ser_readdata16 s1 = Some (w, r)" "\<not> w < 253" "n = ucast w"
      using rd by (auto split: bind_splits if_splits)
    then show ?thesis using s 2 compact_up16 [of w] u16.canonical [OF w(1)]
      by (simp add: WriteCompactSize_def ser_writedata8_def ucast_up_down)
  next
    case 3
    then obtain w where w: "ser_readdata32 s1 = Some (w, r)" "\<not> w < 0x10000" "n = ucast w"
      using rd by (auto split: bind_splits if_splits)
    then show ?thesis using s 3 compact_up32 [of w] compact_not_small [of "ucast w"] u32.canonical [OF w(1)]
      by (simp add: WriteCompactSize_def ser_writedata8_def ucast_up_down)
  next
    case 4
    then obtain "ser_readdata64 s1 = Some (n, r)" "\<not> n < 0x100000000"
      using rd by (auto split: bind_splits if_splits)
    then show ?thesis using s 4 u64.canonical [of s1 n r]
      by (simp add: WriteCompactSize_def ser_writedata8_def word_less_nat_alt word_le_nat_alt)
  qed
  with n show ?thesis by simp
qed

interpretation compact: canonical_format WriteCompactSize "ReadCompactSize True" "\<lambda>n. n \<le> MAX_SIZE"
  by unfold_locales (use ReadCompactSize_Write [of True] ReadCompactSize_canonical [of True] in \<open>simp_all add: not_less\<close>)

interpretation compact_any: canonical_format WriteCompactSize "ReadCompactSize False" "\<lambda>_. True"
  by unfold_locales (use ReadCompactSize_Write [of False] ReadCompactSize_canonical [of False] in simp_all)

interpretation compact32: canonical_format ser_compact32 unser_compact32 "\<lambda>v. v \<le> 0x02000000"
proof
  fix v :: "32 word" and r assume v: "v \<le> 0x02000000"
  have u: "unat (ucast v :: 64 word) = unat v" by (rule ucast_up) simp
  then have "(ucast v :: 64 word) \<le> MAX_SIZE" "\<not> (ucast v :: 64 word) > 0xFFFFFFFF"
    using v unat_bound [of v] by (simp_all add: MAX_SIZE_def word_less_nat_alt word_le_nat_alt)
  then show "unser_compact32 (ser_compact32 v @ r) = Some (v, r)"
    using compact.roundtrip [of "ucast v" r] by (simp add: unser_compact32_def ser_compact32_def ucast_up_down)
next
  fix s r and v :: "32 word" assume "unser_compact32 s = Some (v, r)"
  then obtain n where n: "ReadCompactSize True s = Some (n, r)" "\<not> n > 0xFFFFFFFF" "v = ucast n"
    by (auto simp: unser_compact32_def split: bind_splits if_splits)
  then have "unat n < 2 ^ LENGTH(32)" by (simp add: word_less_nat_alt)
  then have "ucast v = n" "unat v = unat n" unfolding n(3) by (simp_all add: ucast_down_up ucast_down)
  then show "v \<le> 0x02000000 \<and> s = ser_compact32 v @ r"
    using compact.canonical [OF n(1)] by (simp add: ser_compact32_def MAX_SIZE_def word_le_nat_alt)
qed

lemma length_WriteCompactSize: "length (WriteCompactSize n) = GetSizeOfCompactSize n"
  by (simp add: WriteCompactSize_def GetSizeOfCompactSize_def ser_writedata8_def ser_writedata16_def
      ser_writedata32_def ser_writedata64_def)

section \<open>Variable-length integers are one-to-one\<close>

definition varint_byte :: "'a::len word \<Rightarrow> bool \<Rightarrow> 8 word" where
  "varint_byte n more = ucast (n AND 0x7F) OR (if more then 0x80 else 0)"

function varint_enc :: "'a::len word \<Rightarrow> bool \<Rightarrow> bytes" where
  "varint_enc n more =
     (if n \<le> 0x7F then [varint_byte n more] else varint_enc (drop_bit 7 n - 1) True @ [varint_byte n more])"
  by pat_completeness auto
termination
  by (relation "measure (\<lambda>(n, more). unat n)") (use varint_shrinks in \<open>simp_all only: in_measure prod.case wf_measure\<close>)

declare varint_enc.simps [simp del]

lemma varint_digits_enc: "varint_digits n acc = varint_enc n (acc \<noteq> []) @ acc"
proof (induction n acc rule: varint_digits.induct)
  case (1 n acc)
  show ?case
  proof (cases "n \<le> 0x7F")
    case True
    then show ?thesis by (subst varint_digits.simps, subst varint_enc.simps) (simp add: varint_byte_def)
  next
    case False
    have "varint_digits n acc = varint_digits (drop_bit 7 n - 1) (varint_byte n (acc \<noteq> []) # acc)"
      using False by (subst varint_digits.simps) (simp add: varint_byte_def)
    also have "\<dots> = varint_enc (drop_bit 7 n - 1) True @ varint_byte n (acc \<noteq> []) # acc"
      using 1 [OF refl False] by (cases "acc = []") (simp_all add: varint_byte_def)
    finally show ?thesis using False by (subst varint_enc.simps) simp
  qed
qed

lemma varint_byte_more [simp]: "(varint_byte n more AND 0x80 \<noteq> 0) = more"
proof -
  have "bit (varint_byte n more) 7 = more"
    by (simp add: varint_byte_def bit_or_iff bit_ucast_iff bit_and_iff)
  moreover have "(b AND 0x80 \<noteq> 0) = bit b 7" for b :: "8 word"
    by (simp add: bit_iff_and_push_bit_not_eq_0)
  ultimately show ?thesis by simp
qed

lemma mask7: "(0x7F :: 'a::len word) = mask 7"
  by (simp add: mask_eq_exp_minus_1)

lemma varint_byte_low:
  assumes "8 \<le> LENGTH('a)"
  shows "ucast (varint_byte (n :: 'a::len word) more AND 0x7F) = n AND 0x7F"
  unfolding varint_byte_def mask7
  by (rule bit_word_eqI) (use assms in \<open>auto simp: bit_or_iff bit_ucast_iff bit_and_iff bit_mask_iff bit_numeral_rec numeral_eq_Suc less_Suc_eq\<close>)

lemma varint_join: "push_bit 7 (drop_bit 7 n) OR (n AND 0x7F) = n" for n :: "'a::len word"
  unfolding mask7 by (rule bit_word_eqI) (auto simp: bit_or_iff bit_push_bit_iff bit_drop_bit_eq bit_and_iff bit_mask_iff dest: bit_imp_le_length)

lemma drop_bit_mono_word: "m \<le> n \<Longrightarrow> drop_bit k m \<le> drop_bit k n" for m n :: "'a::len word"
  unfolding word_le_nat_alt unat_drop_bit_eq by (simp add: drop_bit_eq_div div_le_mono)

lemma drop_bit_max: "\<not> drop_bit 7 n > drop_bit 7 (- 1)" for n :: "'a::len word"
  using drop_bit_mono_word [of n "- 1" 7] by (simp add: not_less)

lemma varint_small_shift: "n \<le> 0x7F \<Longrightarrow> drop_bit 7 n = 0" for n :: "'a::len word"
proof -
  assume a: "n \<le> 0x7F"
  have "drop_bit 7 n \<le> drop_bit 7 (mask 7)" using a unfolding mask7 by (rule drop_bit_mono_word)
  also have "\<dots> = 0" by (rule bit_word_eqI) (simp add: bit_drop_bit_eq bit_mask_iff)
  finally show ?thesis by simp
qed

lemma varint_small_join: "n \<le> 0x7F \<Longrightarrow> n AND 0x7F = n" for n :: "'a::len word"
  using varint_join [of n] varint_small_shift [of n] by simp

lemma drop_push_7:
  fixes m :: "'a::len word"
  assumes "8 \<le> LENGTH('a)" "m \<le> drop_bit 7 (- 1)"
  shows "drop_bit 7 (push_bit 7 m) = m"
proof -
  have "unat m \<le> (2 ^ LENGTH('a) - 1) div 128"
    using assms(2) unfolding word_le_nat_alt unat_drop_bit_eq by (simp add: unsigned_minus_1_eq_mask mask_eq_exp_minus_1 drop_bit_eq_div)
  then have "unat m * 128 \<le> 2 ^ LENGTH('a) - 1" by (simp add: less_eq_div_iff_mult_less_eq)
  moreover have "(0::nat) < 2 ^ LENGTH('a)" by simp
  ultimately have "unat m * 128 < 2 ^ LENGTH('a)" by linarith
  then have "unat (drop_bit 7 (push_bit 7 m)) = unat m"
    unfolding unat_drop_bit_eq unsigned_push_bit_eq by (simp add: push_bit_eq_mult take_bit_nat_eq_self drop_bit_eq_div)
  then show ?thesis by (rule unsigned_word_eqI)
qed

lemma varint_shift_nonzero: "\<not> n \<le> 0x7F \<Longrightarrow> drop_bit 7 n \<noteq> 0" for n :: "'a::len word"
proof
  assume a: "\<not> n \<le> 0x7F" and "drop_bit 7 n = 0"
  then have "n = n AND 0x7F" using varint_join [of n] by simp
  also have "\<dots> \<le> 0x7F" by (rule word_and_le1)
  finally show False using a by simp
qed

lemma varint_loop_enc:
  assumes "8 \<le> LENGTH('a)"
  shows "(more \<longrightarrow> n \<noteq> - 1) \<Longrightarrow>
    varint_loop 0 (varint_enc (n :: 'a::len word) more @ s) = (if more then varint_loop (n + 1) s else Some (n, s))"
proof (induction n more arbitrary: s rule: varint_enc.induct)
  case (1 n more)
  have b: "ucast (varint_byte n more AND 0x7F) = n AND 0x7F" by (rule varint_byte_low [OF assms])
  show ?case
  proof (cases "n \<le> 0x7F")
    case True
    then show ?thesis using b "1.prems" varint_small_join [OF True]
      by (subst varint_enc.simps) (auto simp: word_le_nat_alt)
  next
    case False
    let ?m = "drop_bit 7 n - 1"
    have m: "?m \<noteq> - 1" using varint_shift_nonzero [OF False] by simp
    have "varint_loop 0 (varint_enc n more @ s) = varint_loop (drop_bit 7 n) (varint_byte n more # s)"
      using False "1.IH" [OF False, of "varint_byte n more # s"] m by (subst varint_enc.simps) simp
    also have "\<dots> = (if more then varint_loop (n + 1) s else Some (n, s))"
      using drop_bit_max [of n] b "1.prems" varint_join [of n] by auto
    finally show ?thesis .
  qed
qed

lemma varint_unjoin:
  fixes m :: "'a::len word"
  assumes "8 \<le> LENGTH('a)" "m \<le> drop_bit 7 (- 1)"
  shows "drop_bit 7 (push_bit 7 m OR ucast (b AND 0x7F :: 8 word)) = m \<and>
    (push_bit 7 m OR ucast (b AND 0x7F :: 8 word)) AND 0x7F = ucast (b AND 0x7F)"
proof -
  have "drop_bit 7 (ucast (b AND 0x7F :: 8 word) :: 'a word) = 0"
    unfolding mask7 by (rule bit_word_eqI) (simp add: bit_drop_bit_eq bit_ucast_iff bit_and_iff bit_mask_iff)
  then have "drop_bit 7 (push_bit 7 m OR ucast (b AND 0x7F :: 8 word)) = m"
    by (simp add: drop_bit_or drop_push_7 [OF assms])
  moreover have "(push_bit 7 m OR ucast (b AND 0x7F :: 8 word)) AND 0x7F = ucast (b AND 0x7F)"
    unfolding mask7 by (rule bit_word_eqI)
      (auto simp: bit_or_iff bit_and_iff bit_push_bit_iff bit_ucast_iff bit_mask_iff)
  ultimately show ?thesis ..
qed

lemma varint_byte_join: "(b AND 0x7F) OR (if b AND 0x80 \<noteq> 0 then 0x80 else 0) = b" for b :: "8 word"
proof -
  have t: "(b AND 0x80 \<noteq> 0) = bit b 7" by (simp add: bit_iff_and_push_bit_not_eq_0)
  have f: "bit ((b AND mask k) OR (if bit b k then 2 ^ k else 0)) i = bit b i" if "i \<le> k" for i k
    using that by (auto simp: bit_or_iff bit_and_iff bit_mask_iff bit_exp_iff le_less dest: bit_imp_le_length)
  have "(b AND mask 7) OR (if bit b 7 then 2 ^ 7 else 0) = b"
    by (rule bit_word_eqI, rule f) simp
  then show ?thesis unfolding mask7 t by (cases "bit b 7") simp_all
qed

lemma varint_loop_canonical:
  assumes "8 \<le> LENGTH('a)"
  shows "varint_loop m s = Some (n :: 'a::len word, r) \<Longrightarrow> m \<noteq> 0 \<Longrightarrow> varint_enc (m - 1) True @ s = varint_enc n False @ r"
proof (induction m s rule: varint_loop.induct)
  case (2 m b s)
  define k where "k = push_bit 7 m OR ucast (b AND 0x7F)"
  have le: "\<not> m > drop_bit 7 (- 1)" using "2.prems"(1) by (auto split: if_splits)
  have d: "drop_bit 7 k = m" and lo: "k AND 0x7F = ucast (b AND 0x7F)"
    using varint_unjoin [OF assms, of m b] le by (simp_all add: k_def not_less)
  have kb: "varint_byte k (b AND 0x80 \<noteq> 0) = b"
    unfolding varint_byte_def lo using varint_byte_join [of b] assms by (simp add: ucast_up_down)
  have nk: "\<not> k \<le> 0x7F" using d "2.prems"(2) varint_small_shift [of k] by auto
  have enc: "varint_enc k more = varint_enc (m - 1) True @ [varint_byte k more]" for more
    using nk d by (subst varint_enc.simps) simp
  show ?case
  proof (cases "b AND 0x80 \<noteq> 0")
    case True
    then have ne: "k \<noteq> - 1" and l: "varint_loop (k + 1) s = Some (n, r)"
      using "2.prems"(1) le by (auto simp: k_def Let_def split: if_splits)
    have "k + 1 \<noteq> 0" using ne by (metis add_eq_0_iff minus_equation_iff)
    then have "varint_enc k True @ s = varint_enc n False @ r"
      using "2.IH" [OF le k_def True ne l] by simp
    then show ?thesis using enc [of True] kb True by simp
  next
    case False
    then have "n = k" "r = s" using "2.prems"(1) le by (auto simp: k_def Let_def split: if_splits)
    then show ?thesis using enc [of False] kb False by simp
  qed
qed simp

lemma varint_format:
  assumes "8 \<le> LENGTH('a::len)"
  shows "canonical_format (WriteVarInt :: 'a word \<Rightarrow> bytes) ReadVarInt (\<lambda>_. True)"
proof
  fix x :: "'a word" and r
  show "ReadVarInt (WriteVarInt x @ r) = Some (x, r)"
    using varint_loop_enc [OF assms, of False x r] by (simp add: ReadVarInt_def WriteVarInt_def varint_digits_enc)
next
  fix s r and x :: "'a word" assume rd: "ReadVarInt s = Some (x, r)"
  show "True \<and> s = WriteVarInt x @ r"
  proof (cases s)
    case Nil
    then show ?thesis using rd by (simp add: ReadVarInt_def)
  next
    case (Cons b s')
    define k :: "'a word" where "k = ucast (b AND 0x7F)"
    have k2: "k AND 0x7F = k" using varint_unjoin [OF assms, of 0 b] by (simp add: k_def)
    have k: "k \<le> 0x7F" "k AND 0x7F = k" using k2 word_and_le1 [of k "0x7F"] by simp_all
    have enc: "varint_enc k more = [varint_byte k more]" for more using k(1) by (subst varint_enc.simps) simp
    have kb: "varint_byte k (b AND 0x80 \<noteq> 0) = b"
      unfolding varint_byte_def k(2) using varint_byte_join [of b] assms by (simp add: k_def ucast_up_down)
    have l: "(if b AND 0x80 \<noteq> 0 then (if k = - 1 then None else varint_loop (k + 1) s') else Some (k, s')) = Some (x, r)"
      using rd unfolding Cons by (simp add: ReadVarInt_def Let_def flip: k_def)
    have "s = varint_enc x False @ r"
    proof (cases "b AND 0x80 \<noteq> 0")
      case True
      then have "k \<noteq> - 1" "varint_loop (k + 1) s' = Some (x, r)" using l by (auto split: if_splits)
      moreover from this have "k + 1 \<noteq> 0" by (metis add_eq_0_iff minus_equation_iff)
      ultimately have "varint_enc k True @ s' = varint_enc x False @ r"
        using varint_loop_canonical [OF assms, of "k + 1" s' x r] by simp
      then show ?thesis using enc [of True] kb True Cons by simp
    next
      case False
      then show ?thesis using l enc [of False] kb Cons by simp
    qed
    then show ?thesis by (simp add: WriteVarInt_def varint_digits_enc)
  qed
qed

interpretation varint32: canonical_format "WriteVarInt :: 32 word \<Rightarrow> bytes" ReadVarInt "\<lambda>_. True"
  by (rule varint_format) simp

interpretation varint64: canonical_format "WriteVarInt :: 64 word \<Rightarrow> bytes" ReadVarInt "\<lambda>_. True"
  by (rule varint_format) simp

section \<open>Limited vectors\<close>

lemma compact_length: "n \<le> 0x02000000 \<Longrightarrow> unat (of_nat n :: 64 word) = n \<and> (of_nat n :: 64 word) \<le> MAX_SIZE"
  by (simp add: MAX_SIZE_def word_le_nat_alt unsigned_of_nat take_bit_nat_eq_self)

context format
begin

lemma limited_format:
  assumes "limit \<le> 0x02000000"
  shows "format (ser_limited ser) (unser_limited limit unser) (\<lambda>v. length v \<le> limit \<and> (\<forall>x \<in> set v. ok x))"
proof
  fix v r assume v: "length v \<le> limit \<and> (\<forall>x \<in> set v. ok x)"
  then have "unat (of_nat (length v) :: 64 word) = length v \<and> (of_nat (length v) :: 64 word) \<le> MAX_SIZE"
    using compact_length [of "length v"] assms by simp
  then show "unser_limited limit unser (ser_limited ser v @ r) = Some (v, r)"
    using v many_roundtrip [of v r] by (simp add: unser_limited_def ser_limited_def compact.roundtrip)
qed

end

context canonical_format
begin

lemma limited_canonical:
  assumes "limit \<le> 0x02000000"
  shows "canonical_format (ser_limited ser) (unser_limited limit unser) (\<lambda>v. length v \<le> limit \<and> (\<forall>x \<in> set v. ok x))"
proof (intro canonical_format.intro canonical_format_axioms.intro limited_format [OF assms])
  fix s v r assume "unser_limited limit unser s = Some (v, r)"
  then obtain n s' where n: "ReadCompactSize True s = Some (n, s')" "unat n \<le> limit" "unser_many unser (unat n) s' = Some (v, r)"
    by (auto simp: unser_limited_def split: bind_splits if_splits)
  have v: "length v = unat n \<and> (\<forall>x \<in> set v. ok x) \<and> s' = ser_many ser v @ r" by (rule many_canonical [OF n(3)])
  then have "(of_nat (length v) :: 64 word) = n" by simp
  then show "(length v \<le> limit \<and> (\<forall>x \<in> set v. ok x)) \<and> s = ser_limited ser v @ r"
    using v n(2) compact.canonical [OF n(1)] by (simp add: ser_limited_def)
qed

end

lemma limited_bytes_format:
  assumes "limit \<le> 0x02000000"
  shows "canonical_format ser_limited_bytes (unser_limited_bytes limit) (\<lambda>v. length v \<le> limit)"
proof
  fix v :: bytes and r assume v: "length v \<le> limit"
  then have "unat (of_nat (length v) :: 64 word) = length v \<and> (of_nat (length v) :: 64 word) \<le> MAX_SIZE"
    using compact_length [of "length v"] assms by simp
  then show "unser_limited_bytes limit (ser_limited_bytes v @ r) = Some (v, r)"
    using v by (simp add: unser_limited_bytes_def ser_limited_bytes_def compact.roundtrip read_span_append)
next
  fix s v r assume "unser_limited_bytes limit s = Some (v, r)"
  then obtain n s' where n: "ReadCompactSize True s = Some (n, s')" "unat n \<le> limit" "read_span (unat n) s' = Some (v, r)"
    by (auto simp: unser_limited_bytes_def split: bind_splits if_splits)
  then have "(of_nat (length v) :: 64 word) = n" by (simp add: read_span_iff)
  then show "length v \<le> limit \<and> s = ser_limited_bytes v @ r"
    using n(2,3) compact.canonical [OF n(1)] by (simp add: ser_limited_bytes_def read_span_iff)
qed

section \<open>Bit sets\<close>

definition bit_step :: "bool list \<Rightarrow> nat \<Rightarrow> bytes \<Rightarrow> bytes" where
  "bit_step vec p vBytes = vBytes[p div 8 := vBytes ! (p div 8) OR push_bit (p mod 8) (of_bool (vec ! p))]"

lemma fold_bit_step:
  assumes "m \<le> 8 * n"
  shows "length (fold (bit_step vec) [0..<m] (replicate n 0)) = n \<and>
    (\<forall>j < n. \<forall>i < 8. bit (fold (bit_step vec) [0..<m] (replicate n 0) ! j) i = (8 * j + i < m \<and> vec ! (8 * j + i)))"
  using assms
proof (induction m)
  case (Suc m)
  let ?f = "fold (bit_step vec) [0..<m] (replicate n 0)"
  have IH: "length ?f = n" "\<And>i j. j < n \<Longrightarrow> i < 8 \<Longrightarrow> bit (?f ! j) i = (8 * j + i < m \<and> vec ! (8 * j + i))"
    using Suc by auto
  have k: "m div 8 < n" using Suc.prems by simp
  have step: "bit (bit_step vec m ?f ! j) i = (8 * j + i < Suc m \<and> vec ! (8 * j + i))" if ji: "j < n" "i < 8" for i j
  proof (cases "j = m div 8")
    case True
    have m: "m = 8 * j + m mod 8" unfolding True by simp
    have b: "bit (push_bit (m mod 8) (of_bool (vec ! m)) :: 8 word) i = (i = m mod 8 \<and> vec ! m)"
      using ji(2) by (auto simp: bit_push_bit_iff bit_of_bool_iff)
    have "bit (bit_step vec m ?f ! j) i = (bit (?f ! j) i \<or> (i = m mod 8 \<and> vec ! m))"
      using True k IH(1) b by (simp add: bit_step_def bit_or_iff)
    then show ?thesis using IH(2) [OF ji] m by (auto simp: less_Suc_eq)
  next
    case False
    then have "8 * j + i \<noteq> m" using ji(2) by auto
    then show ?thesis using False IH(2) [OF ji] by (auto simp: bit_step_def less_Suc_eq)
  qed
  have f: "fold (bit_step vec) [0..<Suc m] (replicate n 0) = bit_step vec m ?f" by simp
  show ?case unfolding f using step IH(1) by (simp add: bit_step_def)
qed (simp add: nth_replicate)

lemma WriteFixedBitSet_bits:
  assumes "length vec = sz"
  shows "length (WriteFixedBitSet vec sz) = (sz + 7) div 8"
    and "j < (sz + 7) div 8 \<Longrightarrow> i < 8 \<Longrightarrow>
      bit (WriteFixedBitSet vec sz ! j) i = (8 * j + i < sz \<and> vec ! (8 * j + i))"
proof -
  have w: "WriteFixedBitSet vec sz = fold (bit_step vec) [0..<sz] (replicate ((sz + 7) div 8) 0)"
    using assms by (simp add: WriteFixedBitSet_def bit_step_def [abs_def])
  have "sz \<le> 8 * ((sz + 7) div 8)" by linarith
  note f = fold_bit_step [OF this, of vec]
  show "length (WriteFixedBitSet vec sz) = (sz + 7) div 8" unfolding w using f by blast
  show "j < (sz + 7) div 8 \<Longrightarrow> i < 8 \<Longrightarrow> bit (WriteFixedBitSet vec sz ! j) i = (8 * j + i < sz \<and> vec ! (8 * j + i))"
    unfolding w using f by blast
qed

lemma test_bit_8: "(w AND push_bit k 1 \<noteq> 0) = bit w k" for w :: "8 word"
  by (simp add: bit_iff_and_push_bit_not_eq_0)

lemma spare_bits:
  assumes "rem \<le> 8"
  shows "((w :: 8 word) AND NOT (drop_bit rem 0xFF) = 0) = (\<forall>i < 8. 8 \<le> i + rem \<longrightarrow> \<not> bit w i)"
proof -
  have ff: "(0xFF :: 8 word) = - 1" by simp
  have "(w AND NOT (drop_bit rem 0xFF) = 0) = (\<forall>i < 8. \<not> (bit w i \<and> \<not> i + rem < 8))"
    unfolding ff bit_eq_iff by (auto simp: bit_and_iff bit_not_iff bit_drop_bit_eq bit_mask_iff dest: bit_imp_le_length)
  then show ?thesis by auto
qed

lemma fixed_bitset_format:
  "canonical_format (\<lambda>v. WriteFixedBitSet v sz) (ReadFixedBitSet sz) (\<lambda>v. length v = sz)"
proof
  fix v :: "bool list" and r assume l: "length v = sz"
  let ?n = "(sz + 7) div 8" and ?w = "WriteFixedBitSet v sz"
  note len = WriteFixedBitSet_bits(1) [OF l] and bits = WriteFixedBitSet_bits(2) [OF l]
  have "map (\<lambda>p. ?w ! (p div 8) AND push_bit (p mod 8) 1 \<noteq> 0) [0..<sz] = v"
  proof (rule nth_equalityI)
    fix p assume "p < length (map (\<lambda>p. ?w ! (p div 8) AND push_bit (p mod 8) 1 \<noteq> 0) [0..<sz])"
    then have p: "p < sz" by simp
    then show "map (\<lambda>p. ?w ! (p div 8) AND push_bit (p mod 8) 1 \<noteq> 0) [0..<sz] ! p = v ! p"
      using bits [of "p div 8" "p mod 8"] by (simp add: test_bit_8 [simplified])
  qed (simp add: l)
  moreover have "?w ! (?n - 1) AND NOT (drop_bit (?n * 8 - sz) 0xFF) = 0" if "?n * 8 \<noteq> sz"
  proof -
    have "?n * 8 - sz \<le> 8" "0 < ?n" "8 * (?n - 1) + 8 = ?n * 8" using that by linarith+
    then show ?thesis using bits [of "?n - 1"] by (subst spare_bits) auto
  qed
  ultimately show "ReadFixedBitSet sz (?w @ r) = Some (v, r)"
    using len by (auto simp: ReadFixedBitSet_def read_span_append Let_def)
next
  fix s r and v :: "bool list" assume rd: "ReadFixedBitSet sz s = Some (v, r)"
  let ?n = "(sz + 7) div 8"
  obtain b where b: "length b = ?n" "s = b @ r" "v = map (\<lambda>p. b ! (p div 8) AND push_bit (p mod 8) 1 \<noteq> 0) [0..<sz]"
    and spare: "?n * 8 \<noteq> sz \<longrightarrow> b ! (?n - 1) AND NOT (drop_bit (?n * 8 - sz) 0xFF) = 0"
    using rd by (auto simp: ReadFixedBitSet_def read_span_iff Let_def split: bind_splits if_splits)
  have l: "length v = sz" using b(3) by simp
  have "WriteFixedBitSet v sz = b"
  proof (rule nth_equalityI)
    show "length (WriteFixedBitSet v sz) = length b" using WriteFixedBitSet_bits(1) [OF l] b(1) by simp
    fix j assume "j < length (WriteFixedBitSet v sz)"
    then have j: "j < ?n" using WriteFixedBitSet_bits(1) [OF l] by simp
    show "WriteFixedBitSet v sz ! j = b ! j"
    proof (rule bit_word_eqI)
      fix i assume "i < LENGTH(8)"
      then have i: "i < 8" by simp
      have "bit (b ! j) i = (8 * j + i < sz \<and> v ! (8 * j + i))"
      proof (cases "8 * j + i < sz")
        case True
        then show ?thesis using b(3) i by (simp add: test_bit_8 [simplified])
      next
        case False
        then have "?n * 8 \<noteq> sz" "j = ?n - 1" "8 \<le> i + (?n * 8 - sz)" "?n * 8 - sz \<le> 8" using i j by linarith+
        then have "\<not> bit (b ! j) i" using spare i spare_bits [of "?n * 8 - sz" "b ! j"] by simp
        then show ?thesis using False by simp
      qed
      then show "bit (WriteFixedBitSet v sz ! j) i = bit (b ! j) i" using WriteFixedBitSet_bits(2) [OF l j i] by simp
    qed
  qed
  then show "length v = sz \<and> s = WriteFixedBitSet v sz @ r" using l b(2) by simp
qed

lemma read_varints_bits:
  assumes "i + length bs = sz" "sz < 2 ^ 32" "length pre = i" "\<And>l. prev = Some l \<Longrightarrow> l < i"
  shows "read_varints sz (pre @ replicate (length bs) False) prev (varints_bits prev i bs @ r) = Some (pre @ bs, r)"
  using assms
proof (induction bs arbitrary: i pre prev)
  case Nil
  then show ?case by (subst read_varints.simps) (simp add: varint32.roundtrip)
next
  case (Cons b bs)
  show ?case
  proof (cases b)
    case False
    then show ?thesis using Cons.IH [of "Suc i" "pre @ [False]" prev] Cons.prems by (simp add: less_Suc_eq)
  next
    case True
    define off where "off = (case prev of Some l \<Rightarrow> i - l | None \<Rightarrow> i + 1)"
    have off: "0 < off" "off < 2 ^ 32" "(case prev of Some l \<Rightarrow> l + off | None \<Rightarrow> off - 1) = i"
      using Cons.prems by (auto simp: off_def split: option.splits)
    then have u: "unat (of_nat off :: 32 word) = off" "(of_nat off :: 32 word) \<noteq> 0"
      by (simp_all add: unsigned_of_nat take_bit_nat_eq_self word_unat_eq_iff)
    have "read_varints sz (pre @ replicate (length (b # bs)) False) prev (varints_bits prev i (b # bs) @ r) =
        read_varints sz ((pre @ [True]) @ replicate (length bs) False) (Some i) (varints_bits (Some i) (Suc i) bs @ r)"
      using True off u Cons.prems
      by (subst read_varints.simps)
        (auto simp: varint32.roundtrip off_def [symmetric] Let_def list_update_append split: option.splits)
    also have "\<dots> = Some (pre @ b # bs, r)"
      using Cons.IH [of "Suc i" "pre @ [True]" "Some i"] Cons.prems True by simp
    finally show ?thesis .
  qed
qed

lemma varints_bitset_roundtrip:
  "length vec = sz \<Longrightarrow> sz < 2 ^ 32 \<Longrightarrow> ReadFixedVarIntsBitSet sz (WriteFixedVarIntsBitSet vec @ r) = Some (vec, r)"
  using read_varints_bits [of 0 vec sz "[]" None r] by (simp add: ReadFixedVarIntsBitSet_def WriteFixedVarIntsBitSet_def)

text \<open>The digit buffer \<^verbatim>\<open>tmp[(sizeof(n)*8+6)/7]\<close> is never overrun.\<close>

lemma length_varint_enc: "unat n < 128 ^ Suc k \<Longrightarrow> length (varint_enc n more) \<le> Suc k"
  for n :: "'a::len word"
proof (induction k arbitrary: n more)
  case (0 n more)
  show ?case
  proof (cases "n \<le> 0x7F")
    case False
    have "unat (drop_bit 7 n) = 0" unfolding unat_drop_bit_eq using "0" by (simp add: drop_bit_eq_div)
    then show ?thesis using varint_shift_nonzero [OF False] by (simp add: unsigned_eq_0_iff)
  qed (subst varint_enc.simps, simp)
next
  case (Suc k n more)
  show ?case
  proof (cases "n \<le> 0x7F")
    case False
    have nz: "0 < unat (drop_bit 7 n)" using varint_shift_nonzero [OF False] by (simp add: unat_gt_0)
    have "unat (drop_bit 7 n) < 128 ^ Suc k"
      unfolding unat_drop_bit_eq using Suc.prems by (simp add: drop_bit_eq_div less_mult_imp_div_less)
    moreover have "unat (drop_bit 7 n - 1) \<le> unat (drop_bit 7 n)" using measure_unat [OF varint_shift_nonzero [OF False]] by simp
    ultimately have "length (varint_enc (drop_bit 7 n - 1) True) \<le> Suc k" by (intro Suc.IH) linarith
    then show ?thesis using False by (subst varint_enc.simps) simp
  qed (subst varint_enc.simps, simp)
qed

lemma length_WriteVarInt: "length (WriteVarInt (n :: 'a::len word)) \<le> (LENGTH('a) + 6) div 7"
proof -
  define k where "k = (LENGTH('a) + 6) div 7 - 1"
  have k: "Suc k = (LENGTH('a) + 6) div 7" using len_gt_0 [where 'a = 'a] unfolding k_def by linarith
  have "LENGTH('a) \<le> 7 * ((LENGTH('a) + 6) div 7)" by linarith
  then have "LENGTH('a) \<le> 7 * Suc k" using k by simp
  then have "(2::nat) ^ LENGTH('a) \<le> 2 ^ (7 * Suc k)" by (rule power_increasing) simp
  moreover have "(2::nat) ^ (7 * Suc k) = 128 ^ Suc k" by (simp add: power_mult del: power_Suc mult_Suc_right)
  ultimately have "unat n < 128 ^ Suc k" using unat_bound [of n] by linarith
  then show ?thesis using length_varint_enc [of n k False] k by (simp add: WriteVarInt_def varint_digits_enc)
qed

section \<open>Properties\<close>

text \<open>
  C27: Every number has exactly one encoding, as a compact size and as a variable-length
  integer: the readers accept a stream exactly when it starts with what the writer
  produces for the number they return, and leave the rest.  The range-checked reader
  refuses exactly the sizes above 32 MiB, and a variable-length integer never needs more
  digits than the writer's buffer holds.
\<close>

theorem integer_encodings_one_to_one:
  "(ReadCompactSize False s = Some (n, r) \<longleftrightarrow> s = WriteCompactSize n @ r) \<and>
   (ReadCompactSize True s = Some (n, r) \<longleftrightarrow> n \<le> MAX_SIZE \<and> s = WriteCompactSize n @ r) \<and>
   (ReadVarInt s = Some (n, r) \<longleftrightarrow> s = WriteVarInt n @ r) \<and>
   length (WriteVarInt n) \<le> 10 \<and> length (WriteCompactSize n) = GetSizeOfCompactSize n"
  using length_WriteVarInt [of n] length_WriteCompactSize [of n]
  by (simp add: compact_any.unser_iff compact.unser_iff varint64.unser_iff)

text \<open>
  A bit set written in the shorter of its two forms is read back, with the rest of the
  stream untouched, and never takes more than one byte over the packed form.
\<close>

theorem auto_bitset_roundtrip:
  assumes "length vec < 2 ^ 32"
  shows "\<exists>b. WriteAutoBitSet (vec, length vec) = Some b \<and> length b \<le> 1 + (length vec + 7) div 8 \<and>
    ReadAutoBitSet (length vec) (b @ r) = Some (vec, r)"
proof -
  let ?n = "length vec"
  note f = canonical_format.axioms(1) [OF fixed_bitset_format [of ?n]]
  have fx: "ReadFixedBitSet ?n (WriteFixedBitSet vec ?n @ r) = Some (vec, r)" by (rule format.roundtrip [OF f]) simp
  have l: "length (WriteFixedBitSet vec ?n) = (?n + 7) div 8" by (rule WriteFixedBitSet_bits(1)) simp
  note v = varints_bitset_roundtrip [OF refl assms, of r]
  show ?thesis
  proof (cases "length (WriteFixedBitSet vec ?n) < length (WriteFixedVarIntsBitSet vec)")
    case True
    then show ?thesis using fx l
      by (simp add: WriteAutoBitSet_def ReadAutoBitSet_def u8.roundtrip Let_def) (simp add: ser_writedata8_def)
  next
    case False
    then show ?thesis using v l
      by (simp add: WriteAutoBitSet_def ReadAutoBitSet_def u8.roundtrip Let_def) (simp add: ser_writedata8_def)
  qed
qed

theorem auto_bitset_roundtrip_witness:
  "\<exists>b. WriteAutoBitSet ([True, False, True], 3) = Some b \<and> length b \<le> 2 \<and> ReadAutoBitSet 3 (b @ [7]) = Some ([True, False, True], [7])"
proof -
  have l: "length [True, False, True] = 3" by simp
  show ?thesis using auto_bitset_roundtrip [of "[True, False, True]" "[7]"] unfolding l by (simp add: numeral_2_eq_2 [symmetric])
qed

end
