(* ===== verification/Ordered_Map.thy ===== *)
theory Ordered_Map
  imports Prelude
begin

text \<open>
  \<^verbatim>\<open>std::map\<close> as a strictly key-sorted association list, with the operations the
  node uses: \<^verbatim>\<open>find\<close>, \<^verbatim>\<open>operator[]\<close> on both sides of an assignment, \<^verbatim>\<open>erase\<close> and
  in-order iteration.  The locale \<open>ordered_map\<close> is the contract its clients rely on;
  it is interpreted on the list implementation below.
\<close>

type_synonym ('k, 'v) omap = "('k \<times> 'v) list"

definition om_wf :: "('k::linorder, 'v) omap \<Rightarrow> bool" where
  "om_wf m = sorted_wrt (<) (map fst m)"

definition om_find :: "('k, 'v) omap \<Rightarrow> 'k \<Rightarrow> 'v option" where
  "om_find m k = map_of m k"

fun om_set :: "'k::linorder \<Rightarrow> 'v \<Rightarrow> ('k, 'v) omap \<Rightarrow> ('k, 'v) omap" where
  "om_set k v [] = [(k, v)]"
| "om_set k v ((k', v') # m) =
     (if k < k' then (k, v) # (k', v') # m
      else if k = k' then (k, v) # m
      else (k', v') # om_set k v m)"

definition om_erase :: "'k \<Rightarrow> ('k, 'v) omap \<Rightarrow> ('k, 'v) omap" where
  "om_erase k m = filter (\<lambda>e. fst e \<noteq> k) m"

definition om_erase_if :: "('k \<Rightarrow> bool) \<Rightarrow> ('k, 'v) omap \<Rightarrow> ('k, 'v) omap" where
  "om_erase_if P m = filter (\<lambda>e. \<not> P (fst e)) m"

text \<open>\<^verbatim>\<open>auto& r = m[k]; r = f(r)\<close>: a missing entry starts from the default value.\<close>

definition om_upd :: "'v \<Rightarrow> 'k::linorder \<Rightarrow> ('v \<Rightarrow> 'v) \<Rightarrow> ('k, 'v) omap \<Rightarrow> ('k, 'v) omap" where
  "om_upd d k f m = om_set k (f (case om_find m k of None \<Rightarrow> d | Some v \<Rightarrow> v)) m"

lemma om_find_empty [simp]: "om_find [] k = None"
  by (simp add: om_find_def)

lemma om_find_Some_in: "om_find m k = Some v \<Longrightarrow> (k, v) \<in> set m"
  by (simp add: om_find_def map_of_SomeD)

lemma om_find_None_iff: "om_find m k = None \<longleftrightarrow> k \<notin> fst ` set m"
  by (simp add: om_find_def map_of_eq_None_iff)

lemma om_wf_distinct: "om_wf m \<Longrightarrow> distinct (map fst m)"
  using strict_sorted_iff by (auto simp: om_wf_def)

lemma om_find_iff: "om_wf m \<Longrightarrow> om_find m k = Some v \<longleftrightarrow> (k, v) \<in> set m"
  by (simp add: om_find_def om_wf_distinct)

lemma om_wf_Nil [simp]: "om_wf []"
  by (simp add: om_wf_def)

lemma om_wf_Cons: "om_wf ((k, v) # m) \<longleftrightarrow> (\<forall>k' \<in> fst ` set m. k < k') \<and> om_wf m"
  by (auto simp: om_wf_def)

lemma keys_om_set: "fst ` set (om_set k v m) = insert k (fst ` set m)"
  by (induction k v m rule: om_set.induct) auto

lemma om_wf_set [simp, inv_intros]: "om_wf m \<Longrightarrow> om_wf (om_set k v m)"
proof (induction k v m rule: om_set.induct)
  case (2 k v k' v' m)
  then show ?case
    by (auto simp: om_wf_Cons keys_om_set)
qed (simp add: om_wf_Cons)

lemma om_find_set: "om_find (om_set k v m) = (om_find m)(k \<mapsto> v)"
  if "om_wf m"
  using that
proof (induction k v m rule: om_set.induct)
  case (2 k v k' v' m)
  then show ?case
    by (auto simp: om_find_def om_wf_Cons fun_eq_iff)
qed (simp add: om_find_def fun_eq_iff)

lemma om_find_erase: "om_find (om_erase k m) = (om_find m)(k := None)"
  by (induction m) (auto simp: om_find_def om_erase_def fun_eq_iff)

lemma om_find_erase_if: "om_find (om_erase_if P m) k = (if P k then None else om_find m k)"
  by (induction m) (auto simp: om_find_def om_erase_if_def)

lemma sorted_wrt_map_filter: "sorted_wrt R (map f m) \<Longrightarrow> sorted_wrt R (map f (filter P m))"
  by (simp add: sorted_wrt_map sorted_wrt_filter)

lemma om_wf_erase [simp, inv_intros]: "om_wf m \<Longrightarrow> om_wf (om_erase k m)"
  by (simp add: om_wf_def om_erase_def sorted_wrt_map_filter)

lemma om_wf_erase_if [simp, inv_intros]: "om_wf m \<Longrightarrow> om_wf (om_erase_if P m)"
  by (simp add: om_wf_def om_erase_if_def sorted_wrt_map_filter)

lemma om_wf_upd [simp, inv_intros]: "om_wf m \<Longrightarrow> om_wf (om_upd d k f m)"
  by (simp add: om_upd_def)

lemma om_find_upd:
  "om_wf m \<Longrightarrow>
   om_find (om_upd d k f m) = (om_find m)(k \<mapsto> f (case om_find m k of None \<Rightarrow> d | Some v \<Rightarrow> v))"
  by (simp add: om_upd_def om_find_set)

lemma length_om_set:
  "om_wf m \<Longrightarrow> length (om_set k v m) = (if om_find m k = None then Suc (length m) else length m)"
proof (induction k v m rule: om_set.induct)
  case (2 k v k' v' m)
  then show ?case
    by (auto simp: om_find_def om_wf_Cons map_of_eq_None_iff)
qed simp

lemma om_ext: "om_wf m \<Longrightarrow> om_wf m' \<Longrightarrow> om_find m = om_find m' \<Longrightarrow> m = m'"
proof -
  assume wf: "om_wf m" "om_wf m'" and eq: "om_find m = om_find m'"
  have s: "set m = set m'"
    using wf eq om_find_iff by (metis subsetI subset_antisym surj_pair)
  have "sorted_wrt (\<lambda>a b. fst a < fst b) m" "sorted_wrt (\<lambda>a b. fst a < fst b) m'"
    using wf by (auto simp: om_wf_def sorted_wrt_map)
  then show "m = m'"
    using s
  proof (induction m arbitrary: m')
    case (Cons x m)
    then obtain y n where m': "m' = y # n" by (cases m') auto
    have "x = y" using Cons.prems unfolding m'
      by (metis insert_iff list.simps(15) order_less_asym sorted_wrt.simps(2))
    then show ?case
      using Cons m' by (metis Diff_insert_absorb insert_absorb list.simps(15) order_less_irrefl sorted_wrt.simps(2))
  qed simp
qed

text \<open>Iterators before and from \<^verbatim>\<open>lower_bound(c)\<close>.\<close>

lemma om_takeWhile_less: "om_wf m \<Longrightarrow> takeWhile (\<lambda>e. fst e < c) m = om_erase_if (\<lambda>k. \<not> k < c) m"
proof (induction m)
  case (Cons e m)
  obtain k v where e: "e = (k, v)" by force
  have "\<not> k < c \<Longrightarrow> om_erase_if (\<lambda>k. \<not> k < c) m = []"
    using Cons.prems unfolding e om_wf_Cons by (fastforce simp: om_erase_if_def filter_empty_conv)
  then show ?case using Cons unfolding e om_wf_Cons by (auto simp: om_erase_if_def)
qed (simp add: om_erase_if_def)

lemma om_dropWhile_less: "om_wf m \<Longrightarrow> dropWhile (\<lambda>e. fst e < c) m = om_erase_if (\<lambda>k. k < c) m"
proof (induction m)
  case (Cons e m)
  obtain k v where e: "e = (k, v)" by force
  have "\<not> k < c \<Longrightarrow> om_erase_if (\<lambda>k. k < c) m = m"
    using Cons.prems unfolding e om_wf_Cons by (fastforce simp: om_erase_if_def filter_id_conv)
  then show ?case using Cons unfolding e om_wf_Cons by (auto simp: om_erase_if_def)
qed (simp add: om_erase_if_def)

lemma om_list_all:
  "om_wf m \<Longrightarrow> list_all (\<lambda>(k, v). P k v) m \<longleftrightarrow> (\<forall>k v. om_find m k = Some v \<longrightarrow> P k v)"
  by (auto simp: om_find_iff list_all_iff)

lemma set_om_set: "set (om_set k v m) \<subseteq> insert (k, v) (set m)"
  by (induction k v m rule: om_set.induct) auto

lemma om_find_filter:
  "om_wf m \<Longrightarrow> om_find (filter (\<lambda>e. P (snd e)) m) k =
     (case om_find m k of Some v \<Rightarrow> if P v then Some v else None | None \<Rightarrow> None)"
proof -
  assume wf: "om_wf m"
  then have "om_wf (filter (\<lambda>e. P (snd e)) m)" by (simp add: om_wf_def sorted_wrt_map_filter)
  then have "om_find (filter (\<lambda>e. P (snd e)) m) k = Some v \<longleftrightarrow> om_find m k = Some v \<and> P v" for v
    using wf by (auto simp: om_find_iff)
  then show ?thesis by (intro option_ext) (auto split: option.split)
qed

section \<open>The contract of a keyed store\<close>

locale ordered_map =
  fixes empty :: 'm
    and find :: "'m \<Rightarrow> 'k \<Rightarrow> 'v option"
    and upsert :: "'k \<Rightarrow> 'v \<Rightarrow> 'm \<Rightarrow> 'm"
    and erase :: "'k \<Rightarrow> 'm \<Rightarrow> 'm"
    and wf :: "'m \<Rightarrow> bool"
  assumes find_empty: "find empty k = None"
    and wf_empty: "wf empty"
    and find_upsert: "wf m \<Longrightarrow> find (upsert k v m) = (find m)(k \<mapsto> v)"
    and wf_upsert: "wf m \<Longrightarrow> wf (upsert k v m)"
    and find_erase: "wf m \<Longrightarrow> find (erase k m) = (find m)(k := None)"
    and wf_erase: "wf m \<Longrightarrow> wf (erase k m)"
begin

definition update :: "'v \<Rightarrow> 'k \<Rightarrow> ('v \<Rightarrow> 'v) \<Rightarrow> 'm \<Rightarrow> 'm" where
  "update d k f m = upsert k (f (case find m k of None \<Rightarrow> d | Some v \<Rightarrow> v)) m"

lemma wf_update: "wf m \<Longrightarrow> wf (update d k f m)"
  by (simp add: update_def wf_upsert)

lemma find_update:
  "wf m \<Longrightarrow> find (update d k f m) = (find m)(k \<mapsto> f (case find m k of None \<Rightarrow> d | Some v \<Rightarrow> v))"
  by (simp add: update_def find_upsert)

lemma wf_fold_update: "wf m \<Longrightarrow> wf (fold (\<lambda>(k, f). update d k f) evs m)"
  by (induction evs arbitrary: m) (auto simp: wf_update)

lemma find_fold_update_other:
  "wf m \<Longrightarrow> k \<notin> fst ` set evs \<Longrightarrow> find (fold (\<lambda>(k, f). update d k f) evs m) k = find m k"
  by (induction evs arbitrary: m) (auto simp: wf_update find_update)

text \<open>An entry holds exactly the updates addressed to its key, in order.\<close>

lemma find_fold_update:
  "wf m \<Longrightarrow> k \<in> fst ` set evs \<Longrightarrow>
   find (fold (\<lambda>(k, f). update d k f) evs m) k =
     Some (fold (\<lambda>e. snd e) (filter (\<lambda>e. fst e = k) evs) (case find m k of None \<Rightarrow> d | Some v \<Rightarrow> v))"
proof (induction evs arbitrary: m)
  case (Cons e evs)
  obtain k' f where e: "e = (k', f)" by force
  have wf': "wf (update d k' f m)" using Cons.prems by (simp add: wf_update)
  show ?case
  proof (cases "k \<in> fst ` set evs")
    case True
    then show ?thesis using Cons.IH [OF wf'] Cons.prems(1)
      by (simp add: e find_update)
  next
    case False
    then have "filter (\<lambda>e. fst e = k) evs = []" by (auto simp: filter_empty_conv)
    moreover have "k' = k" using False Cons.prems(2) e by auto
    ultimately show ?thesis using find_fold_update_other [OF wf' False, of d] Cons.prems(1)
      by (simp add: e find_update)
  qed
qed simp

lemma find_fold_erase:
  "wf m \<Longrightarrow> find (fold erase ks m) k = (if k \<in> set ks then None else find m k)"
  by (induction ks arbitrary: m) (auto simp: find_erase wf_erase)

lemma wf_fold_erase: "wf m \<Longrightarrow> wf (fold erase ks m)"
  by (induction ks arbitrary: m) (auto simp: wf_erase)

end

lemma om_wf_filter: "om_wf m \<Longrightarrow> om_wf (filter P m)"
  by (simp add: om_wf_def sorted_wrt_map_filter)

interpretation om: ordered_map "[]" om_find om_set om_erase om_wf
  by unfold_locales (simp_all add: om_find_set om_find_erase)

lemma om_update_eq: "om.update = om_upd"
  by (simp add: fun_eq_iff om.update_def om_upd_def)

end
