(* ===== verification/Hmp_Privilege.thy ===== *)
theory Hmp_Privilege
  imports Ordered_Map Consensus_Params
begin

text \<open>
  \<^verbatim>\<open>CHMPPrivilegeTracker\<close> (\<^verbatim>\<open>hmp/privilege.h\<close>, \<^verbatim>\<open>hmp/privilege.cpp\<close>): the sliding windows
  over recent blocks, the per-algorithm privilege records derived from them, and
  the tier, Elder-set and arming queries.  The BroodNode lookup interface is an
  argument of the queries that use it; a null pointer is \<^term>\<open>None\<close>.  Logging is left
  out, the last-tier cache that drives it is kept.
\<close>

section \<open>Data\<close>

datatype HMPPrivilegeTier = UNKNOWN | NEW | ELDER | BROOD

fun tier_rank :: "HMPPrivilegeTier \<Rightarrow> nat" where
  "tier_rank UNKNOWN = 0"
| "tier_rank NEW = 1"
| "tier_rank ELDER = 2"
| "tier_rank BROOD = 3"

instantiation HMPPrivilegeTier :: linorder
begin

definition less_eq_HMPPrivilegeTier :: "HMPPrivilegeTier \<Rightarrow> HMPPrivilegeTier \<Rightarrow> bool" where
  "less_eq_HMPPrivilegeTier a b = (tier_rank a \<le> tier_rank b)"

definition less_HMPPrivilegeTier :: "HMPPrivilegeTier \<Rightarrow> HMPPrivilegeTier \<Rightarrow> bool" where
  "less_HMPPrivilegeTier a b = (tier_rank a < tier_rank b)"

instance
proof
  fix a b :: HMPPrivilegeTier
  show "a \<le> b \<Longrightarrow> b \<le> a \<Longrightarrow> a = b"
    by (cases a; cases b) (simp_all add: less_eq_HMPPrivilegeTier_def)
qed (auto simp: less_eq_HMPPrivilegeTier_def less_HMPPrivilegeTier_def)

end

record CPrivilegeRecord =
  blocks_solved :: int
  seal_participations :: int
  first_seen_height :: int
  last_active_height :: int

definition empty_record :: CPrivilegeRecord where
  "empty_record = \<lparr>blocks_solved = 0, seal_participations = 0, first_seen_height = - 1, last_active_height = - 1\<rparr>"

record 'k CHMPWindowEntry =
  we_height :: int
  we_algo :: int
  we_minerPubKey :: "'k CBLSPublicKey"
  we_sealSigners :: "'k CBLSPublicKey list"
  we_signerAlgos :: "8 word list"
  we_sealedAlgo :: int

record CHMPSealLongEntry =
  sl_height :: int
  sl_algo :: int
  sl_sealedAlgo :: int

record 'k CHMPExtendedEntry =
  ex_height :: int
  ex_algo :: int
  ex_minerPubKey :: "'k CBLSPublicKey"

type_synonym 'k records = "('k CBLSPublicKey, CPrivilegeRecord) omap list"

record 'k CHMPPrivilegeTracker =
  m_windowSize :: int
  m_warmupBlocks :: int
  m_minBlocksSolved :: int
  m_dominanceCatchFloor :: int
  m_extendedWindowSize :: int
  m_consensus :: "Params option"
  m_window :: "'k CHMPWindowEntry list"
  m_sealLong :: "CHMPSealLongEntry list"
  m_extendedWindow :: "'k CHMPExtendedEntry list"
  m_records :: "'k records"
  m_lastTier :: "('k CBLSPublicKey, HMPPrivilegeTier) omap list"

definition SEAL_LONG_WINDOW :: int where
  "SEAL_LONG_WINDOW = 400"

definition empty_records :: "('k, 'v) omap list" where
  "empty_records = replicate (nat NUM_ALGOS) []"

definition default_tracker :: "'k CHMPPrivilegeTracker" where
  "default_tracker = \<lparr>m_windowSize = 100, m_warmupBlocks = 10, m_minBlocksSolved = 1, m_dominanceCatchFloor = 6,
     m_extendedWindowSize = 1000, m_consensus = None, m_window = [], m_sealLong = [], m_extendedWindow = [],
     m_records = empty_records, m_lastTier = empty_records\<rparr>"

definition new_tracker :: "Params \<Rightarrow> 'k CHMPPrivilegeTracker" where
  "new_tracker p = \<lparr>m_windowSize = nHMPPrivilegeWindow p, m_warmupBlocks = nHMPWarmupBlocks p,
     m_minBlocksSolved = nHMPMinBlocksSolved p, m_dominanceCatchFloor = nHMPDominanceCatchFloor p,
     m_extendedWindowSize = nHMPDominanceCatchMaxLookback p, m_consensus = Some p,
     m_window = [], m_sealLong = [], m_extendedWindow = [],
     m_records = empty_records, m_lastTier = empty_records\<rparr>"

section \<open>Record updates\<close>

definition upd_record :: "int \<Rightarrow> 'k::linorder CBLSPublicKey \<Rightarrow> (CPrivilegeRecord \<Rightarrow> CPrivilegeRecord) \<Rightarrow> 'k records \<Rightarrow> 'k records" where
  "upd_record algo pk f recs = recs[nat algo := om_upd empty_record pk f (recs ! nat algo)]"

text \<open>The miner credit as \<^verbatim>\<open>RebuildFromWindow\<close> and as the incremental path write it.\<close>

definition miner_rebuild :: "int \<Rightarrow> CPrivilegeRecord \<Rightarrow> CPrivilegeRecord" where
  "miner_rebuild height rec =
     rec\<lparr>blocks_solved := blocks_solved rec + 1, last_active_height := height,
         first_seen_height :=
           (if first_seen_height rec < 0 \<or> height < first_seen_height rec then height else first_seen_height rec)\<rparr>"

definition miner_incremental :: "int \<Rightarrow> CPrivilegeRecord \<Rightarrow> CPrivilegeRecord" where
  "miner_incremental height rec =
     rec\<lparr>blocks_solved := blocks_solved rec + 1, last_active_height := height,
         first_seen_height := (if first_seen_height rec < 0 then height else first_seen_height rec)\<rparr>"

definition seal_credit :: "int \<Rightarrow> CPrivilegeRecord \<Rightarrow> CPrivilegeRecord" where
  "seal_credit height rec =
     rec\<lparr>seal_participations := seal_participations rec + 1,
         last_active_height := max (last_active_height rec) height,
         first_seen_height := (if first_seen_height rec < 0 then height else first_seen_height rec)\<rparr>"

definition signer_algo :: "'k CHMPWindowEntry \<Rightarrow> nat \<Rightarrow> int" where
  "signer_algo e si = (if si < length (we_signerAlgos e) then uint (we_signerAlgos e ! si) else we_algo e)"

definition seal_step :: "'k::linorder CHMPWindowEntry \<Rightarrow> nat \<Rightarrow> 'k records \<Rightarrow> 'k records" where
  "seal_step e si recs =
     (let signer = we_sealSigners e ! si
      in if \<not> IsValid signer then recs
         else let signerAlgo = signer_algo e si
              in if signerAlgo \<ge> 0 \<and> signerAlgo < NUM_ALGOS
                 then upd_record signerAlgo signer (seal_credit (we_height e)) recs else recs)"

definition credit_entry :: "(int \<Rightarrow> CPrivilegeRecord \<Rightarrow> CPrivilegeRecord) \<Rightarrow> 'k::linorder CHMPWindowEntry \<Rightarrow> 'k records \<Rightarrow> 'k records" where
  "credit_entry miner_credit e recs =
     fold (seal_step e) [0..<length (we_sealSigners e)]
       (if we_algo e \<ge> 0 \<and> we_algo e < NUM_ALGOS \<and> IsValid (we_minerPubKey e)
        then upd_record (we_algo e) (we_minerPubKey e) (miner_credit (we_height e)) recs else recs)"

definition rebuild_records :: "'k::linorder CHMPWindowEntry list \<Rightarrow> 'k records" where
  "rebuild_records w = fold (credit_entry miner_rebuild) w empty_records"

section \<open>Operations\<close>

definition RebuildFromWindow :: "'k::linorder CHMPPrivilegeTracker \<Rightarrow> 'k CHMPPrivilegeTracker" where
  "RebuildFromWindow t = t\<lparr>m_records := rebuild_records (m_window t)\<rparr>"

definition BlockConnected ::
  "int \<Rightarrow> int \<Rightarrow> 'k::linorder CBLSPublicKey \<Rightarrow> 'k CBLSPublicKey list \<Rightarrow> 8 word list \<Rightarrow> int
   \<Rightarrow> 'k CHMPPrivilegeTracker \<Rightarrow> 'k CHMPPrivilegeTracker" where
  "BlockConnected height algo minerPubKey sealSigners signerAlgos sealedAlgo t =
     (let e = \<lparr>we_height = height, we_algo = algo, we_minerPubKey = minerPubKey, we_sealSigners = sealSigners,
               we_signerAlgos = signerAlgos, we_sealedAlgo = sealedAlgo\<rparr>;
          window = m_window t @ [e];
          sealLong = pop_front_over SEAL_LONG_WINDOW
            (m_sealLong t @ [\<lparr>sl_height = height, sl_algo = algo, sl_sealedAlgo = sealedAlgo\<rparr>]);
          extended =
            (if IsValid minerPubKey
             then pop_front_over (m_extendedWindowSize t)
               (m_extendedWindow t @ [\<lparr>ex_height = height, ex_algo = algo, ex_minerPubKey = minerPubKey\<rparr>])
             else m_extendedWindow t);
          evicted = (int (length window) > m_windowSize t);
          t1 = t\<lparr>m_window := pop_front_over (m_windowSize t) window, m_sealLong := sealLong,
                 m_extendedWindow := extended\<rparr>
      in if evicted then RebuildFromWindow t1
         else t1\<lparr>m_records := credit_entry miner_incremental e (m_records t)\<rparr>)"

definition BlockDisconnected :: "int \<Rightarrow> 'k::linorder CHMPPrivilegeTracker \<Rightarrow> 'k CHMPPrivilegeTracker" where
  "BlockDisconnected height t =
     RebuildFromWindow (t\<lparr>
       m_window := pop_back_while (\<lambda>e. we_height e \<ge> height) (m_window t),
       m_extendedWindow := pop_back_while (\<lambda>e. ex_height e \<ge> height) (m_extendedWindow t),
       m_sealLong := pop_back_while (\<lambda>e. sl_height e \<ge> height) (m_sealLong t)\<rparr>)"

definition ClearTracker :: "'k CHMPPrivilegeTracker \<Rightarrow> 'k CHMPPrivilegeTracker" where
  "ClearTracker t = t\<lparr>m_window := [], m_extendedWindow := [], m_sealLong := [],
     m_records := empty_records, m_lastTier := empty_records\<rparr>"

section \<open>Queries\<close>

definition GetTipHeight :: "'k CHMPPrivilegeTracker \<Rightarrow> int" where
  "GetTipHeight t = (if m_window t = [] then - 1 else we_height (last (m_window t)))"

definition effMinBlocks :: "'k CHMPPrivilegeTracker \<Rightarrow> int \<Rightarrow> int" where
  "effMinBlocks t currentHeight =
     (case m_consensus t of Some p \<Rightarrow> GetEffectiveMinBlocksSolved p currentHeight | None \<Rightarrow> m_minBlocksSolved t)"

text \<open>The tier computation of \<^verbatim>\<open>GetTier\<close>, and the cache update it makes on the tip view.\<close>

definition GetTier ::
  "('k::linorder CBLSPublicKey \<Rightarrow> 'b option \<Rightarrow> bool) option \<Rightarrow> 'k CHMPPrivilegeTracker \<Rightarrow> 'k CBLSPublicKey \<Rightarrow> int
   \<Rightarrow> 'b option \<Rightarrow> HMPPrivilegeTier" where
  "GetTier mnLookup t pubkey algo pindex =
     (if algo < 0 \<or> algo \<ge> NUM_ALGOS then UNKNOWN
      else case om_find (m_records t ! nat algo) pubkey of
        None \<Rightarrow> UNKNOWN
      | Some rec \<Rightarrow>
          let currentHeight = GetTipHeight t
          in if first_seen_height rec < 0 \<or> currentHeight - first_seen_height rec < m_warmupBlocks t then UNKNOWN
             else if blocks_solved rec \<ge> effMinBlocks t currentHeight \<and> seal_participations rec > 0
             then (case mnLookup of
                     Some lookup \<Rightarrow> if lookup pubkey pindex then BROOD else ELDER
                   | None \<Rightarrow> ELDER)
             else NEW)"

definition ObserveTier ::
  "('k::linorder CBLSPublicKey \<Rightarrow> 'b option \<Rightarrow> bool) option \<Rightarrow> 'k CBLSPublicKey \<Rightarrow> int \<Rightarrow> 'b option
   \<Rightarrow> 'k CHMPPrivilegeTracker \<Rightarrow> HMPPrivilegeTier \<times> 'k CHMPPrivilegeTracker" where
  "ObserveTier mnLookup pubkey algo pindex t =
     (let tier = GetTier mnLookup t pubkey algo pindex
      in if tier = UNKNOWN \<or> pindex \<noteq> None then (tier, t)
         else (tier, t\<lparr>m_lastTier := (m_lastTier t)[nat algo := om_set pubkey tier (m_lastTier t ! nat algo)]\<rparr>))"

definition GetEffectiveWeight :: "'k::linorder CHMPPrivilegeTracker \<Rightarrow> 'k CBLSPublicKey \<Rightarrow> int \<Rightarrow> 32 word" where
  "GetEffectiveWeight t pubkey algo =
     (if algo < 0 \<or> algo \<ge> NUM_ALGOS then 0
      else case om_find (m_records t ! nat algo) pubkey of
        None \<Rightarrow> 0
      | Some rec \<Rightarrow>
          let totalWeight = fold (\<lambda>e w. w + word_of_int (blocks_solved (snd e))) (m_records t ! nat algo) 0 :: 32 word
          in if totalWeight = 0 then 0
             else let myWeight = word_of_int (blocks_solved rec);
                      bps = (myWeight * 10000) div totalWeight
                  in min bps 2500)"

fun extended_solvers_loop :: "int \<Rightarrow> int \<Rightarrow> 'k CHMPExtendedEntry list \<Rightarrow> 'k CBLSPublicKey list \<Rightarrow> 'k CBLSPublicKey list" where
  "extended_solvers_loop algo count [] solvers = solvers"
| "extended_solvers_loop algo count (e # es) solvers =
     (if ex_algo e \<noteq> algo then extended_solvers_loop algo count es solvers
      else if \<not> IsValid (ex_minerPubKey e) then extended_solvers_loop algo count es solvers
      else if ex_minerPubKey e \<in> set solvers then extended_solvers_loop algo count es solvers
      else let solvers = solvers @ [ex_minerPubKey e]
           in if int (length solvers) \<ge> count then solvers else extended_solvers_loop algo count es solvers)"

definition GetExtendedSolvers :: "'k CHMPPrivilegeTracker \<Rightarrow> int \<Rightarrow> int \<Rightarrow> 'k CBLSPublicKey list" where
  "GetExtendedSolvers t algo count = extended_solvers_loop algo count (rev (m_extendedWindow t)) []"

definition past_warmup :: "'k CHMPPrivilegeTracker \<Rightarrow> int \<Rightarrow> CPrivilegeRecord \<Rightarrow> bool" where
  "past_warmup t currentHeight rec =
     (first_seen_height rec \<ge> 0 \<and> currentHeight - first_seen_height rec \<ge> m_warmupBlocks t)"

text \<open>The dominance-catch loop: recent solvers that pass the backfill test, up to the floor.\<close>

fun backfill_loop ::
  "'k::linorder CHMPPrivilegeTracker \<Rightarrow> int \<Rightarrow> int \<Rightarrow> int \<Rightarrow> 'k CBLSPublicKey list \<Rightarrow> 'k CBLSPublicKey list
   \<Rightarrow> 'k CBLSPublicKey list" where
  "backfill_loop t algo currentHeight backfillMinBlocks [] result = result"
| "backfill_loop t algo currentHeight backfillMinBlocks (pk # pks) result =
     (if pk \<in> set result then backfill_loop t algo currentHeight backfillMinBlocks pks result
      else let result =
             (case om_find (m_records t ! nat algo) pk of
                Some rec \<Rightarrow>
                  if past_warmup t currentHeight rec \<and> seal_participations rec > 0 \<and> blocks_solved rec \<ge> backfillMinBlocks
                  then result @ [pk] else result
              | None \<Rightarrow> result)
           in if int (length result) \<ge> m_dominanceCatchFloor t then result
              else backfill_loop t algo currentHeight backfillMinBlocks pks result)"

definition organic_elders :: "'k::linorder CHMPPrivilegeTracker \<Rightarrow> int \<Rightarrow> 'k CBLSPublicKey list" where
  "organic_elders t algo =
     (let currentHeight = GetTipHeight t
      in map fst (filter (\<lambda>(pubkey, rec). past_warmup t currentHeight rec \<and>
                     blocks_solved rec \<ge> effMinBlocks t currentHeight \<and> seal_participations rec > 0)
           (m_records t ! nat algo)))"

definition GetElderSet :: "'k::linorder CHMPPrivilegeTracker \<Rightarrow> int \<Rightarrow> bool \<Rightarrow> 'k CBLSPublicKey list" where
  "GetElderSet t algo includeBackfill =
     (if algo < 0 \<or> algo \<ge> NUM_ALGOS then []
      else
        let currentHeight = GetTipHeight t;
            result = organic_elders t algo
        in if includeBackfill \<and> int (length result) < m_dominanceCatchFloor t \<and> m_dominanceCatchFloor t > 0
           then let backfillMinBlocks =
                      (case m_consensus t of
                         Some p \<Rightarrow> if IsHMPRearmActive p currentHeight then effMinBlocks t currentHeight else 1
                       | None \<Rightarrow> 1)
                in backfill_loop t algo currentHeight backfillMinBlocks
                     (GetExtendedSolvers t algo (m_extendedWindowSize t)) result
           else result)"

definition GetPrivilegedSet :: "'k::linorder CHMPPrivilegeTracker \<Rightarrow> int \<Rightarrow> 'k CBLSPublicKey list" where
  "GetPrivilegedSet t algo =
     (if algo < 0 \<or> algo \<ge> NUM_ALGOS then []
      else map fst (filter (\<lambda>(pubkey, rec). past_warmup t (GetTipHeight t) rec) (m_records t ! nat algo)))"

definition GetTotalPrivilegedCount :: "'k::linorder CHMPPrivilegeTracker \<Rightarrow> nat" where
  "GetTotalPrivilegedCount t =
     card (set (concat (map (\<lambda>a. map fst (filter (\<lambda>(pubkey, rec). past_warmup t (GetTipHeight t) rec) (m_records t ! a)))
       [0..<nat NUM_ALGOS])))"

definition GetRecord :: "'k::linorder CHMPPrivilegeTracker \<Rightarrow> 'k CBLSPublicKey \<Rightarrow> int \<Rightarrow> CPrivilegeRecord" where
  "GetRecord t pubkey algo =
     (if algo \<ge> 0 \<and> algo < NUM_ALGOS
      then (case om_find (m_records t ! nat algo) pubkey of Some rec \<Rightarrow> rec | None \<Rightarrow> empty_record)
      else empty_record)"

section \<open>Penalty arming\<close>

definition ARM_FRAC_PCT :: int where "ARM_FRAC_PCT = 60"
definition ARM_MIN_SEALED :: int where "ARM_MIN_SEALED = 8"
definition ARM_MIN_ELDERS :: int where "ARM_MIN_ELDERS = 4"
definition ARM_MIN_DIVERSITY :: int where "ARM_MIN_DIVERSITY = 4"
definition HOLD_FRAC_PCT :: int where "HOLD_FRAC_PCT = 45"
definition HOLD_MIN_ELDERS :: int where "HOLD_MIN_ELDERS = 3"

definition IsPenaltyArmed :: "'k::linorder CHMPPrivilegeTracker \<Rightarrow> int \<Rightarrow> bool" where
  "IsPenaltyArmed t algo =
     (if algo < 0 \<or> algo \<ge> NUM_ALGOS then False
      else
        let organicElders = int (length (GetElderSet t algo False));
            algoBlocks100 = int (length (filter (\<lambda>e. we_algo e = algo) (m_window t)));
            sealedEntries = filter (\<lambda>e. we_sealedAlgo e = algo) (m_window t);
            sealed100 = int (length sealedEntries);
            signers100 = set (filter IsValid (concat (map we_sealSigners sealedEntries)));
            arm = (organicElders \<ge> ARM_MIN_ELDERS \<and> sealed100 \<ge> ARM_MIN_SEALED \<and> algoBlocks100 > 0 \<and>
                   sealed100 * 100 \<ge> algoBlocks100 * ARM_FRAC_PCT \<and> int (card signers100) \<ge> ARM_MIN_DIVERSITY);
            algoBlocks400 = int (length (filter (\<lambda>e. sl_algo e = algo) (m_sealLong t)));
            sealed400 = int (length (filter (\<lambda>e. sl_sealedAlgo e = algo) (m_sealLong t)))
        in if arm then True
           else organicElders \<ge> HOLD_MIN_ELDERS \<and> algoBlocks400 > 0 \<and> sealed400 * 100 \<ge> algoBlocks400 * HOLD_FRAC_PCT)"

section \<open>Incremental and rebuilt records agree\<close>

text \<open>
  The contract between a sliding window and the index derived from it: an element that
  may follow the window can be credited incrementally, and the result is the index of
  the longer window.
\<close>

locale window_index =
  fixes full :: "'e list \<Rightarrow> 'r" and inc :: "'e \<Rightarrow> 'r \<Rightarrow> 'r" and follows :: "'e list \<Rightarrow> 'e \<Rightarrow> bool"
  assumes inc_full: "follows w e \<Longrightarrow> inc e (full w) = full (w @ [e])"
begin

definition push :: "int \<Rightarrow> 'e \<Rightarrow> 'e list \<Rightarrow> 'r \<Rightarrow> 'e list \<times> 'r" where
  "push cap e w r =
     (let w' = w @ [e]
      in if int (length w') > cap then (pop_front_over cap w', full (pop_front_over cap w')) else (w', inc e r))"

lemma push_consistent:
  "follows w e \<Longrightarrow> push cap e w (full w) = (pop_front_over cap (w @ [e]), full (pop_front_over cap (w @ [e])))"
  by (simp add: push_def Let_def inc_full pop_front_over_id)

end

lemma length_upd_record [simp]: "length (upd_record a k f recs) = length recs"
  by (simp add: upd_record_def)

lemma length_seal_fold [simp]: "length (fold (seal_step e) is recs) = length recs"
  by (induction "is" arbitrary: recs) (auto simp: seal_step_def Let_def)

lemma length_credit_entry [simp]: "length (credit_entry mc e recs) = length recs"
  by (simp add: credit_entry_def)

lemma length_empty_records [simp]: "length empty_records = 4"
  by (simp add: empty_records_def NUM_ALGOS_def)

lemma length_fold_credit [simp]: "length (fold (credit_entry mc) w recs) = length recs"
  by (induction w arbitrary: recs) auto

lemma length_rebuild_records [simp]: "length (rebuild_records w) = 4"
  by (simp add: rebuild_records_def)

text \<open>A predicate on all records that every credit keeps.\<close>

definition all_records :: "(CPrivilegeRecord \<Rightarrow> bool) \<Rightarrow> 'k::linorder records \<Rightarrow> bool" where
  "all_records P recs = (\<forall>m \<in> set recs. om_wf m \<and> (\<forall>(k, r) \<in> set m. P r))"

lemma all_records_om_set:
  "om_wf m \<Longrightarrow> \<forall>(k, r) \<in> set m. P r \<Longrightarrow> P v \<Longrightarrow> \<forall>(k, r) \<in> set (om_set k v m). P r"
  by (induction k v m rule: om_set.induct) (auto simp: om_wf_Cons)

lemma all_records_upd:
  assumes "all_records P recs" "P (f empty_record)" "\<And>r. P r \<Longrightarrow> P (f r)"
  shows "all_records P (upd_record a k f recs)"
proof (cases "nat a < length recs")
  case True
  let ?m = "recs ! nat a"
  have m: "om_wf ?m" "\<forall>(k, r) \<in> set ?m. P r" using assms(1) True by (auto simp: all_records_def)
  have "P (f (case om_find ?m k of None \<Rightarrow> empty_record | Some v \<Rightarrow> v))"
  proof (cases "om_find ?m k")
    case (Some r)
    then have "P r" using m(2) om_find_Some_in [OF Some] by auto
    then show ?thesis using Some assms(3) by simp
  qed (simp add: assms(2))
  then have "\<forall>(k, r) \<in> set (om_upd empty_record k f ?m). P r"
    unfolding om_upd_def by (rule all_records_om_set [OF m])
  moreover have "om_wf (om_upd empty_record k f ?m)" using m by simp
  ultimately show ?thesis using assms(1) set_update_subset_insert [of recs "nat a" "om_upd empty_record k f ?m"]
    unfolding all_records_def upd_record_def by blast
next
  case False
  then show ?thesis using assms(1) by (simp add: upd_record_def list_update_beyond)
qed

lemma all_records_credit:
  assumes "all_records P recs"
    and "\<And>f. f = mc (we_height e) \<or> f = seal_credit (we_height e) \<Longrightarrow> P (f empty_record) \<and> (\<forall>r. P r \<longrightarrow> P (f r))"
  shows "all_records P (credit_entry mc e recs)"
proof -
  have step: "all_records P rs \<Longrightarrow> all_records P (seal_step e si rs)" for si rs
    using assms(2) [of "seal_credit (we_height e)"] by (auto simp: seal_step_def Let_def intro: all_records_upd)
  have "all_records P rs \<Longrightarrow> all_records P (fold (seal_step e) is rs)" for "is" rs
    by (induction "is" arbitrary: rs) (auto intro: step)
  moreover have "all_records P (upd_record (we_algo e) (we_minerPubKey e) (mc (we_height e)) recs)"
    using assms(2) [of "mc (we_height e)"] by (intro all_records_upd assms(1)) auto
  ultimately show ?thesis using assms(1) by (simp add: credit_entry_def)
qed

lemma all_records_empty: "all_records P empty_records"
  by (simp add: all_records_def empty_records_def)

lemma rebuild_snoc: "rebuild_records (w @ [e]) = credit_entry miner_rebuild e (rebuild_records w)"
  by (simp add: rebuild_records_def)

lemma rebuild_first_seen:
  "\<forall>e \<in> set w. we_height e \<le> H \<Longrightarrow> all_records (\<lambda>r. first_seen_height r \<le> H) (rebuild_records w)"
proof (induction w rule: rev_induct)
  case Nil
  then show ?case by (simp add: rebuild_records_def all_records_empty)
next
  case (snoc e w)
  then show ?case unfolding rebuild_snoc
    by (intro all_records_credit) (auto simp: miner_rebuild_def seal_credit_def empty_record_def)
qed

lemma miner_credit_agree:
  assumes "all_records (\<lambda>r. first_seen_height r \<le> h) recs" "nat a < length recs"
  shows "upd_record a k (miner_incremental h) recs = upd_record a k (miner_rebuild h) recs"
proof -
  have "om_find (recs ! nat a) k = Some r \<Longrightarrow> first_seen_height r \<le> h" for r
    using assms om_find_Some_in [of "recs ! nat a" k r] by (fastforce simp: all_records_def)
  then have "om_upd empty_record k (miner_incremental h) (recs ! nat a) =
        om_upd empty_record k (miner_rebuild h) (recs ! nat a)"
    by (cases "om_find (recs ! nat a) k") (auto simp: om_upd_def miner_incremental_def miner_rebuild_def empty_record_def)
  then show ?thesis by (simp add: upd_record_def)
qed

definition follows_window :: "'k CHMPWindowEntry list \<Rightarrow> 'k CHMPWindowEntry \<Rightarrow> bool" where
  "follows_window w e = (\<forall>x \<in> set w. we_height x \<le> we_height e)"

lemma incremental_rebuild:
  "follows_window w e \<Longrightarrow> credit_entry miner_incremental e (rebuild_records w) = rebuild_records (w @ [e])"
proof -
  assume "follows_window w e"
  then have "upd_record (we_algo e) (we_minerPubKey e) (miner_incremental (we_height e)) (rebuild_records w) =
      upd_record (we_algo e) (we_minerPubKey e) (miner_rebuild (we_height e)) (rebuild_records w)"
    if "0 \<le> we_algo e" "we_algo e < NUM_ALGOS"
    using that by (intro miner_credit_agree rebuild_first_seen) (auto simp: follows_window_def NUM_ALGOS_def)
  then show ?thesis by (simp add: rebuild_snoc credit_entry_def)
qed

interpretation priv: window_index rebuild_records "credit_entry miner_incremental" follows_window
  by unfold_locales (rule incremental_rebuild)

section \<open>The tracker as a state machine\<close>

definition tracker_inv :: "'k::linorder CHMPPrivilegeTracker \<Rightarrow> bool" where
  "tracker_inv t =
     (m_records t = rebuild_records (m_window t) \<and> sorted (map we_height (m_window t)) \<and>
      (\<forall>e \<in> set (m_window t). 0 \<le> we_height e) \<and>
      length (m_window t) \<le> nat (m_windowSize t) \<and> length (m_sealLong t) \<le> 400 \<and>
      length (m_extendedWindow t) \<le> nat (m_extendedWindowSize t))"

inductive tracker_reachable :: "'k::linorder CHMPPrivilegeTracker \<Rightarrow> bool" where
  init_default: "tracker_reachable default_tracker"
| init_params: "tracker_reachable (new_tracker p)"
| connect: "tracker_reachable t \<Longrightarrow> 0 \<le> height \<Longrightarrow> GetTipHeight t \<le> height \<Longrightarrow>
            tracker_reachable (BlockConnected height algo miner signers signerAlgos sealedAlgo t)"
| disconnect: "tracker_reachable t \<Longrightarrow> tracker_reachable (BlockDisconnected height t)"
| clear: "tracker_reachable t \<Longrightarrow> tracker_reachable (ClearTracker t)"
| observe: "tracker_reachable t \<Longrightarrow> tracker_reachable (snd (ObserveTier mnLookup pubkey algo (pindex :: uint256 option) t))"

lemma sorted_last_le: "sorted xs \<Longrightarrow> x \<in> set xs \<Longrightarrow> x \<le> last xs"
  by (induction xs) (auto simp: last_in_set)

lemma follows_windowI:
  "sorted (map we_height w) \<Longrightarrow> (w \<noteq> [] \<Longrightarrow> we_height (last w) \<le> we_height e) \<Longrightarrow> follows_window w e"
  unfolding follows_window_def using sorted_last_le [of "map we_height w"]
  by (metis empty_iff imageI last_map list.set(1) list.set_map order_trans)

lemma BlockConnected_windows:
  "m_window (BlockConnected h a mk sg sa sl t) = pop_front_over (m_windowSize t)
     (m_window t @ [\<lparr>we_height = h, we_algo = a, we_minerPubKey = mk, we_sealSigners = sg, we_signerAlgos = sa, we_sealedAlgo = sl\<rparr>])"
  "m_sealLong (BlockConnected h a mk sg sa sl t) =
     pop_front_over 400 (m_sealLong t @ [\<lparr>sl_height = h, sl_algo = a, sl_sealedAlgo = sl\<rparr>])"
  "m_extendedWindow (BlockConnected h a mk sg sa sl t) =
     (if IsValid mk then pop_front_over (m_extendedWindowSize t)
        (m_extendedWindow t @ [\<lparr>ex_height = h, ex_algo = a, ex_minerPubKey = mk\<rparr>]) else m_extendedWindow t)"
  by (auto simp: BlockConnected_def RebuildFromWindow_def Let_def SEAL_LONG_WINDOW_def)

lemma BlockConnected_params [simp]:
  "m_windowSize (BlockConnected h a mk sg sa sl t) = m_windowSize t"
  "m_warmupBlocks (BlockConnected h a mk sg sa sl t) = m_warmupBlocks t"
  "m_minBlocksSolved (BlockConnected h a mk sg sa sl t) = m_minBlocksSolved t"
  "m_dominanceCatchFloor (BlockConnected h a mk sg sa sl t) = m_dominanceCatchFloor t"
  "m_extendedWindowSize (BlockConnected h a mk sg sa sl t) = m_extendedWindowSize t"
  "m_consensus (BlockConnected h a mk sg sa sl t) = m_consensus t"
  "m_lastTier (BlockConnected h a mk sg sa sl t) = m_lastTier t"
  by (auto simp: BlockConnected_def RebuildFromWindow_def Let_def)

lemma BlockConnected_records:
  assumes "tracker_inv t" "GetTipHeight t \<le> h"
  shows "m_records (BlockConnected h a mk sg sa sl t) = rebuild_records (m_window (BlockConnected h a mk sg sa sl t))"
proof -
  let ?e = "\<lparr>we_height = h, we_algo = a, we_minerPubKey = mk, we_sealSigners = sg, we_signerAlgos = sa, we_sealedAlgo = sl\<rparr>"
  have f: "follows_window (m_window t) ?e"
    using assms by (intro follows_windowI) (auto simp: tracker_inv_def GetTipHeight_def)
  have "m_records (BlockConnected h a mk sg sa sl t) = snd (priv.push (m_windowSize t) ?e (m_window t) (m_records t))"
    by (auto simp: BlockConnected_def RebuildFromWindow_def Let_def priv.push_def)
  then show ?thesis
    using priv.push_consistent [OF f] assms(1) by (simp add: tracker_inv_def BlockConnected_windows)
qed

lemma sorted_pop_front_snoc:
  "sorted (map f w) \<Longrightarrow> (w \<noteq> [] \<Longrightarrow> f (last w) \<le> f e) \<Longrightarrow> sorted (map f (pop_front_over n (w @ [e])))"
proof -
  assume "sorted (map f w)" "w \<noteq> [] \<Longrightarrow> f (last w) \<le> f e"
  then have "sorted (map f (w @ [e]))"
    using sorted_last_le [of "map f w"] by (auto simp: sorted_append last_map) (metis empty_iff imageI last_map list.set(1) list.set_map order_trans)
  then show ?thesis
    unfolding pop_front_over_drop drop_map [symmetric] by (rule sorted_wrt_drop)
qed

lemma tracker_inv_BlockConnected:
  assumes "tracker_inv t" "0 \<le> h" "GetTipHeight t \<le> h"
  shows "tracker_inv (BlockConnected h a mk sg sa sl t)"
proof -
  have "sorted (map we_height (m_window (BlockConnected h a mk sg sa sl t)))"
    using assms unfolding BlockConnected_windows
    by (intro sorted_pop_front_snoc) (auto simp: tracker_inv_def GetTipHeight_def)
  then show ?thesis
    using BlockConnected_records [OF assms(1,3)] assms(1,2)
    by (auto simp: tracker_inv_def BlockConnected_windows dest!: subsetD [OF set_pop_front_over])
qed

lemma sorted_map_pop_back: "sorted (map f w) \<Longrightarrow> sorted (map f (pop_back_while P w))"
  by (simp add: sorted_map sorted_wrt_pop_back_while)

lemma tracker_inv_BlockDisconnected: "tracker_inv t \<Longrightarrow> tracker_inv (BlockDisconnected h t)"
  using set_pop_back_while [of "\<lambda>e. h \<le> we_height e" "m_window t"]
  by (auto simp: tracker_inv_def BlockDisconnected_def RebuildFromWindow_def sorted_map_pop_back
      intro: le_trans [OF length_pop_back_while])

lemma tracker_inv_init: "tracker_inv default_tracker" "tracker_inv (new_tracker p)" "tracker_inv (ClearTracker t)"
  by (simp_all add: tracker_inv_def default_tracker_def new_tracker_def ClearTracker_def rebuild_records_def)

lemma tracker_inv_ObserveTier: "tracker_inv t \<Longrightarrow> tracker_inv (snd (ObserveTier mn pk a pi t))"
  by (simp add: ObserveTier_def tracker_inv_def Let_def)

lemma tracker_reachable_inv: "tracker_reachable t \<Longrightarrow> tracker_inv t"
  by (induction rule: tracker_reachable.induct)
    (auto intro: tracker_inv_init tracker_inv_BlockConnected tracker_inv_BlockDisconnected tracker_inv_ObserveTier)

section \<open>What a record counts\<close>

definition record_of :: "'k::linorder records \<Rightarrow> int \<Rightarrow> 'k CBLSPublicKey \<Rightarrow> CPrivilegeRecord" where
  "record_of recs a pk = (case om_find (recs ! nat a) pk of Some r \<Rightarrow> r | None \<Rightarrow> empty_record)"

definition records_wf :: "'k::linorder records \<Rightarrow> bool" where
  "records_wf recs = (length recs = 4 \<and> all_records (\<lambda>r. True) recs)"

definition seals_in :: "'k CHMPWindowEntry \<Rightarrow> int \<Rightarrow> 'k CBLSPublicKey \<Rightarrow> nat" where
  "seals_in e a pk =
     length (filter (\<lambda>si. we_sealSigners e ! si = pk \<and> signer_algo e si = a) [0..<length (we_sealSigners e)])"

definition solves :: "'k CHMPWindowEntry \<Rightarrow> int \<Rightarrow> 'k CBLSPublicKey \<Rightarrow> bool" where
  "solves e a pk = (we_algo e = a \<and> we_minerPubKey e = pk)"

lemma records_wf_nth: "records_wf recs \<Longrightarrow> valid_algo a \<Longrightarrow> om_wf (recs ! nat a) \<and> nat a < length recs"
  by (auto simp: records_wf_def all_records_def valid_algo_def NUM_ALGOS_def)

lemma records_wf_upd [simp]: "records_wf recs \<Longrightarrow> records_wf (upd_record a k f recs)"
  by (simp add: records_wf_def all_records_upd)

lemma records_wf_seal_step [simp]: "records_wf recs \<Longrightarrow> records_wf (seal_step e si recs)"
  by (simp add: seal_step_def Let_def)

lemma records_wf_seal_fold [simp]: "records_wf recs \<Longrightarrow> records_wf (fold (seal_step e) is recs)"
  by (induction "is" arbitrary: recs) auto

lemma records_wf_credit [simp]: "records_wf recs \<Longrightarrow> records_wf (credit_entry mc e recs)"
  by (simp add: credit_entry_def)

lemma records_wf_empty [simp]: "records_wf empty_records"
  by (simp add: records_wf_def all_records_empty)

lemma records_wf_rebuild [simp]: "records_wf (rebuild_records w)"
proof (induction w rule: rev_induct)
  case Nil
  show ?case by (simp add: rebuild_records_def)
next
  case (snoc e w)
  then show ?case by (simp add: rebuild_snoc)
qed

lemma record_of_upd:
  assumes "records_wf recs" "valid_algo a" "valid_algo b"
  shows "record_of (upd_record b k f recs) a pk =
         (if a = b \<and> k = pk then f (record_of recs a pk) else record_of recs a pk)"
proof -
  have ne: "a \<noteq> b \<Longrightarrow> nat a \<noteq> nat b" using assms(2,3) by (auto simp: valid_algo_def)
  show ?thesis
    using records_wf_nth [OF assms(1,2)] records_wf_nth [OF assms(1,3)] ne
    by (cases "a = b") (auto simp: record_of_def upd_record_def om_find_upd split: option.splits)
qed

lemma record_of_seal_step:
  assumes "records_wf recs" "valid_algo a" "IsValid pk"
  shows "record_of (seal_step e si recs) a pk =
         (if we_sealSigners e ! si = pk \<and> signer_algo e si = a then seal_credit (we_height e) (record_of recs a pk)
          else record_of recs a pk)"
  using assms record_of_upd [OF assms(1,2), of "signer_algo e si"]
  by (auto simp: seal_step_def Let_def valid_algo_def)

lemma record_of_seal_fold:
  assumes "records_wf recs" "valid_algo a" "IsValid pk"
  shows "record_of (fold (seal_step e) is recs) a pk =
         (seal_credit (we_height e) ^^ length (filter (\<lambda>si. we_sealSigners e ! si = pk \<and> signer_algo e si = a) is))
           (record_of recs a pk)"
  using assms(1)
  by (induction "is" arbitrary: recs) (auto simp: record_of_seal_step assms(2,3) funpow_swap1)

lemma record_of_credit:
  assumes "records_wf recs" "valid_algo a" "IsValid pk"
  shows "record_of (credit_entry mc e recs) a pk =
         (seal_credit (we_height e) ^^ seals_in e a pk)
           (if solves e a pk then mc (we_height e) (record_of recs a pk) else record_of recs a pk)"
  using assms record_of_upd [OF assms(1,2), of "we_algo e"]
  by (auto simp: credit_entry_def record_of_seal_fold seals_in_def solves_def valid_algo_def)

lemma seal_credit_funpow:
  "blocks_solved ((seal_credit h ^^ n) r) = blocks_solved r"
  "seal_participations ((seal_credit h ^^ n) r) = seal_participations r + int n"
  "0 \<le> h \<Longrightarrow> first_seen_height ((seal_credit h ^^ n) r) =
     (if n > 0 \<and> first_seen_height r < 0 then h else first_seen_height r)"
  by (induction n) (auto simp: seal_credit_def)

lemma rebuild_counts:
  assumes "valid_algo a" "IsValid pk"
  shows "blocks_solved (record_of (rebuild_records w) a pk) = int (length (filter (\<lambda>e. solves e a pk) w))"
    and "seal_participations (record_of (rebuild_records w) a pk) = int (\<Sum>e \<leftarrow> w. seals_in e a pk)"
proof (induction w rule: rev_induct)
  case Nil
  show "blocks_solved (record_of (rebuild_records []) a pk) = int (length (filter (\<lambda>e. solves e a pk) []))"
    "seal_participations (record_of (rebuild_records []) a pk) = int (\<Sum>e \<leftarrow> []. seals_in e a pk)"
    using assms(1) by (auto simp: rebuild_records_def record_of_def empty_records_def empty_record_def valid_algo_def)
next
  case (snoc e w)
  show "blocks_solved (record_of (rebuild_records (w @ [e])) a pk) = int (length (filter (\<lambda>e. solves e a pk) (w @ [e])))"
    "seal_participations (record_of (rebuild_records (w @ [e])) a pk) = int (\<Sum>e \<leftarrow> w @ [e]. seals_in e a pk)"
    using snoc by (auto simp: rebuild_snoc record_of_credit assms seal_credit_funpow miner_rebuild_def)
qed

text \<open>The first sighting: the height of the first window entry in which the key solved or signed.\<close>

definition involves :: "'k CHMPWindowEntry \<Rightarrow> int \<Rightarrow> 'k CBLSPublicKey \<Rightarrow> bool" where
  "involves e a pk = (solves e a pk \<or> seals_in e a pk > 0)"

definition first_involved :: "'k CHMPWindowEntry list \<Rightarrow> int \<Rightarrow> 'k CBLSPublicKey \<Rightarrow> int" where
  "first_involved w a pk = (case find (\<lambda>e. involves e a pk) w of None \<Rightarrow> - 1 | Some e \<Rightarrow> we_height e)"

lemma find_append: "find P (xs @ ys) = (case find P xs of None \<Rightarrow> find P ys | Some x \<Rightarrow> Some x)"
  by (induction xs) auto

lemma find_in_set: "find P xs = Some x \<Longrightarrow> x \<in> set xs"
  by (auto simp: find_Some_iff)

lemma rebuild_first_involved:
  assumes "valid_algo a" "IsValid pk"
  shows "sorted (map we_height w) \<Longrightarrow> \<forall>e \<in> set w. 0 \<le> we_height e \<Longrightarrow>
    first_seen_height (record_of (rebuild_records w) a pk) = first_involved w a pk"
proof (induction w rule: rev_induct)
  case Nil
  then show ?case
    using assms(1) by (auto simp: rebuild_records_def record_of_def empty_records_def empty_record_def valid_algo_def first_involved_def)
next
  case (snoc e w)
  let ?r = "record_of (rebuild_records w) a pk"
  have IH: "first_seen_height ?r = first_involved w a pk" using snoc by (simp add: sorted_append)
  have h: "0 \<le> we_height e" using snoc.prems by simp
  have le: "first_involved w a pk \<le> we_height e"
    using snoc.prems by (auto simp: first_involved_def sorted_append find_Some_iff split: option.splits)
  have neg: "first_involved w a pk < 0 \<longleftrightarrow> find (\<lambda>e. involves e a pk) w = None"
    using snoc.prems
    by (cases "find (\<lambda>e. involves e a pk) w") (auto simp: first_involved_def dest!: find_in_set)
  have "first_involved (w @ [e]) a pk =
      (if first_involved w a pk < 0 then (if involves e a pk then we_height e else - 1) else first_involved w a pk)"
    unfolding neg by (auto simp: first_involved_def find_append split: option.splits)
  moreover have "first_involved w a pk < 0 \<Longrightarrow> first_involved w a pk = - 1"
    unfolding neg by (simp add: first_involved_def)
  ultimately show ?case
    using IH h le
    by (auto simp: rebuild_snoc record_of_credit assms seal_credit_funpow miner_rebuild_def involves_def)
qed

lemma GetRecord_record_of: "valid_algo a \<Longrightarrow> GetRecord t pk a = record_of (m_records t) a pk"
  by (simp add: GetRecord_def record_of_def valid_algo_def)

section \<open>Properties of the records\<close>

definition key_ex :: "nat \<Rightarrow> nat CBLSPublicKey" where
  "key_ex n = CBLSWrapper True n"

definition tracker_ex :: "nat CHMPPrivilegeTracker" where
  "tracker_ex = BlockConnected 2 0 (key_ex 1) [key_ex 2] [1] 0
     (BlockConnected 1 0 (key_ex 1) [] [] (- 1) (new_tracker (mainnet [] [] [] [] [] [])))"

lemma valid_key_ex [simp]: "IsValid (key_ex n)"
  by (simp add: key_ex_def IsValid_def)

lemma tracker_ex_reachable: "tracker_reachable tracker_ex"
  unfolding tracker_ex_def
  by (intro tracker_reachable.intros)
    (simp_all add: GetTipHeight_def BlockConnected_windows new_tracker_def mainnet_def)

text \<open>
  C24: in every reachable state of the tracker, whatever mix of connects, evictions,
  disconnects and clears led there, the record of a key counts exactly the window: the
  blocks it solved, the seal signatures it contributed under its declared algorithm,
  and the height of its first appearance.
\<close>

theorem privilege_records_exact:
  assumes "tracker_reachable t" "valid_algo a" "IsValid pk"
  shows "blocks_solved (GetRecord t pk a) = int (length (filter (\<lambda>e. solves e a pk) (m_window t))) \<and>
         seal_participations (GetRecord t pk a) = int (\<Sum>e \<leftarrow> m_window t. seals_in e a pk) \<and>
         first_seen_height (GetRecord t pk a) = first_involved (m_window t) a pk"
  using tracker_reachable_inv [OF assms(1)] rebuild_counts [OF assms(2,3)] rebuild_first_involved [OF assms(2,3)]
  by (simp add: tracker_inv_def GetRecord_record_of assms(2))

theorem privilege_records_exact_witness:
  "blocks_solved (GetRecord tracker_ex (key_ex 1) 0) = int (length (filter (\<lambda>e. solves e 0 (key_ex 1)) (m_window tracker_ex))) \<and>
   seal_participations (GetRecord tracker_ex (key_ex 1) 0) = int (\<Sum>e \<leftarrow> m_window tracker_ex. seals_in e 0 (key_ex 1)) \<and>
   first_seen_height (GetRecord tracker_ex (key_ex 1) 0) = first_involved (m_window tracker_ex) 0 (key_ex 1)"
  by (rule privilege_records_exact [OF tracker_ex_reachable]) (simp_all add: valid_algo_def NUM_ALGOS_def)

section \<open>Replay\<close>

definition connect_entry :: "'k::linorder CHMPWindowEntry \<Rightarrow> 'k CHMPPrivilegeTracker \<Rightarrow> 'k CHMPPrivilegeTracker" where
  "connect_entry e = BlockConnected (we_height e) (we_algo e) (we_minerPubKey e) (we_sealSigners e)
                       (we_signerAlgos e) (we_sealedAlgo e)"

definition ext_of :: "'k CHMPWindowEntry \<Rightarrow> 'k CHMPExtendedEntry" where
  "ext_of e = \<lparr>ex_height = we_height e, ex_algo = we_algo e, ex_minerPubKey = we_minerPubKey e\<rparr>"

definition long_of :: "'k CHMPWindowEntry \<Rightarrow> CHMPSealLongEntry" where
  "long_of e = \<lparr>sl_height = we_height e, sl_algo = we_algo e, sl_sealedAlgo = we_sealedAlgo e\<rparr>"

definition ext_entries :: "'k CHMPWindowEntry list \<Rightarrow> 'k CHMPExtendedEntry list" where
  "ext_entries es = map ext_of (filter (\<lambda>e. IsValid (we_minerPubKey e)) es)"

lemma connect_entry_windows:
  "m_window (connect_entry e t) = pop_front_over (m_windowSize t) (m_window t @ [e])"
  "m_sealLong (connect_entry e t) = pop_front_over 400 (m_sealLong t @ [long_of e])"
  "m_extendedWindow (connect_entry e t) =
     (if IsValid (we_minerPubKey e) then pop_front_over (m_extendedWindowSize t) (m_extendedWindow t @ [ext_of e])
      else m_extendedWindow t)"
  by (cases e, simp_all add: connect_entry_def BlockConnected_windows ext_of_def long_of_def)

lemma connect_entry_params [simp]:
  "m_windowSize (connect_entry e t) = m_windowSize t"
  "m_extendedWindowSize (connect_entry e t) = m_extendedWindowSize t"
  "m_warmupBlocks (connect_entry e t) = m_warmupBlocks t"
  "m_minBlocksSolved (connect_entry e t) = m_minBlocksSolved t"
  "m_dominanceCatchFloor (connect_entry e t) = m_dominanceCatchFloor t"
  "m_consensus (connect_entry e t) = m_consensus t"
  "m_lastTier (connect_entry e t) = m_lastTier t"
  by (simp_all add: connect_entry_def)

lemma fold_connect_windows:
  assumes "length (m_window t) \<le> nat (m_windowSize t)" "length (m_sealLong t) \<le> 400"
    "length (m_extendedWindow t) \<le> nat (m_extendedWindowSize t)"
  shows "m_window (fold connect_entry es t) = pop_front_over (m_windowSize t) (m_window t @ es)"
    and "m_sealLong (fold connect_entry es t) = pop_front_over 400 (m_sealLong t @ map long_of es)"
    and "m_extendedWindow (fold connect_entry es t) =
         pop_front_over (m_extendedWindowSize t) (m_extendedWindow t @ ext_entries es)"
  using assms
proof (induction es arbitrary: t)
  case (Cons e es)
  {
    case 1
    then show ?case using Cons.IH(1) [of "connect_entry e t"] 
      by (simp add: connect_entry_windows pop_front_over_append)
  next
    case 2
    then show ?case using Cons.IH(2) [of "connect_entry e t"] 
      by (simp add: connect_entry_windows pop_front_over_append)
  next
    case 3
    then show ?case using Cons.IH(3) [of "connect_entry e t"] 
      by (simp add: connect_entry_windows pop_front_over_append ext_entries_def)
  }
qed (simp_all add: pop_front_over_drop ext_entries_def)

lemma GetTipHeight_last: "m_window t \<noteq> [] \<Longrightarrow> GetTipHeight t = we_height (last (m_window t))"
  by (simp add: GetTipHeight_def)

lemma last_pop_front_over_snoc: "0 < n \<Longrightarrow> last (pop_front_over n (xs @ [x])) = x"
  by (simp add: pop_front_over_drop)

lemma fold_connect_inv:
  "tracker_inv t \<Longrightarrow> sorted (map we_height es) \<Longrightarrow> \<forall>e \<in> set es. 0 \<le> we_height e \<and> GetTipHeight t \<le> we_height e \<Longrightarrow>
   tracker_inv (fold connect_entry es t)"
proof (induction es arbitrary: t)
  case (Cons e es)
  have inv: "tracker_inv (connect_entry e t)"
    unfolding connect_entry_def using Cons.prems by (intro tracker_inv_BlockConnected) auto
  have "GetTipHeight (connect_entry e t) \<le> we_height e"
  proof (cases "m_window (connect_entry e t) = []")
    case True
    then show ?thesis using Cons.prems by (simp add: GetTipHeight_def)
  next
    case False
    then have "0 < m_windowSize t" by (auto simp: connect_entry_windows pop_front_over_drop)
    then show ?thesis using False by (simp add: GetTipHeight_def connect_entry_windows last_pop_front_over_snoc)
  qed
  then show ?case using Cons inv by fastforce
qed simp

lemma tracker_eqI:
  assumes "m_windowSize t = m_windowSize u" "m_warmupBlocks t = m_warmupBlocks u"
    "m_minBlocksSolved t = m_minBlocksSolved u" "m_dominanceCatchFloor t = m_dominanceCatchFloor u"
    "m_extendedWindowSize t = m_extendedWindowSize u" "m_consensus t = m_consensus u"
    "m_window t = m_window u" "m_sealLong t = m_sealLong u" "m_extendedWindow t = m_extendedWindow u"
    "m_records t = m_records u" "m_lastTier t = m_lastTier u"
  shows "t = (u :: 'k CHMPPrivilegeTracker)"
  using assms by simp

lemma fold_connect_params:
  "m_windowSize (fold connect_entry es t) = m_windowSize t"
  "m_extendedWindowSize (fold connect_entry es t) = m_extendedWindowSize t"
  "m_warmupBlocks (fold connect_entry es t) = m_warmupBlocks t"
  "m_minBlocksSolved (fold connect_entry es t) = m_minBlocksSolved t"
  "m_dominanceCatchFloor (fold connect_entry es t) = m_dominanceCatchFloor t"
  "m_consensus (fold connect_entry es t) = m_consensus t"
  "m_lastTier (fold connect_entry es t) = m_lastTier t"
  by (induction es arbitrary: t) simp_all

lemma fold_connect_suffix:
  assumes "sorted (map we_height (old @ recent))" "\<forall>e \<in> set (old @ recent). 0 \<le> we_height e"
    and "m_windowSize t \<le> int (length recent)" "400 \<le> length recent"
    and "m_extendedWindowSize t \<le> int (length (filter (\<lambda>e. IsValid (we_minerPubKey e)) recent))"
  shows "fold connect_entry (old @ recent) (ClearTracker t) = fold connect_entry recent (ClearTracker t)"
proof -
  let ?t = "ClearTracker t" and ?c = "fold connect_entry"
  have sizes: "m_window ?t = []" "m_sealLong ?t = []" "m_extendedWindow ?t = []" "m_windowSize ?t = m_windowSize t"
    "m_extendedWindowSize ?t = m_extendedWindowSize t" "GetTipHeight ?t = - 1"
    by (simp_all add: ClearTracker_def GetTipHeight_def)
  note win = fold_connect_windows [of ?t, unfolded sizes, simplified]
  have rec: "m_records (?c es ?t) = rebuild_records (m_window (?c es ?t))"
    if "sorted (map we_height es)" "\<forall>e \<in> set es. 0 \<le> we_height e" for es
    using fold_connect_inv [OF tracker_inv_init(3), of es t] that sizes(6) by (fastforce simp: tracker_inv_def)
  have w: "m_window (?c (old @ recent) ?t) = m_window (?c recent ?t)"
    unfolding win using assms(3) by (rule pop_front_over_suffix)
  have l: "m_sealLong (?c (old @ recent) ?t) = m_sealLong (?c recent ?t)"
    unfolding win map_append using assms(4) by (intro pop_front_over_suffix) simp
  have x: "m_extendedWindow (?c (old @ recent) ?t) = m_extendedWindow (?c recent ?t)"
    unfolding win ext_entries_def filter_append map_append using assms(5) by (intro pop_front_over_suffix) simp
  show ?thesis
    by (rule tracker_eqI)
      (use rec [of "old @ recent"] rec [of recent] assms(1,2) w l x in
        \<open>simp_all only: fold_connect_params, auto simp: sorted_append\<close>)
qed

definition entry_ex :: "nat \<Rightarrow> nat CHMPWindowEntry" where
  "entry_ex n = \<lparr>we_height = int n, we_algo = 0, we_minerPubKey = key_ex n, we_sealSigners = [],
                we_signerAlgos = [], we_sealedAlgo = - 1\<rparr>"

section \<open>Reorganisations\<close>

text \<open>
  disconnecting a block right after connecting it restores the previous state of the
  tracker, as long as the connect evicted nothing from the three windows.
\<close>

theorem privilege_disconnect_connect:
  assumes "tracker_reachable t" "0 \<le> h" "GetTipHeight t < h"
    and "int (length (m_window t)) < m_windowSize t" "length (m_sealLong t) < 400"
    and "int (length (m_extendedWindow t)) < m_extendedWindowSize t"
    and "\<forall>e \<in> set (m_sealLong t). sl_height e < h" "\<forall>e \<in> set (m_extendedWindow t). ex_height e < h"
  shows "BlockDisconnected h (BlockConnected h a mk sg sa sl t) = t"
proof -
  have inv: "tracker_inv t" using assms(1) by (rule tracker_reachable_inv)
  have last: "m_window t \<noteq> [] \<Longrightarrow> \<not> h \<le> we_height (last (m_window t))"
    using assms(3) by (simp add: GetTipHeight_def)
  have l2: "m_sealLong t \<noteq> [] \<Longrightarrow> \<not> h \<le> sl_height (last (m_sealLong t))" using assms(7) by (simp add: not_le)
  have l3: "m_extendedWindow t \<noteq> [] \<Longrightarrow> \<not> h \<le> ex_height (last (m_extendedWindow t))" using assms(8) by (simp add: not_le)
  show ?thesis
    using inv assms(4-6) last l2 l3
    by (intro tracker_eqI)
      (auto simp: BlockDisconnected_def RebuildFromWindow_def BlockConnected_windows pop_front_over_id
        pop_back_while_snoc pop_back_while_id tracker_inv_def)
qed

theorem privilege_disconnect_connect_witness:
  "BlockDisconnected 3 (BlockConnected 3 0 (key_ex 4) [key_ex 1] [0] 0 tracker_ex) = tracker_ex"
  by (rule privilege_disconnect_connect [OF tracker_ex_reachable])
    (auto simp: tracker_ex_def GetTipHeight_def BlockConnected_windows new_tracker_def mainnet_def)

section \<open>Tiers, Elders and the dominance catch\<close>

lemma elder_conditions:
  "valid_algo a \<Longrightarrow> om_wf (m_records t ! nat a) \<Longrightarrow>
   pk \<in> set (organic_elders t a) \<longleftrightarrow>
     (\<exists>rec. om_find (m_records t ! nat a) pk = Some rec \<and> past_warmup t (GetTipHeight t) rec \<and>
            blocks_solved rec \<ge> effMinBlocks t (GetTipHeight t) \<and> seal_participations rec > 0)"
  by (auto simp: organic_elders_def Let_def om_find_iff image_iff)

lemma reachable_records_wf: "tracker_reachable t \<Longrightarrow> valid_algo a \<Longrightarrow> om_wf (m_records t ! nat a)"
  using tracker_reachable_inv [of t] records_wf_nth [OF records_wf_rebuild] by (auto simp: tracker_inv_def)

text \<open>
  C33: the Elder set and the tier query agree: a key is in the organic Elder set of an
  algorithm exactly when its tier there is Elder or above, and in the privileged set
  exactly when its tier is New or above.
\<close>

theorem elder_set_matches_tier:
  assumes "tracker_reachable t" "valid_algo a"
  shows "(pk \<in> set (GetElderSet t a False) \<longleftrightarrow> GetTier mnLookup t pk a pindex \<ge> ELDER) \<and>
         (pk \<in> set (GetPrivilegedSet t a) \<longleftrightarrow> GetTier mnLookup t pk a pindex \<ge> NEW)"
proof -
  have wf: "om_wf (m_records t ! nat a)" using assms by (rule reachable_records_wf)
  have v: "\<not> (a < 0 \<or> a \<ge> NUM_ALGOS)" using assms(2) by (auto simp: valid_algo_def)
  have "pk \<in> set (GetPrivilegedSet t a) \<longleftrightarrow>
      (\<exists>rec. om_find (m_records t ! nat a) pk = Some rec \<and> past_warmup t (GetTipHeight t) rec)"
    using v wf by (auto simp: GetPrivilegedSet_def om_find_iff image_iff)
  moreover have "pk \<in> set (GetElderSet t a False) \<longleftrightarrow> pk \<in> set (organic_elders t a)"
    using v by (auto simp: GetElderSet_def Let_def)
  ultimately show ?thesis
    using v unfolding elder_conditions [OF assms(2) wf]
    by (auto simp: GetTier_def Let_def past_warmup_def less_eq_HMPPrivilegeTier_def split: option.splits if_splits)
qed

theorem elder_set_matches_tier_witness:
  "(key_ex 1 \<in> set (GetElderSet tracker_ex 0 False) \<longleftrightarrow> GetTier None tracker_ex (key_ex 1) 0 (None :: uint256 option) \<ge> ELDER) \<and>
   (key_ex 1 \<in> set (GetPrivilegedSet tracker_ex 0) \<longleftrightarrow> GetTier None tracker_ex (key_ex 1) 0 (None :: uint256 option) \<ge> NEW)"
  by (rule elder_set_matches_tier [OF tracker_ex_reachable]) (simp add: valid_algo_def NUM_ALGOS_def)

lemma backfill_loop_noop:
  "(\<And>pk rec. om_find (m_records t ! nat a) pk = Some rec \<Longrightarrow> past_warmup t h rec \<Longrightarrow>
     seal_participations rec > 0 \<Longrightarrow> blocks_solved rec \<ge> n \<Longrightarrow> pk \<in> set result) \<Longrightarrow>
   backfill_loop t a h n pks result = result"
  by (induction t a h n pks result rule: backfill_loop.induct) (auto simp: Let_def split: option.splits)

text \<open>
  from the re-arm height on, the dominance-catch backfill adds nobody: its test is
  then the organic Elder test, so the Elder set with and without backfill coincide,
  even when it is below the floor.
\<close>

theorem backfill_noop_after_rearm:
  assumes "tracker_reachable t" "valid_algo a" "m_consensus t = Some p" "IsHMPRearmActive p (GetTipHeight t)"
  shows "GetElderSet t a True = GetElderSet t a False"
proof -
  have wf: "om_wf (m_records t ! nat a)" using assms(1,2) by (rule reachable_records_wf)
  have "backfill_loop t a (GetTipHeight t) (effMinBlocks t (GetTipHeight t)) pks (organic_elders t a) = organic_elders t a" for pks
    by (rule backfill_loop_noop) (auto simp: elder_conditions [OF assms(2) wf])
  then show ?thesis using assms(3,4) by (simp add: GetElderSet_def Let_def)
qed

lemma reachable_high_ex:
  "tracker_reachable (BlockConnected 150000 0 (key_ex 1) [] [] (- 1) (new_tracker (mainnet [] [] [] [] [] [])))"
  by (intro tracker_reachable.intros) (simp_all add: GetTipHeight_def new_tracker_def)

theorem backfill_noop_after_rearm_witness:
  "GetElderSet (BlockConnected 150000 0 (key_ex 1) [] [] (- 1) (new_tracker (mainnet [] [] [] [] [] []))) 0 True =
   GetElderSet (BlockConnected 150000 0 (key_ex 1) [] [] (- 1) (new_tracker (mainnet [] [] [] [] [] []))) 0 False"
  by (rule backfill_noop_after_rearm [OF reachable_high_ex])
    (auto simp: valid_algo_def NUM_ALGOS_def new_tracker_def GetTipHeight_def BlockConnected_windows
      IsHMPRearmActive_def mainnet_def)

section \<open>Effective weight\<close>

definition total_solved :: "'k::linorder records \<Rightarrow> int \<Rightarrow> int" where
  "total_solved recs a = (\<Sum>e \<leftarrow> recs ! nat a. blocks_solved (snd e))"

lemma sum_om_set:
  "om_wf m \<Longrightarrow> (\<Sum>e \<leftarrow> om_set k v m. g (snd e)) =
     (\<Sum>e \<leftarrow> m. g (snd e)) + g v - (case om_find m k of None \<Rightarrow> 0 | Some r \<Rightarrow> g r)" for g :: "'v \<Rightarrow> int"
proof (induction k v m rule: om_set.induct)
  case (2 k v k' v' m)
  then show ?case
    by (auto simp: om_find_def om_wf_Cons split: option.splits dest!: map_of_SomeD)
qed simp

lemma total_solved_upd:
  assumes "records_wf recs" "valid_algo a" "valid_algo b"
  shows "total_solved (upd_record b k f recs) a =
         total_solved recs a + (if a = b then blocks_solved (f (record_of recs b k)) - blocks_solved (record_of recs b k) else 0)"
proof -
  have ne: "a \<noteq> b \<Longrightarrow> nat a \<noteq> nat b" using assms(2,3) by (auto simp: valid_algo_def)
  have "blocks_solved empty_record = 0" by (simp add: empty_record_def)
  then show ?thesis
    using records_wf_nth [OF assms(1,3)] ne
    by (cases "a = b") (auto simp: total_solved_def upd_record_def om_upd_def sum_om_set record_of_def split: option.splits)
qed

lemma total_solved_seal_fold:
  "records_wf recs \<Longrightarrow> valid_algo a \<Longrightarrow> total_solved (fold (seal_step e) is recs) a = total_solved recs a"
proof (induction "is" arbitrary: recs)
  case (Cons i "is")
  have "total_solved (seal_step e i recs) a = total_solved recs a"
    using Cons.prems total_solved_upd [of recs a "signer_algo e i"]
    by (auto simp: seal_step_def Let_def valid_algo_def seal_credit_def)
  then show ?case using Cons by simp
qed simp

lemma total_solved_rebuild:
  assumes "valid_algo a"
  shows "total_solved (rebuild_records w) a = int (length (filter (\<lambda>e. we_algo e = a \<and> IsValid (we_minerPubKey e)) w))"
proof (induction w rule: rev_induct)
  case Nil
  have "nat a < nat NUM_ALGOS" using assms by (auto simp: valid_algo_def)
  then show ?case by (simp add: total_solved_def rebuild_records_def empty_records_def)
next
  case (snoc e w)
  then show ?case
    using assms total_solved_upd [OF records_wf_rebuild assms, of "we_algo e" "we_minerPubKey e" _ w]
    by (auto simp: rebuild_snoc credit_entry_def total_solved_seal_fold valid_algo_def miner_rebuild_def)
qed

lemma unat_fold_weight:
  assumes "\<And>e. e \<in> set m \<Longrightarrow> 0 \<le> blocks_solved (snd e)"
  shows "int (unat w) + (\<Sum>e \<leftarrow> m. blocks_solved (snd e)) < 2 ^ 32 \<Longrightarrow>
    int (unat (fold (\<lambda>e w. w + word_of_int (blocks_solved (snd e))) m w)) = int (unat (w :: 32 word)) + (\<Sum>e \<leftarrow> m. blocks_solved (snd e))"
  using assms
proof (induction m arbitrary: w)
  case (Cons e m)
  let ?x = "blocks_solved (snd e)"
  have x: "0 \<le> ?x" "0 \<le> (\<Sum>e \<leftarrow> m. blocks_solved (snd e))"
    using Cons.prems(2) by (simp, intro sum_list_nonneg) (use Cons.prems(2) in force)
  have P: "uint w + (?x + (\<Sum>e \<leftarrow> m. blocks_solved (snd e))) < 4294967296" using Cons.prems(1) by simp
  have u: "uint (word_of_int ?x :: 32 word) = ?x"
  proof -
    have "?x < 4294967296" using x P unsigned_greater_eq [of w, where ?'a = int] by linarith
    then show ?thesis using x by (simp add: unsigned_of_int take_bit_int_eq_self)
  qed
  have "uint (w + word_of_int ?x) = uint w + ?x"
    using x P unsigned_greater_eq [of w, where ?'a = int] by (simp add: uint_word_ariths u)
  then have "int (unat (w + word_of_int ?x)) = int (unat w) + ?x" by simp
  then show ?case using Cons x by simp
qed simp

lemma rebuild_solved_nonneg: "all_records (\<lambda>r. 0 \<le> blocks_solved r) (rebuild_records w)"
proof (induction w rule: rev_induct)
  case Nil
  show ?case by (simp add: rebuild_records_def all_records_empty)
next
  case (snoc e w)
  then show ?case unfolding rebuild_snoc
    by (intro all_records_credit) (auto simp: miner_rebuild_def seal_credit_def empty_record_def)
qed

lemma unat_min: "unat (min x y) = min (unat x) (unat y)" for x y :: "32 word"
  by (simp add: min_def word_le_nat_alt)

text \<open>
  In a reachable tracker the effective weight is the key's share of the window's
  solved blocks in basis points, capped at 2500; the 32-bit arithmetic never wraps.
\<close>

theorem effective_weight_value:
  assumes "tracker_reachable t" "valid_algo a" "IsValid pk" "m_windowSize t \<le> 400000"
  shows "unat (GetEffectiveWeight t pk a) =
    min 2500 (10000 * length (filter (\<lambda>e. solves e a pk) (m_window t)) div
              length (filter (\<lambda>e. we_algo e = a \<and> IsValid (we_minerPubKey e)) (m_window t)))"
proof -
  have inv: "tracker_inv t" using assms(1) by (rule tracker_reachable_inv)
  define mine where "mine = length (filter (\<lambda>e. solves e a pk) (m_window t))"
  define total where "total = length (filter (\<lambda>e. we_algo e = a \<and> IsValid (we_minerPubKey e)) (m_window t))"
  have recs: "m_records t = rebuild_records (m_window t)" using inv by (simp add: tracker_inv_def)
  have len: "length (m_window t) \<le> 400000" using inv assms(4) by (auto simp: tracker_inv_def)
  have mt: "mine \<le> total" unfolding mine_def total_def
    using assms(3) by (auto simp: solves_def length_filter_conv_card intro!: card_mono)
  have tb: "total \<le> 400000" unfolding total_def using len length_filter_le le_trans by blast
  have m: "blocks_solved (record_of (m_records t) a pk) = int mine"
    unfolding recs mine_def by (rule rebuild_counts(1) [OF assms(2,3)])
  show ?thesis
    unfolding mine_def [symmetric] total_def [symmetric]
  proof (cases "om_find (m_records t ! nat a) pk")
    case None
    then have "mine = 0" using m by (simp add: record_of_def empty_record_def)
    then show "unat (GetEffectiveWeight t pk a) = min 2500 (10000 * mine div total)"
      using None by (simp add: GetEffectiveWeight_def)
  next
    case (Some r)
    let ?tot = "fold (\<lambda>e w. w + word_of_int (blocks_solved (snd e))) (m_records t ! nat a) 0 :: 32 word"
    have nonneg: "0 \<le> blocks_solved (snd e)" if "e \<in> set (m_records t ! nat a)" for e
      using rebuild_solved_nonneg [of "m_window t"] records_wf_nth [OF records_wf_rebuild assms(2), of "m_window t"] that
      by (force simp: all_records_def recs)
    have "int (unat ?tot) = total_solved (m_records t) a"
      using unat_fold_weight [of "m_records t ! nat a" 0] nonneg tb total_solved_rebuild [OF assms(2), of "m_window t"]
      by (simp add: total_solved_def recs total_def)
    then have "int (unat ?tot) = int total" by (simp only: recs total_solved_rebuild [OF assms(2)] total_def)
    then have tot: "unat ?tot = total" by (simp only: of_nat_eq_iff)
    have my: "unat (word_of_int (blocks_solved r) :: 32 word) = mine"
      using m Some mt tb by (simp add: record_of_def unsigned_of_int take_bit_int_eq_self unsigned_of_nat take_bit_nat_eq_self)
    show "unat (GetEffectiveWeight t pk a) = min 2500 (10000 * mine div total)"
    proof (cases "total = 0")
      case True
      then have "?tot = 0" using tot by (simp add: unat_eq_0)
      then show ?thesis using True Some assms(2) by (simp add: GetEffectiveWeight_def Let_def valid_algo_def)
    next
      case False
      then have nz: "?tot \<noteq> 0" using tot by auto
      have "unat (word_of_int (blocks_solved r) * 10000 :: 32 word) = mine * 10000"
        using my mt tb by (simp add: unat_word_ariths)
      then have "unat (min ((word_of_int (blocks_solved r) * 10000) div ?tot) 2500) = min 2500 (10000 * mine div total)"
        using tot by (simp add: unat_min unat_div_distrib min.commute mult.commute)
      then show ?thesis using nz Some assms(2) by (auto simp: GetEffectiveWeight_def Let_def valid_algo_def)
    qed
  qed
qed

theorem effective_weight_value_witness:
  "unat (GetEffectiveWeight tracker_ex (key_ex 1) 0) =
    min 2500 (10000 * length (filter (\<lambda>e. solves e 0 (key_ex 1)) (m_window tracker_ex)) div
              length (filter (\<lambda>e. we_algo e = 0 \<and> IsValid (we_minerPubKey e)) (m_window tracker_ex)))"
  by (rule effective_weight_value [OF tracker_ex_reachable])
    (simp_all add: valid_algo_def NUM_ALGOS_def tracker_ex_def new_tracker_def mainnet_def)

section \<open>Arming\<close>

text \<open>
  negative-proof penalties can be armed for an algorithm only while at least three
  organic Elders exist there and at least 45 percent of its recent blocks are covered by
  verified seals, in the 100-block or the 400-block window.
\<close>

theorem penalty_arming_needs_participation:
  assumes "IsPenaltyArmed t a"
  defines "blocks100 \<equiv> int (length (filter (\<lambda>e. we_algo e = a) (m_window t)))"
    and "sealed100 \<equiv> int (length (filter (\<lambda>e. we_sealedAlgo e = a) (m_window t)))"
    and "blocks400 \<equiv> int (length (filter (\<lambda>e. sl_algo e = a) (m_sealLong t)))"
    and "sealed400 \<equiv> int (length (filter (\<lambda>e. sl_sealedAlgo e = a) (m_sealLong t)))"
  shows "valid_algo a \<and> 3 \<le> length (GetElderSet t a False) \<and>
    (0 < blocks100 \<and> 45 * blocks100 \<le> 100 * sealed100 \<or> 0 < blocks400 \<and> 45 * blocks400 \<le> 100 * sealed400)"
proof -
  note d = assms(1) [unfolded IsPenaltyArmed_def Let_def ARM_FRAC_PCT_def ARM_MIN_SEALED_def ARM_MIN_ELDERS_def
      ARM_MIN_DIVERSITY_def HOLD_FRAC_PCT_def HOLD_MIN_ELDERS_def]
  have v: "\<not> (a < 0 \<or> a \<ge> NUM_ALGOS)" using d by (auto split: if_splits)
  have "3 \<le> length (GetElderSet t a False)" using d by (auto split: if_splits)
  moreover have "0 < blocks100 \<and> sealed100 * 100 \<ge> blocks100 * 60 \<or> 0 < blocks400 \<and> sealed400 * 100 \<ge> blocks400 * 45"
    using d v unfolding blocks100_def [symmetric] sealed100_def [symmetric] blocks400_def [symmetric] sealed400_def [symmetric]
    by (simp only: if_False split: if_splits) blast+
  then have "0 < blocks100 \<and> 45 * blocks100 \<le> 100 * sealed100 \<or> 0 < blocks400 \<and> 45 * blocks400 \<le> 100 * sealed400"
    by (elim disjE) simp_all
  ultimately show ?thesis using v by (auto simp: valid_algo_def)
qed

definition armed_ex :: "nat CHMPPrivilegeTracker" where
  "armed_ex =
     (let r = \<lparr>blocks_solved = 10, seal_participations = 1, first_seen_height = 0, last_active_height = 50\<rparr>
      in default_tracker\<lparr>m_window := [entry_ex 100], m_sealLong := [\<lparr>sl_height = 100, sl_algo = 0, sl_sealedAlgo = 0\<rparr>],
           m_records := [[(key_ex 1, r), (key_ex 2, r), (key_ex 3, r)], [], [], []]\<rparr>)"

lemma armed_ex_armed: "IsPenaltyArmed armed_ex 0"
  by (simp add: IsPenaltyArmed_def armed_ex_def Let_def default_tracker_def GetElderSet_def organic_elders_def
      GetTipHeight_def effMinBlocks_def past_warmup_def entry_ex_def NUM_ALGOS_def HOLD_MIN_ELDERS_def HOLD_FRAC_PCT_def)

theorem penalty_arming_needs_participation_witness:
  "valid_algo 0 \<and> 3 \<le> length (GetElderSet armed_ex 0 False) \<and>
    (0 < int (length (filter (\<lambda>e. we_algo e = 0) (m_window armed_ex))) \<and>
     45 * int (length (filter (\<lambda>e. we_algo e = 0) (m_window armed_ex))) \<le>
       100 * int (length (filter (\<lambda>e. we_sealedAlgo e = 0) (m_window armed_ex))) \<or>
     0 < int (length (filter (\<lambda>e. sl_algo e = 0) (m_sealLong armed_ex))) \<and>
     45 * int (length (filter (\<lambda>e. sl_algo e = 0) (m_sealLong armed_ex))) \<le>
       100 * int (length (filter (\<lambda>e. sl_sealedAlgo e = 0) (m_sealLong armed_ex))))"
  by (rule penalty_arming_needs_participation [OF armed_ex_armed])

end
