(* ===== verification/Hmp_Weight.thy ===== *)
theory Hmp_Weight
  imports Hmp_Privilege
begin

text \<open>
  \<^verbatim>\<open>hmp/chain_weight.cpp\<close>, \<^verbatim>\<open>hmp/negative_proof.cpp\<close> and \<^verbatim>\<open>hmp/vrf.cpp\<close>: the weight of
  a seal in basis points, the penalties for missing elders and for strangers, and
  the committee selection.  All counts are sizes of signer lists, so the 64-bit
  products of the source cannot wrap and are naturals here.
\<close>

unbundle bit_operations_syntax

section \<open>Committee selection\<close>

definition HMP_VRF_BASE_THRESHOLD :: int where "HMP_VRF_BASE_THRESHOLD = 200"
definition HMP_VRF_BROOD_MULTIPLIER :: int where "HMP_VRF_BROOD_MULTIPLIER = 4"
definition HMP_VRF_ELDER_MULTIPLIER :: int where "HMP_VRF_ELDER_MULTIPLIER = 3"
definition HMP_VRF_NEW_MULTIPLIER :: int where "HMP_VRF_NEW_MULTIPLIER = 1"

text \<open>
  The double hash of a byte string, the serialisation of a signature and the BLS
  operations are parameters.
\<close>

definition ComputeVRFInput :: "(8 word list \<Rightarrow> uint256) \<Rightarrow> uint256 \<Rightarrow> uint256 \<Rightarrow> uint256" where
  "ComputeVRFInput hash blockHash prevSealHash =
     hash (map (of_nat \<circ> of_char) ''HMP-VRF'' @ blockHash @ prevSealHash)"

definition ComputeVRF ::
  "(8 word list \<Rightarrow> uint256) \<Rightarrow> ('sk \<Rightarrow> uint256 \<Rightarrow> 's CBLSSignature) \<Rightarrow> 'sk \<Rightarrow> uint256 \<Rightarrow> uint256 \<Rightarrow> 's CBLSSignature" where
  "ComputeVRF hash Sign sk blockHash prevSealHash = Sign sk (ComputeVRFInput hash blockHash prevSealHash)"

definition VerifyVRF ::
  "(8 word list \<Rightarrow> uint256) \<Rightarrow> ('s CBLSSignature \<Rightarrow> 'k CBLSPublicKey \<Rightarrow> uint256 \<Rightarrow> bool) \<Rightarrow>
   'k CBLSPublicKey \<Rightarrow> uint256 \<Rightarrow> uint256 \<Rightarrow> 's CBLSSignature \<Rightarrow> bool" where
  "VerifyVRF hash VerifyInsecure pk blockHash prevSealHash vrfProof =
     (if \<not> IsValid pk \<or> \<not> IsValid vrfProof then False
      else VerifyInsecure vrfProof pk (ComputeVRFInput hash blockHash prevSealHash))"

definition VRFOutputHash :: "(8 word list \<Rightarrow> uint256) \<Rightarrow> ('s CBLSSignature \<Rightarrow> 8 word list) \<Rightarrow> 's CBLSSignature \<Rightarrow> uint256" where
  "VRFOutputHash hash ser vrfProof = hash (ser vrfProof)"

definition ReadLE64 :: "8 word list \<Rightarrow> 64 word" where
  "ReadLE64 p = fold (\<lambda>i x. x OR push_bit (8 * i) (ucast (p ! i))) [0..<8] 0"

definition IsVRFSelected :: "uint256 \<Rightarrow> int \<Rightarrow> int \<Rightarrow> bool" where
  "IsVRFSelected vrfHash tierMultiplier baseThreshold =
     (let v = ReadLE64 vrfHash;
          effectiveThreshold = baseThreshold * tierMultiplier;
          effectiveThreshold = (if effectiveThreshold > 1000 then 1000 else effectiveThreshold)
      in v mod 1000 < (word_of_int effectiveThreshold :: 64 word))"

definition GetVRFTierMultiplier :: "HMPPrivilegeTier \<Rightarrow> int" where
  "GetVRFTierMultiplier tier =
     (case tier of
        BROOD \<Rightarrow> HMP_VRF_BROOD_MULTIPLIER
      | ELDER \<Rightarrow> HMP_VRF_ELDER_MULTIPLIER
      | NEW \<Rightarrow> HMP_VRF_NEW_MULTIPLIER
      | UNKNOWN \<Rightarrow> 0)"

section \<open>The seal multiplier\<close>

definition GetRequiredAgreement :: "int \<Rightarrow> nat" where
  "GetRequiredAgreement totalElders =
     (if totalElders \<le> 1 then 0
      else if totalElders \<le> 2 then 100
      else if totalElders = 3 then 66
      else if totalElders \<le> 5 then 75
      else 80)"

definition required_count :: "nat \<Rightarrow> nat" where
  "required_count elderCount =
     (let requiredPct = GetRequiredAgreement (int elderCount);
          requiredCount = (elderCount * requiredPct + 99) div 100
      in if requiredCount = 0 then 1 else requiredCount)"

definition base_multiplier :: "nat \<Rightarrow> nat \<Rightarrow> nat" where
  "base_multiplier eldersPresent elderCount =
     (let requiredCount = required_count elderCount in
      if eldersPresent \<ge> elderCount then min (15000 + (eldersPresent * 3000) div elderCount) 18000
      else if eldersPresent \<ge> requiredCount then
        (let above = eldersPresent - requiredCount; range = elderCount - requiredCount
         in if range = 0 then 15000 else 12000 + (above * 3000) div range)
      else 10000)"

text \<open>\<^verbatim>\<open>size()\<close> of the signer positions that pass a test.\<close>

definition elders_present :: "'k CBLSPublicKey list \<Rightarrow> 8 word list \<Rightarrow> int \<Rightarrow> 'k CBLSPublicKey list \<Rightarrow> nat" where
  "elders_present signerPubKeys signerAlgos blockAlgo elderSet =
     length (filter (\<lambda>(pk, a). pk \<in> set elderSet \<and> a = word_of_int blockAlgo) (zip signerPubKeys signerAlgos))"

definition tier_algos ::
  "('k::linorder CBLSPublicKey \<Rightarrow> 'b option \<Rightarrow> bool) option \<Rightarrow> 'k CHMPPrivilegeTracker \<Rightarrow> 'b option \<Rightarrow> HMPPrivilegeTier \<Rightarrow>
   'k CBLSPublicKey list \<Rightarrow> 8 word list \<Rightarrow> 8 word list" where
  "tier_algos mnLookup privilege pindex minTier signerPubKeys signerAlgos =
     remdups (map snd (filter (\<lambda>(pk, a). GetTier mnLookup privilege pk (uint a) pindex \<ge> minTier)
       (zip signerPubKeys signerAlgos)))"

definition ComputeSealMultiplier ::
  "('k::linorder CBLSPublicKey \<Rightarrow> 'b option \<Rightarrow> bool) option \<Rightarrow> 'k CBLSPublicKey list \<Rightarrow> 8 word list \<Rightarrow> int \<Rightarrow>
   ('k CHMPPrivilegeTracker) option \<Rightarrow> 'b option \<Rightarrow> nat" where
  "ComputeSealMultiplier mnLookup signerPubKeys signerAlgos blockAlgo privilege pindex =
     (case privilege of
        None \<Rightarrow> 10000
      | Some p \<Rightarrow>
          if signerPubKeys = [] then 10000
          else if length signerPubKeys \<noteq> length signerAlgos then 10000
          else let totalElders = sum_list (map (\<lambda>a. length (GetElderSet p (int a) True)) [0..<nat NUM_ALGOS]) in
            if totalElders = 0 then 10000
            else let elderSet = GetElderSet p blockAlgo True; elderCount = length elderSet in
              if elderCount \<le> 1 then 10000
              else
                let eldersPresent = elders_present signerPubKeys signerAlgos blockAlgo elderSet;
                    baseMult = base_multiplier eldersPresent elderCount;
                    elderAlgos = removeAll (word_of_int blockAlgo) (tier_algos mnLookup p pindex ELDER signerPubKeys signerAlgos);
                    broodAlgos = tier_algos mnLookup p pindex BROOD signerPubKeys signerAlgos;
                    crossAlgoBonus = min (length elderAlgos * 500) 1500;
                    broodBonus = min (length broodAlgos * 300) 1200
                in baseMult + crossAlgoBonus + broodBonus)"

section \<open>Penalties\<close>

definition all_privileged :: "'k::linorder CHMPPrivilegeTracker \<Rightarrow> 'k CBLSPublicKey list" where
  "all_privileged p = concat (map (\<lambda>a. GetPrivilegedSet p (int a)) [0..<nat NUM_ALGOS])"

definition unknown_signers :: "'k::linorder CHMPPrivilegeTracker \<Rightarrow> 'k CBLSPublicKey list \<Rightarrow> nat" where
  "unknown_signers p signerPubKeys = length (filter (\<lambda>pk. pk \<notin> set (all_privileged p)) signerPubKeys)"

text \<open>
  The elder loop looks at every position \<open>i\<close> of the signer list that also has an
  algorithm, and stops at the first match.
\<close>

definition elders_seen :: "'k CBLSPublicKey list \<Rightarrow> 8 word list \<Rightarrow> int \<Rightarrow> 'k CBLSPublicKey list \<Rightarrow> nat" where
  "elders_seen signerPubKeys signerAlgos blockAlgo elders =
     length (filter (\<lambda>elder. (elder, word_of_int blockAlgo) \<in> set (zip signerPubKeys signerAlgos)) elders)"

definition penalty_ladder :: "nat \<Rightarrow> nat \<Rightarrow> nat \<Rightarrow> nat \<Rightarrow> nat" where
  "penalty_ladder elderCount presentBps requiredBps unknownBps =
     (if unknownBps > 5000 then 1000
      else if requiredBps = 0 \<or> presentBps \<ge> requiredBps then
        (if unknownBps > 3000 \<and> elderCount \<ge> 4 then max (10000 - unknownBps) 5000 else 10000)
      else if presentBps < 5000 then 1000
      else let range = requiredBps - 5000 in
        if range = 0 then 10000
        else let above = presentBps - 5000; penalty = 5000 + (above * 5000) div range in min penalty 10000)"

definition EvaluateNegativeProof ::
  "'k::linorder CBLSPublicKey list \<Rightarrow> 8 word list \<Rightarrow> int \<Rightarrow> ('k CHMPPrivilegeTracker) option \<Rightarrow> nat" where
  "EvaluateNegativeProof signerPubKeys signerAlgos blockAlgo privilege =
     (case privilege of
        None \<Rightarrow> 10000
      | Some p \<Rightarrow>
          let elders = GetElderSet p blockAlgo True in
          if elders = [] then 10000
          else let elderCount = length elders; requiredPct = GetRequiredAgreement (int elderCount) in
            if requiredPct = 0 then 10000
            else
              let present = elders_seen signerPubKeys signerAlgos blockAlgo elders;
                  unknownSigners = unknown_signers p signerPubKeys;
                  presentBps = (present * 10000) div elderCount;
                  requiredBps = requiredPct * 100;
                  unknownBps = (if signerPubKeys = [] then 0 else (unknownSigners * 10000) div length signerPubKeys)
              in penalty_ladder elderCount presentBps requiredBps unknownBps)"

definition EvaluateMannequinPenalty :: "'k::linorder CBLSPublicKey list \<Rightarrow> ('k CHMPPrivilegeTracker) option \<Rightarrow> nat" where
  "EvaluateMannequinPenalty signerPubKeys privilege =
     (case privilege of
        None \<Rightarrow> 10000
      | Some p \<Rightarrow>
          if signerPubKeys = [] then 10000
          else if (unknown_signers p signerPubKeys * 10000) div length signerPubKeys > 5000 then 1000 else 10000)"

section \<open>Properties of the multiplier\<close>

lemma base_multiplier_full: "0 < n \<Longrightarrow> n \<le> p \<Longrightarrow> base_multiplier p n = 18000"
proof -
  assume n: "0 < n" "n \<le> p"
  then have "3000 \<le> p * 3000 div n" by (simp add: less_eq_div_iff_mult_less_eq)
  then show ?thesis using n by (simp add: base_multiplier_def Let_def)
qed

lemma interpolate_le: "a < r \<Longrightarrow> a * c div r \<le> (c::nat)"
  by (metis div_le_mono div_mult_self1_is_m gr_implies_not0 less_or_eq_imp_le mult_le_mono1 not_gr_zero)

lemma base_multiplier_bounds: "0 < n \<Longrightarrow> 10000 \<le> base_multiplier p n \<and> base_multiplier p n \<le> 18000"
  and base_multiplier_partial: "p < n \<Longrightarrow> base_multiplier p n \<le> 15000"
proof -
  show part: "base_multiplier p n \<le> 15000" if "p < n" for p
    using that interpolate_le [of "p - required_count n" "n - required_count n" 3000]
    by (auto simp: base_multiplier_def Let_def)
  show "10000 \<le> base_multiplier p n \<and> base_multiplier p n \<le> 18000" if "0 < n"
  proof (cases "p < n")
    case True
    then show ?thesis using part [OF True] by (simp add: base_multiplier_def Let_def)
  qed (use that base_multiplier_full in simp)
qed

lemma base_multiplier_mono:
  assumes "0 < n" "p \<le> q"
  shows "base_multiplier p n \<le> base_multiplier q n"
proof (cases "q < n")
  case True
  then have "p < n" using assms(2) by simp
  then show ?thesis using True assms(2)
    by (auto simp: base_multiplier_def Let_def intro!: div_le_mono)
next
  case False
  then show ?thesis using base_multiplier_full [OF assms(1), of q] base_multiplier_bounds [OF assms(1)] by simp
qed

lemma length_tier_algos:
  "length (tier_algos l p i t ks as) =
     card (snd ` {x \<in> set (zip ks as). GetTier l p (fst x) (uint (snd x)) i \<ge> t})"
  by (simp add: tier_algos_def length_remdups_card_conv case_prod_beta)

lemma length_tier_algos_other:
  "length (removeAll x (tier_algos l p i t ks as)) =
     card (snd ` {x \<in> set (zip ks as). GetTier l p (fst x) (uint (snd x)) i \<ge> t} - {x})"
proof -
  have "removeAll x (remdups xs) = remdups (removeAll x xs)" for xs :: "8 word list"
    by (simp add: removeAll_filter_not_eq remdups_filter)
  then show ?thesis by (simp add: tier_algos_def length_remdups_card_conv case_prod_beta)
qed

lemma tier_algos_append_mono:
  assumes "length ks = length as"
  shows "length (tier_algos l p i t ks as) \<le> length (tier_algos l p i t (ks @ ks') (as @ as'))"
    and "length (removeAll x (tier_algos l p i t ks as)) \<le> length (removeAll x (tier_algos l p i t (ks @ ks') (as @ as')))"
  unfolding length_tier_algos length_tier_algos_other using assms
  by (auto intro!: card_mono simp: zip_append)

definition seal_bonus ::
  "('k::linorder CBLSPublicKey \<Rightarrow> 'b option \<Rightarrow> bool) option \<Rightarrow> 'k CBLSPublicKey list \<Rightarrow> 8 word list \<Rightarrow> int \<Rightarrow>
   'k CHMPPrivilegeTracker \<Rightarrow> 'b option \<Rightarrow> nat" where
  "seal_bonus l ks as a t i =
     min (length (removeAll (word_of_int a) (tier_algos l t i ELDER ks as)) * 500) 1500 +
     min (length (tier_algos l t i BROOD ks as) * 300) 1200"

definition sealing_on :: "'k::linorder CHMPPrivilegeTracker \<Rightarrow> int \<Rightarrow> bool" where
  "sealing_on t a = (length (GetElderSet t a True) > 1 \<and>
     sum_list (map (\<lambda>a. length (GetElderSet t (int a) True)) [0..<nat NUM_ALGOS]) \<noteq> 0)"

lemma sealing_on_pos: "sealing_on t a \<Longrightarrow> 0 < length (GetElderSet t a True)"
  by (cases "GetElderSet t a True") (simp_all add: sealing_on_def)

lemma ComputeSealMultiplier_eq:
  "ComputeSealMultiplier l ks as a (Some t) i =
     (if ks \<noteq> [] \<and> length ks = length as \<and> sealing_on t a
      then base_multiplier (elders_present ks as a (GetElderSet t a True)) (length (GetElderSet t a True)) +
        seal_bonus l ks as a t i
      else 10000)"
  by (auto simp: ComputeSealMultiplier_def Let_def sealing_on_def seal_bonus_def)

lemma seal_bonus_mono:
  assumes "length ks = length as"
  shows "seal_bonus l ks as a t i \<le> seal_bonus l (ks @ ks') (as @ as') a t i"
  unfolding seal_bonus_def
  by (intro add_mono min.mono mult_le_mono1 tier_algos_append_mono assms order_refl)

lemma elders_present_mono:
  "length ks = length as \<Longrightarrow> elders_present ks as a es \<le> elders_present (ks @ ks') (as @ as') a es"
  by (simp add: elders_present_def)

text \<open>
  C37: a seal multiplier lies between 1.0x and 2.07x: 10000 is the floor of every
  branch, 18000 the base for full elder presence, 1500 and 1200 the two bonuses.
  The multiplier never falls when further signers are appended to a seal.
\<close>

theorem seal_multiplier_bounds_mono:
  assumes "length ks = length as"
  shows "10000 \<le> ComputeSealMultiplier l ks as a p i \<and>
    ComputeSealMultiplier l (ks @ ks') (as @ as') a p i \<le> 20700 \<and>
    (length ks' = length as' \<longrightarrow>
      ComputeSealMultiplier l ks as a p i \<le> ComputeSealMultiplier l (ks @ ks') (as @ as') a p i)"
proof (cases p)
  case (Some t)
  let ?n = "length (GetElderSet t a True)"
  have b: "10000 \<le> base_multiplier m ?n" "base_multiplier m ?n \<le> 18000" if "sealing_on t a" for m
    using base_multiplier_bounds [OF sealing_on_pos [OF that]] by blast+
  have "seal_bonus l ks as a t i \<le> 2700" for ks as by (simp add: seal_bonus_def min_def)
  moreover have "base_multiplier (elders_present ks as a (GetElderSet t a True)) ?n \<le>
      base_multiplier (elders_present (ks @ ks') (as @ as') a (GetElderSet t a True)) ?n" if "sealing_on t a"
    by (rule base_multiplier_mono [OF sealing_on_pos [OF that] elders_present_mono [OF assms]])
  ultimately have "sealing_on t a \<Longrightarrow> base_multiplier (elders_present ks as a (GetElderSet t a True)) ?n + seal_bonus l ks as a t i \<le>
      base_multiplier (elders_present (ks @ ks') (as @ as') a (GetElderSet t a True)) ?n + seal_bonus l (ks @ ks') (as @ as') a t i"
    "\<And>m. sealing_on t a \<Longrightarrow> base_multiplier m ?n + seal_bonus l (ks @ ks') (as @ as') a t i \<le> 20700"
    using b seal_bonus_mono [OF assms] by (meson add_mono, fastforce dest: b(2) intro: order_trans [OF add_mono])
  then show ?thesis
    unfolding Some ComputeSealMultiplier_eq
    using assms b by (auto intro: trans_le_add1)
qed (simp add: ComputeSealMultiplier_def)


text \<open>
  Two elders on algorithm 0 and one on each other algorithm, all long past the
  warm-up and all registered as operators.
\<close>

definition seal_tracker :: "nat CHMPPrivilegeTracker" where
  "seal_tracker = default_tracker\<lparr>
     m_window := [\<lparr>we_height = 50, we_algo = 0, we_minerPubKey = key_ex 1, we_sealSigners = [], we_signerAlgos = [],
                   we_sealedAlgo = - 1\<rparr>],
     m_records := map (\<lambda>ks. map (\<lambda>k. (key_ex k, \<lparr>blocks_solved = 9, seal_participations = 3,
         first_seen_height = 1, last_active_height = 40\<rparr>)) ks) [[1, 2], [3], [4], [5]]\<rparr>"

definition seal_signers :: "nat CBLSPublicKey list" where
  "seal_signers = map key_ex [1, 2, 3, 4, 5]"

lemma seal_tracker_elders:
  "length (GetElderSet seal_tracker 0 True) = 2"
  "sum_list (map (\<lambda>a. length (GetElderSet seal_tracker (int a) True)) [0..<nat NUM_ALGOS]) = 5"
  "elders_present (take 2 seal_signers @ drop 2 seal_signers) ([0, 0] @ [1, 2, 3]) 0 (GetElderSet seal_tracker 0 True) = 2"
  by code_simp+

lemma seal_tracker_tiers:
  "length (removeAll (word_of_int 0) (tier_algos (Some (\<lambda>k (i :: unit option). True)) seal_tracker None ELDER
     (take 2 seal_signers @ drop 2 seal_signers) ([0, 0] @ [1, 2, 3]))) = 3"
  "length (tier_algos (Some (\<lambda>k (i :: unit option). True)) seal_tracker None BROOD
     (take 2 seal_signers @ drop 2 seal_signers) ([0, 0] @ [1, 2, 3])) = 4"
  by code_simp+

theorem seal_multiplier_bounds_mono_witness:
  "ComputeSealMultiplier (Some (\<lambda>k (i :: unit option). True)) (take 2 seal_signers @ drop 2 seal_signers)
     ([0, 0] @ [1, 2, 3]) 0 (Some seal_tracker) None = 20700 \<and>
   ComputeSealMultiplier (Some (\<lambda>k (i :: unit option). True)) (take 2 seal_signers) [0, 0] 0 (Some seal_tracker) None \<le>
   ComputeSealMultiplier (Some (\<lambda>k (i :: unit option). True)) (take 2 seal_signers @ drop 2 seal_signers)
     ([0, 0] @ [1, 2, 3]) 0 (Some seal_tracker) None"
proof
  show "ComputeSealMultiplier (Some (\<lambda>k (i :: unit option). True)) (take 2 seal_signers @ drop 2 seal_signers)
     ([0, 0] @ [1, 2, 3]) 0 (Some seal_tracker) None = 20700"
    using seal_tracker_elders seal_tracker_tiers
    by (simp add: ComputeSealMultiplier_eq seal_bonus_def sealing_on_def base_multiplier_full) (simp add: seal_signers_def)
  show "ComputeSealMultiplier (Some (\<lambda>k (i :: unit option). True)) (take 2 seal_signers) [0, 0] 0 (Some seal_tracker) None \<le>
   ComputeSealMultiplier (Some (\<lambda>k (i :: unit option). True)) (take 2 seal_signers @ drop 2 seal_signers)
     ([0, 0] @ [1, 2, 3]) 0 (Some seal_tracker) None"
    using seal_multiplier_bounds_mono [of "take 2 seal_signers" "[0, 0]" "Some (\<lambda>k (i :: unit option). True)" 0
      "Some seal_tracker" None "drop 2 seal_signers" "[1, 2, 3]"]
    by (simp add: seal_signers_def)
qed

section \<open>Properties of the penalties\<close>

lemma penalty_ladder_range:
  assumes "5000 < r" "u \<le> 10000"
  shows "(penalty_ladder n p r u = 1000 \<longleftrightarrow> 5000 < u \<or> p < 5000) \<and>
    (penalty_ladder n p r u = 1000 \<or> 5000 \<le> penalty_ladder n p r u) \<and> penalty_ladder n p r u \<le> 10000"
  using assms by (auto simp: penalty_ladder_def Let_def)

lemma half_bps: "0 < n \<Longrightarrow> p * 10000 div n < 5000 \<longleftrightarrow> 2 * p < (n::nat)"
  by (simp add: div_less_iff_less_mult)

lemma unknown_bps_le: "unknown_signers t ks * 10000 div length ks \<le> 10000"
proof (cases "ks = []")
  case False
  have "unknown_signers t ks * 10000 \<le> 10000 * length ks" by (simp add: unknown_signers_def)
  then show ?thesis by (metis div_le_mono div_mult_self_is_m False length_greater_0_conv)
qed simp

text \<open>
  the negative proof is 0.1x exactly when more than half of the signers are
  strangers or fewer than half of the elders signed on the sealed algorithm, and
  otherwise lies between 0.5x and 1.0x; it is never a bonus.
\<close>

theorem negative_proof_range:
  assumes "elders = GetElderSet t a True" "2 \<le> length elders"
  shows "(EvaluateNegativeProof ks as a (Some t) = 1000 \<longleftrightarrow>
      5000 < unknown_signers t ks * 10000 div length ks \<or> 2 * elders_seen ks as a elders < length elders) \<and>
    (EvaluateNegativeProof ks as a (Some t) = 1000 \<or> 5000 \<le> EvaluateNegativeProof ks as a (Some t)) \<and>
    EvaluateNegativeProof ks as a (Some t) \<le> 10000"
proof -
  let ?n = "length elders" and ?u = "unknown_signers t ks * 10000 div length ks"
  have r: "5000 < GetRequiredAgreement (int ?n) * 100" using assms(2) by (auto simp: GetRequiredAgreement_def)
  have e: "EvaluateNegativeProof ks as a (Some t) =
      penalty_ladder ?n (elders_seen ks as a elders * 10000 div ?n) (GetRequiredAgreement (int ?n) * 100) ?u"
    using assms r by (auto simp: EvaluateNegativeProof_def Let_def)
  have "elders_seen ks as a elders * 10000 div ?n < 5000 \<longleftrightarrow> 2 * elders_seen ks as a elders < ?n"
    using assms(2) by (intro half_bps) (cases elders, simp_all)
  then show ?thesis
    unfolding e using penalty_ladder_range [OF r unknown_bps_le] by blast
qed

theorem negative_proof_range_witness:
  "EvaluateNegativeProof [key_ex 1, key_ex 9] [0, 0] 0 (Some seal_tracker) \<noteq> 1000 \<and>
   5000 \<le> EvaluateNegativeProof [key_ex 1, key_ex 9] [0, 0] 0 (Some seal_tracker)"
proof -
  have "GetElderSet seal_tracker 0 True = [key_ex 1, key_ex 2]" by code_simp
  moreover have "unknown_signers seal_tracker [key_ex 1, key_ex 9] = 1" by code_simp
  moreover have "elders_seen [key_ex 1, key_ex 9] [0, 0] 0 [key_ex 1, key_ex 2] = 1" by code_simp
  ultimately show ?thesis
    using negative_proof_range [of "[key_ex 1, key_ex 2]" seal_tracker 0 "[key_ex 1, key_ex 9]" "[0, 0]"]
    by (auto simp flip: numeral_2_eq_2)
qed


section \<open>Properties of the selection\<close>

lemma unat_push_byte64: "k \<le> 56 \<Longrightarrow> unat (push_bit k (ucast (b :: 8 word)) :: 64 word) = unat b * 2 ^ k"
proof -
  assume k: "k \<le> 56"
  have "unat b * 2 ^ k < 2 ^ 8 * 2 ^ 56"
    by (rule mult_less_le_imp_less) (use unat_lt_8 [of b] power_increasing [OF k, of "2::nat"] in auto)
  moreover have "unat (ucast b :: 64 word) = unat b"
    using unat_lt_8 [of b] by (simp add: unsigned_ucast_eq take_bit_nat_eq_self)
  ultimately show ?thesis
    by (simp only: unsigned_push_bit_eq) (simp add: push_bit_eq_mult take_bit_nat_eq_self)
qed

lemma bval_lt: "bval bs < 256 ^ length bs"
proof (induction bs)
  case (Cons b bs)
  have "unat b + 256 * bval bs < 256 * (bval bs + 1)" using unat_lt_8 [of b] by simp
  also have "\<dots> \<le> 256 * 256 ^ length bs" using Cons by (intro mult_le_mono2) simp
  finally show ?case by simp
qed simp

lemma unat_ReadLE64:
  assumes "8 \<le> length p"
  shows "unat (ReadLE64 p) = bval (take 8 p)"
proof -
  have "n \<le> 8 \<Longrightarrow> unat (fold (\<lambda>i x. x OR push_bit (8 * i) (ucast (p ! i))) [0..<n] (0 :: 64 word)) = bval (take n p)" for n
  proof (induction n)
    case (Suc n)
    have "unat (fold (\<lambda>i x. x OR push_bit (8 * i) (ucast (p ! i))) [0..<n] (0 :: 64 word)) < 2 ^ (8 * n)"
      using Suc bval_lt [of "take n p"] assms by (simp add: power_mult min_def)
    then have "unat (fold (\<lambda>i x. x OR push_bit (8 * i) (ucast (p ! i))) [0..<n] 0 OR push_bit (8 * n) (ucast (p ! n)) :: 64 word) =
        bval (take n p) + unat (p ! n) * 2 ^ (8 * n)"
      using Suc by (subst unat_or_disjoint [of _ "8 * n"]) (simp_all add: unat_push_byte64)
    also have "\<dots> = bval (take (Suc n) p)"
      using Suc.prems assms power_mult [of "2::nat" 8 n]
      by (simp add: take_Suc_conv_app_nth bval_append mult.commute min_def)
    finally show ?case by simp
  qed simp
  from this [of 8] show ?thesis unfolding ReadLE64_def by simp
qed

definition selection_rate :: "HMPPrivilegeTier \<Rightarrow> nat" where
  "selection_rate t = (case t of UNKNOWN \<Rightarrow> 0 | NEW \<Rightarrow> 200 | ELDER \<Rightarrow> 600 | BROOD \<Rightarrow> 800)"

lemma IsVRFSelected_tier:
  assumes "length h = 32"
  shows "IsVRFSelected h (GetVRFTierMultiplier t) HMP_VRF_BASE_THRESHOLD \<longleftrightarrow> bval (take 8 h) mod 1000 < selection_rate t"
proof -
  have "unat (ReadLE64 h mod 1000) = bval (take 8 h) mod 1000"
    using unat_ReadLE64 [of h] assms by (simp add: unat_mod_distrib)
  then show ?thesis
    by (cases t) (simp_all add: IsVRFSelected_def GetVRFTierMultiplier_def selection_rate_def word_less_nat_alt
        HMP_VRF_BASE_THRESHOLD_def HMP_VRF_BROOD_MULTIPLIER_def HMP_VRF_ELDER_MULTIPLIER_def HMP_VRF_NEW_MULTIPLIER_def)
qed

text \<open>
  a signer is selected exactly when the first eight bytes of the proof's hash,
  read little-endian, fall below 0, 200, 600 or 800 modulo 1000 according to the
  tier; so a higher tier is selected whenever a lower one is, and a signer without
  privilege never is.
\<close>

theorem vrf_selected_iff:
  assumes "length h = 32"
  shows "(IsVRFSelected h (GetVRFTierMultiplier t) HMP_VRF_BASE_THRESHOLD \<longleftrightarrow> bval (take 8 h) mod 1000 < selection_rate t) \<and>
    (t \<le> t' \<and> IsVRFSelected h (GetVRFTierMultiplier t) HMP_VRF_BASE_THRESHOLD \<longrightarrow>
     IsVRFSelected h (GetVRFTierMultiplier t') HMP_VRF_BASE_THRESHOLD) \<and>
    \<not> IsVRFSelected h (GetVRFTierMultiplier UNKNOWN) HMP_VRF_BASE_THRESHOLD"
proof -
  have "t \<le> t' \<Longrightarrow> selection_rate t \<le> selection_rate t'"
    by (cases t; cases t') (simp_all add: selection_rate_def less_eq_HMPPrivilegeTier_def)
  then show ?thesis unfolding IsVRFSelected_tier [OF assms] by (auto simp: selection_rate_def)
qed

theorem vrf_selected_iff_witness:
  "IsVRFSelected ([1, 1, 1, 1, 1, 1, 1, 1] @ replicate 24 0) (GetVRFTierMultiplier BROOD) HMP_VRF_BASE_THRESHOLD \<and>
   \<not> IsVRFSelected ([1, 1, 1, 1, 1, 1, 1, 1] @ replicate 24 0) (GetVRFTierMultiplier ELDER) HMP_VRF_BASE_THRESHOLD"
  using vrf_selected_iff [of "[1, 1, 1, 1, 1, 1, 1, 1] @ replicate 24 0"] by (simp add: selection_rate_def)

end
