(* ===== verification/Hmp_Identity.thy ===== *)
theory Hmp_Identity
  imports Hmp_Weight
begin

text \<open>
  \<^verbatim>\<open>hmp/identity.h\<close> and \<^verbatim>\<open>hmp/identity.cpp\<close>: the daemon's BLS identity, its file and
  its two signing operations.  What the BLS library, the hash function and the
  serialiser provide is gathered in one record of parameters, used by the seal and
  validation theories as well.
\<close>

record ('sk, 'k, 's) bls_ops =
  bls_pub :: "'sk CBLSWrapper \<Rightarrow> 'k CBLSPublicKey"
  bls_sign :: "'sk CBLSWrapper \<Rightarrow> uint256 \<Rightarrow> 's CBLSSignature"
  bls_verify :: "'s CBLSSignature \<Rightarrow> 'k CBLSPublicKey \<Rightarrow> uint256 \<Rightarrow> bool"
  bls_verify_agg :: "'s CBLSSignature \<Rightarrow> 'k CBLSPublicKey list \<Rightarrow> uint256 list \<Rightarrow> bool"
  bls_aggregate :: "'s CBLSSignature list \<Rightarrow> 's CBLSSignature"
  hash256 :: "8 word list \<Rightarrow> uint256"
  ser_pk :: "'k CBLSPublicKey \<Rightarrow> 8 word list"
  ser_sig :: "'s CBLSSignature \<Rightarrow> 8 word list"
  ser_sk :: "'sk CBLSWrapper \<Rightarrow> 8 word list"
  deser_sk :: "8 word list \<Rightarrow> ('sk CBLSWrapper) option"
  null_sk :: 'sk
  null_pk :: 'k
  null_sig :: 's

text \<open>Default-constructed wrappers are invalid.\<close>

definition empty_sig :: "('sk, 'k, 's) bls_ops \<Rightarrow> 's CBLSSignature" where
  "empty_sig ops = CBLSWrapper False (null_sig ops)"

definition empty_pk :: "('sk, 'k, 's) bls_ops \<Rightarrow> 'k CBLSPublicKey" where
  "empty_pk ops = CBLSWrapper False (null_pk ops)"

definition empty_sk :: "('sk, 'k, 's) bls_ops \<Rightarrow> 'sk CBLSWrapper" where
  "empty_sk ops = CBLSWrapper False (null_sk ops)"

section \<open>Identity\<close>

record ('sk, 'k) CHMPIdentity =
  id_secretKey :: "'sk CBLSWrapper"
  id_publicKey :: "'k CBLSPublicKey"
  id_initialized :: bool

definition new_identity :: "('sk, 'k, 's) bls_ops \<Rightarrow> ('sk, 'k) CHMPIdentity" where
  "new_identity ops = \<lparr>id_secretKey = empty_sk ops, id_publicKey = empty_pk ops, id_initialized = False\<rparr>"

definition identity_IsValid :: "('sk, 'k) CHMPIdentity \<Rightarrow> bool" where
  "identity_IsValid i = (id_initialized i \<and> IsValid (id_secretKey i) \<and> IsValid (id_publicKey i))"

definition HMP_IDENTITY_MAGIC :: "8 word list" where
  "HMP_IDENTITY_MAGIC = map (of_nat \<circ> of_char) ''HMPI''"

definition HMP_IDENTITY_VERSION :: "8 word" where
  "HMP_IDENTITY_VERSION = 1"

text \<open>
  The identity file is its content, \<open>None\<close> when it does not exist; \<open>opens\<close> tells
  whether \<^verbatim>\<open>fopen\<close> succeeds.  A short read throws and is caught.
\<close>

definition LoadFromDisk ::
  "('sk, 'k, 's) bls_ops \<Rightarrow> bool \<Rightarrow> (8 word list) option \<Rightarrow> ('sk, 'k) CHMPIdentity \<Rightarrow> bool \<times> ('sk, 'k) CHMPIdentity" where
  "LoadFromDisk ops opens file i =
     (case file of
        None \<Rightarrow> (False, i)
      | Some bytes \<Rightarrow>
          if \<not> opens then (False, i)
          else if length bytes < 5 then (False, i)
          else if take 4 bytes \<noteq> HMP_IDENTITY_MAGIC \<or> bytes ! 4 \<noteq> HMP_IDENTITY_VERSION then (False, i)
          else case deser_sk ops (drop 5 bytes) of
                 None \<Rightarrow> (False, i)
               | Some sk \<Rightarrow>
                   if \<not> IsValid sk then (False, i\<lparr>id_secretKey := empty_sk ops\<rparr>)
                   else let pk = bls_pub ops sk in
                     if \<not> IsValid pk then (False, i\<lparr>id_secretKey := empty_sk ops, id_publicKey := pk\<rparr>)
                     else (True, i\<lparr>id_secretKey := sk, id_publicKey := pk\<rparr>))"

text \<open>
  The file is written under a temporary name and renamed over the old one, so a
  failure before the rename leaves the old content.
\<close>

record save_outcome =
  so_opens :: bool
  so_writes :: bool
  so_commits :: bool
  so_renames :: bool

definition SaveToDisk ::
  "('sk, 'k, 's) bls_ops \<Rightarrow> save_outcome \<Rightarrow> ('sk, 'k) CHMPIdentity \<Rightarrow> (8 word list) option \<Rightarrow> bool \<times> (8 word list) option" where
  "SaveToDisk ops io i file =
     (if \<not> so_opens io then (False, file)
      else if \<not> so_writes io then (False, file)
      else if \<not> so_commits io then (False, file)
      else if \<not> so_renames io then (False, file)
      else (True, Some (HMP_IDENTITY_MAGIC @ [HMP_IDENTITY_VERSION] @ ser_sk ops (id_secretKey i))))"

definition InitIdentity ::
  "('sk, 'k, 's) bls_ops \<Rightarrow> bool \<Rightarrow> save_outcome \<Rightarrow> 'sk CBLSWrapper \<Rightarrow> (8 word list) option \<Rightarrow> ('sk, 'k) CHMPIdentity \<Rightarrow>
   bool \<times> (8 word list) option \<times> ('sk, 'k) CHMPIdentity" where
  "InitIdentity ops opens io newKey file i =
     (let (ok, i1) = LoadFromDisk ops opens file i in
      if ok then (True, file, i1\<lparr>id_initialized := True\<rparr>)
      else if \<not> IsValid newKey then (False, file, i1)
      else let i2 = i1\<lparr>id_secretKey := newKey, id_publicKey := bls_pub ops newKey\<rparr>;
               (saved, file') = SaveToDisk ops io i2 file
           in if \<not> saved then (False, file', i2)
              else (True, file', i2\<lparr>id_initialized := True\<rparr>))"

definition identity_Sign :: "('sk, 'k, 's) bls_ops \<Rightarrow> ('sk, 'k) CHMPIdentity \<Rightarrow> uint256 \<Rightarrow> 's CBLSSignature" where
  "identity_Sign ops i hash =
     (if \<not> id_initialized i then empty_sig ops else bls_sign ops (id_secretKey i) hash)"

definition SignVRF :: "('sk, 'k, 's) bls_ops \<Rightarrow> ('sk, 'k) CHMPIdentity \<Rightarrow> uint256 \<Rightarrow> uint256 \<Rightarrow> 's CBLSSignature" where
  "SignVRF ops i blockHash prevSealHash =
     (if \<not> id_initialized i then empty_sig ops
      else ComputeVRF (hash256 ops) (bls_sign ops) (id_secretKey i) blockHash prevSealHash)"

definition GetSecretKeyBytes :: "('sk, 'k, 's) bls_ops \<Rightarrow> ('sk, 'k) CHMPIdentity \<Rightarrow> (8 word list) option" where
  "GetSecretKeyBytes ops i =
     (if \<not> id_initialized i \<or> \<not> IsValid (id_secretKey i) then None
      else let buf = ser_sk ops (id_secretKey i) in if length buf < 32 then None else Some (take 32 buf))"

section \<open>Properties\<close>

text \<open>A toy instance of the parameters: keys are numbers, a signature is its message.\<close>

definition toy_ops :: "(nat, nat, nat \<times> uint256) bls_ops" where
  "toy_ops = \<lparr>bls_pub = (\<lambda>sk. sk), bls_sign = (\<lambda>sk h. CBLSWrapper (fValid sk) (impl sk, h)),
     bls_verify = (\<lambda>s pk h. fValid s \<and> impl s = (impl pk, h)),
     bls_verify_agg = (\<lambda>s pks hs. fValid s \<and> length pks = length hs),
     bls_aggregate = (\<lambda>ss. if list_all IsValid ss then CBLSWrapper True (0, []) else CBLSWrapper False (0, [])),
     hash256 = (\<lambda>bs. replicate 32 (if bs = [] then 0 else hd bs)),
     ser_pk = (\<lambda>pk. [of_nat (impl pk)]), ser_sig = (\<lambda>s. [of_nat (fst (impl s))]),
     ser_sk = (\<lambda>sk. replicate 31 0 @ [of_nat (impl sk)]),
     deser_sk = (\<lambda>bs. if length bs < 32 then None else Some (CBLSWrapper True (unat (bs ! 31)))),
     null_sk = 0, null_pk = 0, null_sig = (0, [])\<rparr>"



text \<open>
  A failed load is treated like a missing file: whatever the file holds, a start
  that cannot open it generates a new key and replaces the file.
\<close>

lemma identity_overwritten_on_failed_load:
  assumes "IsValid newKey" "so_opens io" "so_writes io" "so_commits io" "so_renames io"
  shows "InitIdentity ops False io newKey (Some bytes) i =
    (True, Some (HMP_IDENTITY_MAGIC @ [HMP_IDENTITY_VERSION] @ ser_sk ops newKey),
     i\<lparr>id_secretKey := newKey, id_publicKey := bls_pub ops newKey, id_initialized := True\<rparr>)"
  using assms by (simp add: InitIdentity_def LoadFromDisk_def SaveToDisk_def)

end
