(* ===== verification/Hmp_Commitment.thy ===== *)
theory Hmp_Commitment
  imports Ordered_Map
begin

text \<open>
  \<^verbatim>\<open>hmp/commitment.h\<close> and \<^verbatim>\<open>hmp/commitment.cpp\<close>: the on-chain registry of key
  commitments, which maps a key to the height of its first commitment and keeps
  a reverse index by height, and the pool of pending commitments.  The locale
  \<open>first_seen\<close> states what the users of the registry rely on; the registry
  interprets it.
\<close>

section \<open>Messages and state\<close>

datatype HMPAcceptResult = REJECTED_INVALID | REJECTED_BENIGN | ACCEPTED

definition HMPAccepted :: "HMPAcceptResult \<Rightarrow> bool" where
  "HMPAccepted r = (r = ACCEPTED)"

record ('k, 's) CPubKeyCommit =
  pubKey :: "'k CBLSPublicKey"
  signature :: "'s CBLSSignature"
  nTimestamp :: int

text \<open>
  The serialisation hash of the tag and the key, and the signature check of the
  BLS library (basic scheme), are parameters.
\<close>

definition SignatureHash :: "(string \<Rightarrow> 'k CBLSPublicKey \<Rightarrow> uint256) \<Rightarrow> 'k CBLSPublicKey \<Rightarrow> uint256" where
  "SignatureHash hash pk = hash ''HMP-COMMIT'' pk"

definition Verify ::
  "(string \<Rightarrow> 'k CBLSPublicKey \<Rightarrow> uint256) \<Rightarrow>
   ('s CBLSSignature \<Rightarrow> 'k CBLSPublicKey \<Rightarrow> uint256 \<Rightarrow> bool) \<Rightarrow> ('k, 's) CPubKeyCommit \<Rightarrow> bool" where
  "Verify hash VerifyInsecure c =
     (if \<not> IsValid (pubKey c) \<or> \<not> IsValid (signature c) then False
      else VerifyInsecure (signature c) (pubKey c) (SignatureHash hash (pubKey c)))"

record 'k CHMPCommitmentRegistry =
  m_offset :: int
  m_evictionWindow :: int
  m_commitments :: "('k CBLSPublicKey, int) omap"
  m_heightIndex :: "(int, 'k CBLSPublicKey list) omap"

definition new_registry :: "int \<Rightarrow> int \<Rightarrow> 'k CHMPCommitmentRegistry" where
  "new_registry offset evictionWindow =
     \<lparr>m_offset = offset, m_evictionWindow = evictionWindow, m_commitments = [], m_heightIndex = []\<rparr>"

section \<open>Registry operations\<close>

text \<open>The body shared by the implicit and the explicit commitments of a block.\<close>

definition commit_key ::
  "int \<Rightarrow> 'k::linorder CBLSPublicKey \<Rightarrow> 'k CHMPCommitmentRegistry \<Rightarrow> 'k CHMPCommitmentRegistry" where
  "commit_key height pk r =
     (if IsValid pk \<and> om_find (m_commitments r) pk = None
      then r\<lparr>m_commitments := om_set pk height (m_commitments r),
             m_heightIndex := om_upd [] height (\<lambda>v. v @ [pk]) (m_heightIndex r)\<rparr>
      else r)"

definition EvictOld :: "int \<Rightarrow> int \<Rightarrow> 'k CHMPCommitmentRegistry \<Rightarrow> 'k CHMPCommitmentRegistry" where
  "EvictOld currentHeight maxAge r =
     (let cutoff = currentHeight - maxAge in
      if cutoff \<le> 0 then r
      else r\<lparr>m_commitments :=
               fold om_erase (concat (map snd (takeWhile (\<lambda>e. fst e < cutoff) (m_heightIndex r))))
                 (m_commitments r),
             m_heightIndex := dropWhile (\<lambda>e. fst e < cutoff) (m_heightIndex r)\<rparr>)"

definition registry_BlockConnected ::
  "int \<Rightarrow> 'k::linorder CBLSPublicKey \<Rightarrow> 'k CBLSPublicKey list \<Rightarrow>
   'k CHMPCommitmentRegistry \<Rightarrow> 'k CHMPCommitmentRegistry" where
  "registry_BlockConnected height minerPubKey explicitCommitments r =
     (let r1 = commit_key height minerPubKey r;
          r2 = fold (commit_key height) explicitCommitments r1
      in if height > m_evictionWindow r2 then EvictOld height (m_evictionWindow r2) r2 else r2)"

definition erase_from :: "int \<Rightarrow> 'k CBLSPublicKey \<Rightarrow> ('k CBLSPublicKey, int) omap \<Rightarrow> ('k CBLSPublicKey, int) omap" where
  "erase_from height pk m =
     (case om_find m pk of
        None \<Rightarrow> m
      | Some h \<Rightarrow> if h \<ge> height then om_erase pk m else m)"

text \<open>\<^verbatim>\<open>lower_bound(height)\<close> to the end of the ordered index.\<close>

definition registry_BlockDisconnected :: "int \<Rightarrow> 'k CHMPCommitmentRegistry \<Rightarrow> 'k CHMPCommitmentRegistry" where
  "registry_BlockDisconnected height r =
     r\<lparr>m_commitments :=
         fold (erase_from height) (concat (map snd (dropWhile (\<lambda>e. fst e < height) (m_heightIndex r))))
           (m_commitments r),
       m_heightIndex := takeWhile (\<lambda>e. fst e < height) (m_heightIndex r)\<rparr>"

definition IsCommitted :: "'k CHMPCommitmentRegistry \<Rightarrow> 'k CBLSPublicKey \<Rightarrow> int \<Rightarrow> bool" where
  "IsCommitted r pubkey atHeight =
     (if m_offset r = 0 then True
      else case om_find (m_commitments r) pubkey of
             None \<Rightarrow> False
           | Some h \<Rightarrow> atHeight - h \<ge> m_offset r)"

definition IsEnabled :: "'k CHMPCommitmentRegistry \<Rightarrow> bool" where
  "IsEnabled r = (m_offset r > 0)"

definition HasCommitment :: "'k CHMPCommitmentRegistry \<Rightarrow> 'k CBLSPublicKey \<Rightarrow> bool" where
  "HasCommitment r pubkey = (om_find (m_commitments r) pubkey \<noteq> None)"

section \<open>Pool operations\<close>

record ('k, 's) CHMPCommitPool =
  m_pending :: "('k CBLSPublicKey, ('k, 's) CPubKeyCommit) omap"

definition empty_pool :: "('k, 's) CHMPCommitPool" where
  "empty_pool = \<lparr>m_pending = []\<rparr>"

definition MAX_PENDING :: nat where "MAX_PENDING = 256"
definition COMMIT_TTL_SECS :: int where "COMMIT_TTL_SECS = 3600"

text \<open>
  \<^verbatim>\<open>Add\<close> holds the pool lock twice, around the signature check: \<open>Add_checks\<close> is the
  part up to and including the verification, with the early return as its value,
  and \<open>Add_locked\<close> is the part under the second lock, which may see a pool that
  other threads have changed meanwhile.
\<close>

definition Add_checks ::
  "('k CHMPCommitmentRegistry) option \<Rightarrow> (('k, 's) CPubKeyCommit \<Rightarrow> bool) \<Rightarrow> ('k, 's) CPubKeyCommit \<Rightarrow>
   ('k, 's) CHMPCommitPool \<Rightarrow> HMPAcceptResult option" where
  "Add_checks registry verify commit p =
     (if \<not> IsValid (pubKey commit) \<or> \<not> IsValid (signature commit) then Some REJECTED_INVALID
      else if (case registry of None \<Rightarrow> False | Some r \<Rightarrow> HasCommitment r (pubKey commit)) then Some REJECTED_BENIGN
      else if om_find (m_pending p) (pubKey commit) \<noteq> None then Some REJECTED_BENIGN
      else if length (m_pending p) \<ge> MAX_PENDING then Some REJECTED_BENIGN
      else if \<not> verify commit then Some REJECTED_INVALID
      else None)"

definition Add_locked ::
  "int \<Rightarrow> ('k::linorder, 's) CPubKeyCommit \<Rightarrow> ('k, 's) CHMPCommitPool \<Rightarrow>
   HMPAcceptResult \<times> ('k, 's) CHMPCommitPool" where
  "Add_locked nNow commit p =
     (if om_find (m_pending p) (pubKey commit) \<noteq> None then (REJECTED_BENIGN, p)
      else let p1 = p\<lparr>m_pending := filter (\<lambda>e. \<not> nNow - nTimestamp (snd e) > COMMIT_TTL_SECS) (m_pending p)\<rparr> in
        if nTimestamp commit > nNow + 300 then (REJECTED_BENIGN, p1)
        else if length (m_pending p1) \<ge> MAX_PENDING then (REJECTED_BENIGN, p1)
        else (ACCEPTED, p1\<lparr>m_pending := om_set (pubKey commit) commit (m_pending p1)\<rparr>))"

definition pool_Add ::
  "('k::linorder CHMPCommitmentRegistry) option \<Rightarrow> (('k, 's) CPubKeyCommit \<Rightarrow> bool) \<Rightarrow> int \<Rightarrow>
   ('k, 's) CPubKeyCommit \<Rightarrow> ('k, 's) CHMPCommitPool \<Rightarrow> HMPAcceptResult \<times> ('k, 's) CHMPCommitPool" where
  "pool_Add registry verify nNow commit p =
     (case Add_checks registry verify commit p of
        Some res \<Rightarrow> (res, p)
      | None \<Rightarrow> Add_locked nNow commit p)"

definition AddFromReorg ::
  "('k::linorder, 's) CPubKeyCommit \<Rightarrow> ('k, 's) CHMPCommitPool \<Rightarrow> HMPAcceptResult \<times> ('k, 's) CHMPCommitPool" where
  "AddFromReorg commit p =
     (if \<not> IsValid (signature commit) then (ACCEPTED, p)
      else if om_find (m_pending p) (pubKey commit) \<noteq> None then (REJECTED_BENIGN, p)
      else if length (m_pending p) \<ge> MAX_PENDING then (REJECTED_BENIGN, p)
      else (ACCEPTED, p\<lparr>m_pending := om_set (pubKey commit) commit (m_pending p)\<rparr>))"

fun template_loop ::
  "nat \<Rightarrow> 'k CHMPCommitmentRegistry \<Rightarrow> ('k CBLSPublicKey \<times> ('k, 's) CPubKeyCommit) list \<Rightarrow>
   'k CBLSPublicKey list \<Rightarrow> 'k CBLSPublicKey list" where
  "template_loop maxCount registry [] result = result"
| "template_loop maxCount registry ((pk, commit) # rest) result =
     (if length result \<ge> maxCount then result
      else if \<not> IsValid (signature commit) then template_loop maxCount registry rest result
      else if \<not> HasCommitment registry pk then template_loop maxCount registry rest (result @ [pk])
      else template_loop maxCount registry rest result)"

definition GetForTemplate ::
  "nat \<Rightarrow> 'k CHMPCommitmentRegistry \<Rightarrow> ('k, 's) CHMPCommitPool \<Rightarrow> 'k CBLSPublicKey list" where
  "GetForTemplate maxCount registry p = template_loop maxCount registry (m_pending p) []"

definition pool_Remove :: "'k CBLSPublicKey \<Rightarrow> ('k, 's) CHMPCommitPool \<Rightarrow> ('k, 's) CHMPCommitPool" where
  "pool_Remove pubkey p = p\<lparr>m_pending := om_erase pubkey (m_pending p)\<rparr>"

fun pending_loop ::
  "nat \<Rightarrow> ('k CBLSPublicKey \<times> ('k, 's) CPubKeyCommit) list \<Rightarrow> ('k, 's) CPubKeyCommit list \<Rightarrow>
   ('k, 's) CPubKeyCommit list" where
  "pending_loop maxCount [] result = result"
| "pending_loop maxCount ((pk, commit) # rest) result =
     (if length result \<ge> maxCount then result
      else if \<not> IsValid (signature commit) then pending_loop maxCount rest result
      else pending_loop maxCount rest (result @ [commit]))"

definition GetPendingCommits :: "nat \<Rightarrow> ('k, 's) CHMPCommitPool \<Rightarrow> ('k, 's) CPubKeyCommit list" where
  "GetPendingCommits maxCount p = pending_loop maxCount (m_pending p) []"

definition pool_Size :: "('k, 's) CHMPCommitPool \<Rightarrow> nat" where
  "pool_Size p = length (m_pending p)"

section \<open>The contract of a first-seen index\<close>

text \<open>
  Clients of the registry see a partial function from keys to the height of their
  first commitment.  \<open>record_at h ks\<close> adds the keys of a block, \<open>forget_from h\<close>
  serves a reorganisation and \<open>forget_before c\<close> ages entries out.
\<close>

locale first_seen =
  fixes seen :: "'r \<Rightarrow> 'k \<Rightarrow> int option"
    and record_at :: "int \<Rightarrow> 'k list \<Rightarrow> 'r \<Rightarrow> 'r"
    and forget_from :: "int \<Rightarrow> 'r \<Rightarrow> 'r"
    and forget_before :: "int \<Rightarrow> 'r \<Rightarrow> 'r"
    and admissible :: "'k \<Rightarrow> bool"
    and inv :: "'r \<Rightarrow> bool"
  assumes inv_record: "inv r \<Longrightarrow> inv (record_at h ks r)"
    and inv_from: "inv r \<Longrightarrow> inv (forget_from h r)"
    and inv_before: "inv r \<Longrightarrow> inv (forget_before h r)"
    and seen_record: "inv r \<Longrightarrow>
      seen (record_at h ks r) k =
        (if seen r k = None \<and> admissible k \<and> k \<in> set ks then Some h else seen r k)"
    and seen_from: "inv r \<Longrightarrow>
      seen (forget_from h r) k = (case seen r k of Some h' \<Rightarrow> if h \<le> h' then None else Some h' | None \<Rightarrow> None)"
    and seen_before: "inv r \<Longrightarrow> 0 < h \<Longrightarrow>
      seen (forget_before h r) k = (case seen r k of Some h' \<Rightarrow> if h' < h then None else Some h' | None \<Rightarrow> None)"
begin

lemma record_idempotent: "inv r \<Longrightarrow> seen (record_at h ks (record_at h ks r)) k = seen (record_at h ks r) k"
  by (simp add: seen_record inv_record)

lemma undo_record:
  "inv r \<Longrightarrow> \<forall>h'. seen r k = Some h' \<longrightarrow> h' < h \<Longrightarrow> seen (forget_from h (record_at h ks r)) k = seen r k"
  by (auto simp: seen_from seen_record inv_record split: option.splits)

lemma undo_aged_record:
  "inv r \<Longrightarrow> 0 < c \<Longrightarrow> c \<le> h \<Longrightarrow> \<forall>h'. seen r k = Some h' \<longrightarrow> h' < h \<Longrightarrow>
   seen (forget_from h (forget_before c (record_at h ks r))) k = seen (forget_before c r) k"
  by (auto simp: seen_from seen_before inv_before seen_record inv_record split: option.splits)

end

section \<open>The registry implements it\<close>

definition reg_inv :: "'k::linorder CHMPCommitmentRegistry \<Rightarrow> bool" where
  "reg_inv r =
     (om_wf (m_commitments r) \<and> om_wf (m_heightIndex r) \<and>
      list_all (\<lambda>(pk, h). case om_find (m_heightIndex r) h of None \<Rightarrow> False | Some pks \<Rightarrow> pk \<in> set pks)
        (m_commitments r) \<and>
      list_all (\<lambda>(h, pks). pks \<noteq> [] \<and> list_all (\<lambda>pk. om_find (m_commitments r) pk = Some h \<and> IsValid pk) pks)
        (m_heightIndex r))"

definition first_commitment :: "'k CHMPCommitmentRegistry \<Rightarrow> 'k CBLSPublicKey \<Rightarrow> int option" where
  "first_commitment r pk = om_find (m_commitments r) pk"

lemma reg_inv_wf: "reg_inv r \<Longrightarrow> om_wf (m_commitments r)" "reg_inv r \<Longrightarrow> om_wf (m_heightIndex r)"
  by (simp_all add: reg_inv_def)

lemma reg_inv_iff:
  "reg_inv r \<longleftrightarrow> om_wf (m_commitments r) \<and> om_wf (m_heightIndex r) \<and>
     (\<forall>pk h. om_find (m_commitments r) pk = Some h \<longleftrightarrow>
        (\<exists>pks. om_find (m_heightIndex r) h = Some pks \<and> pk \<in> set pks)) \<and>
     (\<forall>h pks. om_find (m_heightIndex r) h = Some pks \<longrightarrow> pks \<noteq> [] \<and> list_all IsValid pks)"
proof (cases "om_wf (m_commitments r) \<and> om_wf (m_heightIndex r)")
  case True
  have c: "(case x of None \<Rightarrow> False | Some pks \<Rightarrow> pk \<in> set pks) \<longleftrightarrow> (\<exists>pks. x = Some pks \<and> pk \<in> set pks)"
    for x :: "'a CBLSPublicKey list option" and pk
    by (simp split: option.split)
  have l: "list_all (\<lambda>pk. A pk \<and> IsValid pk) pks \<longleftrightarrow> (\<forall>pk. pk \<in> set pks \<longrightarrow> A pk) \<and> list_all IsValid pks"
    for A and pks :: "'a CBLSPublicKey list"
    by (auto simp: list_all_iff)
  show ?thesis using True by (simp only: reg_inv_def om_list_all c l simp_thms) blast
qed (auto simp: reg_inv_def)

lemma reg_inv_new [simp]: "reg_inv (new_registry off w)"
  by (simp add: reg_inv_def new_registry_def)

lemma reg_inv_commit: "reg_inv (commit_key h pk r)" if inv: "reg_inv r"
proof (cases "IsValid pk \<and> om_find (m_commitments r) pk = None")
  case True
  note i = inv [unfolded reg_inv_iff]
  have "\<And>x pks. om_find (m_heightIndex r) x = Some pks \<Longrightarrow> pk \<notin> set pks"
    using True i by (metis option.distinct(1))
  then show ?thesis unfolding reg_inv_iff commit_key_def using True i
    by (auto simp: om_find_set om_find_upd split: option.splits if_splits)
qed (use inv in \<open>auto simp: commit_key_def\<close>)

lemma first_commitment_commit:
  "reg_inv r \<Longrightarrow> first_commitment (commit_key h pk r) k =
     (if first_commitment r k = None \<and> IsValid k \<and> k = pk then Some h else first_commitment r k)"
  by (auto simp: first_commitment_def commit_key_def om_find_set reg_inv_wf)

lemma reg_inv_fold_commit: "reg_inv r \<Longrightarrow> reg_inv (fold (commit_key h) ks r)"
  by (induction ks arbitrary: r) (simp_all add: reg_inv_commit)

lemma first_commitment_fold:
  "reg_inv r \<Longrightarrow> first_commitment (fold (commit_key h) ks r) k =
     (if first_commitment r k = None \<and> IsValid k \<and> k \<in> set ks then Some h else first_commitment r k)"
  by (induction ks arbitrary: r) (auto simp: reg_inv_commit first_commitment_commit)

lemma reg_inv_restrict:
  assumes inv: "reg_inv r" and wf: "om_wf (m_commitments r')" "om_wf (m_heightIndex r')"
    and idx: "\<And>x. om_find (m_heightIndex r') x = (if P x then om_find (m_heightIndex r) x else None)"
    and cm: "\<And>k. first_commitment r' k =
      (case first_commitment r k of Some h \<Rightarrow> if P h then Some h else None | None \<Rightarrow> None)"
  shows "reg_inv (r' :: 'k::linorder CHMPCommitmentRegistry)"
proof -
  have 1: "om_find (m_commitments r') pk = Some h \<longleftrightarrow> om_find (m_commitments r) pk = Some h \<and> P h" for pk h
    using cm [of pk] by (auto simp: first_commitment_def split: option.splits if_splits)
  have 2: "(\<exists>pks. om_find (m_heightIndex r') h = Some pks \<and> pk \<in> set pks) \<longleftrightarrow>
      (\<exists>pks. om_find (m_heightIndex r) h = Some pks \<and> pk \<in> set pks) \<and> P h" for pk h
    by (simp add: idx)
  have 3: "\<forall>h pks. om_find (m_heightIndex r') h = Some pks \<longrightarrow> pks \<noteq> [] \<and> list_all IsValid pks"
    using inv by (simp add: idx reg_inv_iff split: if_splits)
  show ?thesis unfolding reg_inv_iff 1 2 using inv [unfolded reg_inv_iff] wf 3 by simp
qed

lemma index_keys:
  assumes "reg_inv r"
  shows "pk \<in> set (concat (map snd (om_erase_if P (m_heightIndex r)))) \<longleftrightarrow>
         (\<exists>h. first_commitment r pk = Some h \<and> \<not> P h)"
  using assms unfolding reg_inv_iff first_commitment_def om_erase_if_def
  by (fastforce simp: om_find_iff)

lemma erase_from_fold:
  "om_wf m \<Longrightarrow> om_wf (fold (erase_from h) ks m) \<and>
   om_find (fold (erase_from h) ks m) k =
     (case om_find m k of Some h' \<Rightarrow> if k \<in> set ks \<and> h \<le> h' then None else Some h' | None \<Rightarrow> None)"
proof (induction ks arbitrary: m)
  case (Cons pk ks)
  have "om_wf (erase_from h pk m)" using Cons.prems by (simp add: erase_from_def split: option.split)
  from Cons.IH [OF this] show ?case
    by (auto simp: erase_from_def om_find_erase split: option.splits)
qed (simp split: option.split)

lemma first_commitment_disconnect:
  assumes "reg_inv r"
  shows "first_commitment (registry_BlockDisconnected h r) k =
    (case first_commitment r k of Some h' \<Rightarrow> if h \<le> h' then None else Some h' | None \<Rightarrow> None)"
  using index_keys [OF assms, of k "\<lambda>k. k < h"] erase_from_fold [OF reg_inv_wf(1) [OF assms]]
  by (auto simp: registry_BlockDisconnected_def first_commitment_def om_dropWhile_less reg_inv_wf assms
      split: option.split)

lemma reg_inv_disconnect: "reg_inv (registry_BlockDisconnected h r)" if inv: "reg_inv r"
proof -
  let ?r = "registry_BlockDisconnected h r"
  have wf: "om_wf (m_commitments ?r)" "om_wf (m_heightIndex ?r)"
    and idx: "\<And>x. om_find (m_heightIndex ?r) x = (if x < h then om_find (m_heightIndex r) x else None)"
    using erase_from_fold [OF reg_inv_wf(1) [OF inv]]
    by (simp_all add: registry_BlockDisconnected_def om_takeWhile_less reg_inv_wf inv om_find_erase_if)
  show ?thesis
    by (rule reg_inv_restrict [OF inv wf, of "\<lambda>x. x < h"])
      (simp_all add: idx first_commitment_disconnect inv split: option.split)
qed

lemma first_commitment_evict:
  assumes "reg_inv r"
  shows "first_commitment (EvictOld h w r) k =
    (case first_commitment r k of Some h' \<Rightarrow> if 0 < h - w \<and> h' < h - w then None else Some h' | None \<Rightarrow> None)"
  using index_keys [OF assms, of k "\<lambda>k. \<not> k < h - w"]
  by (auto simp: EvictOld_def Let_def first_commitment_def om_takeWhile_less reg_inv_wf assms
      om.find_fold_erase split: option.split)

lemma reg_inv_evict: "reg_inv (EvictOld h w r)" if inv: "reg_inv r"
proof (cases "h - w \<le> 0")
  case False
  let ?r = "EvictOld h w r"
  have wf: "om_wf (m_commitments ?r)" "om_wf (m_heightIndex ?r)"
    and idx: "\<And>x. om_find (m_heightIndex ?r) x = (if h - w \<le> x then om_find (m_heightIndex r) x else None)"
    using False
    by (simp_all add: EvictOld_def Let_def om_dropWhile_less reg_inv_wf inv om_find_erase_if om.wf_fold_erase)
  show ?thesis
    by (rule reg_inv_restrict [OF inv wf, of "\<lambda>x. h - w \<le> x"])
      (use False in \<open>simp_all add: idx first_commitment_evict inv split: option.split\<close>)
qed (simp add: EvictOld_def inv)

interpretation commits: first_seen first_commitment "\<lambda>h. fold (commit_key h)" registry_BlockDisconnected
    "\<lambda>c. EvictOld c 0" IsValid reg_inv
  by unfold_locales
    (simp_all add: reg_inv_fold_commit reg_inv_disconnect reg_inv_evict first_commitment_fold
      first_commitment_disconnect first_commitment_evict split: option.split)

section \<open>Whole blocks\<close>

lemma m_evictionWindow_commit [simp]:
  "m_evictionWindow (commit_key h pk r) = m_evictionWindow r" "m_offset (commit_key h pk r) = m_offset r"
  by (simp_all add: commit_key_def)

lemma m_evictionWindow_fold [simp]:
  "m_evictionWindow (fold (commit_key h) ks r) = m_evictionWindow r"
  "m_offset (fold (commit_key h) ks r) = m_offset r"
  by (induction ks arbitrary: r) simp_all

lemma registry_BlockConnected_eq:
  "registry_BlockConnected h mk ex r =
     (if m_evictionWindow r < h then EvictOld (h - m_evictionWindow r) 0 (fold (commit_key h) (mk # ex) r)
      else fold (commit_key h) (mk # ex) r)"
  by (simp add: registry_BlockConnected_def EvictOld_def Let_def)

lemma reg_inv_connect: "reg_inv r \<Longrightarrow> reg_inv (registry_BlockConnected h mk ex r)"
  by (simp add: registry_BlockConnected_eq reg_inv_commit commits.inv_record commits.inv_before)

lemma registry_params_connect [simp]:
  "m_evictionWindow (registry_BlockConnected h mk ex r) = m_evictionWindow r"
  "m_offset (registry_BlockConnected h mk ex r) = m_offset r"
  by (simp_all add: registry_BlockConnected_eq EvictOld_def Let_def)

lemma first_commitment_connect:
  "reg_inv r \<Longrightarrow> first_commitment (registry_BlockConnected h mk ex r) k =
     (let c = (case first_commitment r k of
                 Some h' \<Rightarrow> Some h'
               | None \<Rightarrow> if IsValid k \<and> k \<in> set (mk # ex) then Some h else None)
      in case c of
           Some h' \<Rightarrow> if m_evictionWindow r < h \<and> h' < h - m_evictionWindow r then None else Some h'
         | None \<Rightarrow> None)"
  unfolding registry_BlockConnected_eq
  by (auto simp: commits.seen_before commits.inv_record commits.seen_record simp del: fold.simps split: option.split)

lemma index_fold_commit:
  "reg_inv r \<Longrightarrow> x \<noteq> h \<Longrightarrow> om_find (m_heightIndex (fold (commit_key h) ks r)) x = om_find (m_heightIndex r) x"
proof (induction ks arbitrary: r)
  case (Cons pk ks)
  then show ?case
    using Cons.IH [OF reg_inv_commit [OF Cons.prems(1)]]
    by (simp add: commit_key_def om_find_upd reg_inv_wf)
qed simp

text \<open>A registry is determined by its parameters, its commitments and its index.\<close>

lemma registry_eqI:
  assumes "reg_inv r" "reg_inv r'" "m_offset r = m_offset r'" "m_evictionWindow r = m_evictionWindow r'"
    "\<And>k. first_commitment r k = first_commitment r' k"
    "\<And>x. om_find (m_heightIndex r) x = om_find (m_heightIndex r') x"
  shows "r = (r' :: 'k::linorder CHMPCommitmentRegistry)"
proof -
  have "m_commitments r = m_commitments r'" "m_heightIndex r = m_heightIndex r'"
    using assms by (auto intro!: om_ext simp: reg_inv_wf first_commitment_def fun_eq_iff)
  then show ?thesis using assms(3,4) by simp
qed

lemma index_below: "om_find (m_heightIndex r) x = None"
  if "list_all (\<lambda>e. fst e < h) (m_heightIndex r)" "h \<le> x"
  using that by (force simp: om_find_None_iff list_all_iff)

lemma first_below: "first_commitment r k = Some x \<Longrightarrow> x < h"
  if inv: "reg_inv r" and below: "list_all (\<lambda>e. fst e < h) (m_heightIndex r)"
proof -
  assume "first_commitment r k = Some x"
  then obtain pks where "om_find (m_heightIndex r) x = Some pks"
    using inv unfolding reg_inv_iff first_commitment_def by blast
  then show "x < h" using index_below [OF below, of x] by fastforce
qed

lemma disconnect_connect_unaged:
  fixes r :: "'k::linorder CHMPCommitmentRegistry"
  assumes inv: "reg_inv r" and below: "list_all (\<lambda>e. fst e < h) (m_heightIndex r)"
  shows "registry_BlockDisconnected h (fold (commit_key h) ks r) = r"
proof (rule registry_eqI)
  note i = commits.inv_record [OF inv, of h ks]
  show "first_commitment (registry_BlockDisconnected h (fold (commit_key h) ks r)) k = first_commitment r k" for k
    by (rule commits.undo_record [OF inv]) (auto dest: first_below [OF inv below])
  show "om_find (m_heightIndex (registry_BlockDisconnected h (fold (commit_key h) ks r))) x =
      om_find (m_heightIndex r) x" for x
    using index_below [OF below, of x] index_fold_commit [OF inv, of x h ks]
    by (cases "x < h") (simp_all add: registry_BlockDisconnected_def om_takeWhile_less reg_inv_wf [OF i] om_find_erase_if)
  show "reg_inv (registry_BlockDisconnected h (fold (commit_key h) ks r))" "reg_inv r"
    by (rule commits.inv_from [OF i], rule inv)
  show "m_offset (registry_BlockDisconnected h (fold (commit_key h) ks r)) = m_offset r"
    by (simp add: registry_BlockDisconnected_def)
  show "m_evictionWindow (registry_BlockDisconnected h (fold (commit_key h) ks r)) = m_evictionWindow r"
    by (simp add: registry_BlockDisconnected_def)
qed

lemma EvictOld_shift: "EvictOld h w r = EvictOld (h - w) 0 r"
  by (simp add: EvictOld_def)

lemma index_disconnect:
  "reg_inv r \<Longrightarrow> om_find (m_heightIndex (registry_BlockDisconnected h r)) x =
     (if x < h then om_find (m_heightIndex r) x else None)"
  by (simp add: registry_BlockDisconnected_def om_takeWhile_less reg_inv_wf om_find_erase_if)

lemma index_evict:
  "reg_inv r \<Longrightarrow> 0 < c \<Longrightarrow> om_find (m_heightIndex (EvictOld c 0 r)) x =
     (if x < c then None else om_find (m_heightIndex r) x)"
  by (simp add: EvictOld_def Let_def om_dropWhile_less reg_inv_wf om_find_erase_if)

lemma disconnect_evict_commit:
  fixes r :: "'k::linorder CHMPCommitmentRegistry"
  assumes inv: "reg_inv r" and below: "list_all (\<lambda>e. fst e < h) (m_heightIndex r)" and c: "0 < c" "c \<le> h"
  shows "registry_BlockDisconnected h (EvictOld c 0 (fold (commit_key h) ks r)) = EvictOld c 0 r"
    (is "?l = _")
proof (rule registry_eqI)
  note i = commits.inv_record [OF inv, of h ks]
  note j = commits.inv_before [OF i, of c]
  show "first_commitment ?l k = first_commitment (EvictOld c 0 r) k" for k
    by (rule commits.undo_aged_record [OF inv c]) (auto dest: first_below [OF inv below])
  show "om_find (m_heightIndex ?l) x = om_find (m_heightIndex (EvictOld c 0 r)) x" for x
    using index_below [OF below, of x] index_fold_commit [OF inv, of x h ks]
    by (cases "x < h") (simp_all add: index_disconnect [OF j] index_evict [OF i c(1)] index_evict [OF inv c(1)])
  show "reg_inv ?l" "reg_inv (EvictOld c 0 r)"
    by (rule commits.inv_from [OF j], rule commits.inv_before [OF inv])
qed (simp_all add: registry_BlockDisconnected_def EvictOld_def Let_def)

definition key_c :: "nat \<Rightarrow> nat CBLSPublicKey" where "key_c n = CBLSWrapper True n"

text \<open>A registry with one key, committed at height 7.\<close>

definition registry_ex :: "nat CHMPCommitmentRegistry" where
  "registry_ex = registry_BlockConnected 7 (key_c 1) [] (new_registry 10 1100)"

lemma registry_ex_eq:
  "registry_ex = \<lparr>m_offset = 10, m_evictionWindow = 1100,
     m_commitments = [(key_c 1, 7)], m_heightIndex = [(7, [key_c 1])]\<rparr>"
  by (simp add: registry_ex_def registry_BlockConnected_def commit_key_def new_registry_def om_upd_def
      key_c_def IsValid_def)

lemma reg_inv_ex: "reg_inv registry_ex"
  by (simp add: registry_ex_def reg_inv_connect)

text \<open>
  C25: connecting a block keeps the registry and its height index consistent and
  records exactly the miner's key and the listed keys that are valid and not yet
  committed, at the height of the block; a key that is already committed keeps
  its first height; what lies more than the eviction window back is dropped.
\<close>

theorem registry_connect_exact:
  assumes "reg_inv r"
  shows "reg_inv (registry_BlockConnected h mk ex r) \<and>
    om_find (m_commitments (registry_BlockConnected h mk ex r)) k =
      (let c = (case om_find (m_commitments r) k of
                  Some h' \<Rightarrow> Some h'
                | None \<Rightarrow> if IsValid k \<and> k \<in> set (mk # ex) then Some h else None)
       in case c of
            Some h' \<Rightarrow> if m_evictionWindow r < h \<and> h' < h - m_evictionWindow r then None else Some h'
          | None \<Rightarrow> None)"
  using reg_inv_connect [OF assms] first_commitment_connect [OF assms, unfolded first_commitment_def]
  by blast

theorem registry_connect_exact_witness:
  "reg_inv registry_ex \<and>
   om_find (m_commitments (registry_BlockConnected 20 (key_c 1) [key_c 2] registry_ex)) (key_c 2) = Some 20"
  using registry_connect_exact [OF reg_inv_ex, of 20 "key_c 1" "[key_c 2]" "key_c 2"] reg_inv_ex
  by (simp add: registry_ex_eq om_find_def key_c_def IsValid_def)

text \<open>
  disconnecting the block that was connected last restores the registry, up
  to the commitments the connection aged out: those are not brought back.
\<close>

theorem registry_disconnect_connect:
  fixes r :: "'k::linorder CHMPCommitmentRegistry"
  assumes inv: "reg_inv r" and below: "list_all (\<lambda>e. fst e < h) (m_heightIndex r)"
    and w: "0 \<le> m_evictionWindow r"
  shows "registry_BlockDisconnected h (registry_BlockConnected h mk ex r) =
    (if m_evictionWindow r < h then EvictOld h (m_evictionWindow r) r else r)"
  using disconnect_connect_unaged [OF inv below, of "mk # ex"] 
    disconnect_evict_commit [OF inv below, of "h - m_evictionWindow r" "mk # ex"] w
  by (simp add: registry_BlockConnected_eq EvictOld_shift [of h "m_evictionWindow r"] del: fold.simps)

theorem registry_disconnect_connect_witness:
  "registry_BlockDisconnected 20 (registry_BlockConnected 20 (key_c 1) [key_c 2] registry_ex) = registry_ex"
  using registry_disconnect_connect [OF reg_inv_ex, of 20 "key_c 1" "[key_c 2]"]
  by (simp add: registry_ex_eq)

section \<open>Restart and eviction\<close>

text \<open>A miner whose key is in every block from height \<open>a\<close> to \<open>b\<close>.\<close>

definition mine_range ::
  "'k::linorder CBLSPublicKey \<Rightarrow> int \<Rightarrow> int \<Rightarrow> 'k CHMPCommitmentRegistry \<Rightarrow> 'k CHMPCommitmentRegistry" where
  "mine_range mk a b r = fold (\<lambda>h. registry_BlockConnected h mk []) [a..b] r"

lemma mine_range_step: "a \<le> b \<Longrightarrow> mine_range mk a b r = registry_BlockConnected b mk [] (mine_range mk a (b - 1) r)"
  by (simp add: mine_range_def upto_rec2)

lemma mine_range_keeps:
  assumes "IsValid mk" "0 \<le> w" "1 \<le> a"
  shows "b \<le> a + w \<Longrightarrow> a \<le> b \<Longrightarrow>
    reg_inv (mine_range mk a b (new_registry off w)) \<and>
    m_evictionWindow (mine_range mk a b (new_registry off w)) = w \<and>
    m_offset (mine_range mk a b (new_registry off w)) = off \<and>
    first_commitment (mine_range mk a b (new_registry off w)) mk = Some a"
proof (induction "nat (b - a)" arbitrary: b)
  case 0
  then have [simp]: "b = a" by simp
  have "mine_range mk a (a - 1) (new_registry off w) = new_registry off w"
    by (simp add: mine_range_def)
  then show ?case using assms
    by (simp add: mine_range_step reg_inv_connect first_commitment_connect)
      (simp add: first_commitment_def new_registry_def)
next
  case (Suc n)
  have "mine_range mk a b (new_registry off w) =
      registry_BlockConnected b mk [] (mine_range mk a (b - 1) (new_registry off w))"
    using Suc.prems by (simp add: mine_range_step)
  then show ?case using Suc.hyps(1) [of "b - 1"] Suc.hyps(2) Suc.prems
    by (simp add: reg_inv_connect first_commitment_connect)
qed

text \<open>
  C34: the registry of a node that has been running is not the registry of a node
  that replays the last blocks.  A key that is in every block since height 1
  loses its commitment when its first height leaves the eviction window, although
  it is as active as ever; a fresh registry that replays only the window, which is
  what a restart does, commits the key at the first replayed height.  The two
  nodes then disagree on whether the key may seal.
\<close>

theorem registry_replay_diverges:
  assumes "IsValid mk" "0 \<le> w" "0 < off" "2 + off \<le> at"
  shows "\<not> IsCommitted (mine_range mk 1 (w + 2) (new_registry off w)) mk at \<and>
    IsCommitted (mine_range mk 2 (w + 2) (new_registry off w)) mk at"
proof
  note a = mine_range_keeps [OF assms(1,2), of 1 "w + 1" off]
  have "mine_range mk 1 (w + 2) (new_registry off w) =
      registry_BlockConnected (w + 2) mk [] (mine_range mk 1 (w + 1) (new_registry off w))"
    using mine_range_step [of 1 "w + 2" mk "new_registry off w"] assms(2) by (simp add: add.commute)
  then have "first_commitment (mine_range mk 1 (w + 2) (new_registry off w)) mk = None"
    "m_offset (mine_range mk 1 (w + 2) (new_registry off w)) = off"
    using a assms(2) by (simp_all add: first_commitment_connect)
  then show "\<not> IsCommitted (mine_range mk 1 (w + 2) (new_registry off w)) mk at"
    using assms(3) by (simp add: IsCommitted_def first_commitment_def)
  show "IsCommitted (mine_range mk 2 (w + 2) (new_registry off w)) mk at"
    using mine_range_keeps [OF assms(1,2), of 2 "w + 2" off] assms
    by (simp add: IsCommitted_def first_commitment_def)
qed

theorem registry_replay_diverges_witness:
  "\<not> IsCommitted (mine_range (key_c 1) 1 1102 (new_registry 10 1100)) (key_c 1) 1090 \<and>
   IsCommitted (mine_range (key_c 1) 2 1102 (new_registry 10 1100)) (key_c 1) 1090"
  using registry_replay_diverges [of "key_c 1" 1100 10 1090]
  by (simp add: key_c_def IsValid_def)

section \<open>The pool\<close>

text \<open>
  The states the pool can be in: the second half of an \<^verbatim>\<open>Add\<close> whose first half
  ran on any earlier pool, a restore from a reorganisation, a removal.
\<close>

inductive pool_reachable ::
  "(('k::linorder, 's) CPubKeyCommit \<Rightarrow> bool) \<Rightarrow> ('k, 's) CHMPCommitPool \<Rightarrow> bool" for verify where
  start: "pool_reachable verify empty_pool"
| add: "pool_reachable verify p \<Longrightarrow> Add_checks registry verify c p0 = None \<Longrightarrow>
    pool_reachable verify (snd (Add_locked nNow c p))"
| reorg: "pool_reachable verify p \<Longrightarrow> pool_reachable verify (snd (AddFromReorg c p))"
| remove: "pool_reachable verify p \<Longrightarrow> pool_reachable verify (pool_Remove pk p)"

definition pool_inv :: "('k::linorder, 's) CHMPCommitPool \<Rightarrow> bool" where
  "pool_inv p =
     (om_wf (m_pending p) \<and> length (m_pending p) \<le> MAX_PENDING \<and>
      list_all (\<lambda>e. pubKey (snd e) = fst e \<and> IsValid (signature (snd e))) (m_pending p))"

lemma pool_inv_insert:
  assumes "pool_inv p" "length (m_pending p) < MAX_PENDING" "IsValid (signature c)"
  shows "pool_inv (p\<lparr>m_pending := om_set (pubKey c) c (m_pending p)\<rparr>)"
  using assms set_om_set [of "pubKey c" c "m_pending p"]
  by (auto simp: pool_inv_def list_all_iff length_om_set)

lemma pool_inv_filter: "pool_inv p \<Longrightarrow> pool_inv (p\<lparr>m_pending := filter P (m_pending p)\<rparr>)"
  by (auto simp: pool_inv_def list_all_iff om_wf_def sorted_wrt_map_filter intro: order_trans [OF length_filter_le])

lemma pool_inv_locked:
  "pool_inv p \<Longrightarrow> IsValid (signature c) \<Longrightarrow> pool_inv (snd (Add_locked nNow c p))"
  by (auto simp: Add_locked_def Let_def pool_inv_filter
      intro!: pool_inv_insert [where p = "p\<lparr>m_pending := filter P (m_pending p)\<rparr>" for P, simplified])

lemma pool_reachable_inv: "pool_reachable verify p \<Longrightarrow> pool_inv p"
proof (induction rule: pool_reachable.induct)
  case (add p registry c p0 nNow)
  then show ?case by (auto simp: Add_checks_def intro: pool_inv_locked split: if_splits)
next
  case (reorg p c)
  then show ?case by (auto simp: AddFromReorg_def intro: pool_inv_insert)
next
  case (remove p pk)
  then show ?case by (simp add: pool_Remove_def om_erase_def pool_inv_filter)
qed (simp add: pool_inv_def empty_pool_def)

text \<open>With a valid signature on every entry, the template loop is a filter and a cut.\<close>

lemma template_loop_eq:
  "list_all (\<lambda>e. IsValid (signature (snd e))) es \<Longrightarrow> length res \<le> n \<Longrightarrow>
   template_loop n r es res = res @ take (n - length res) (filter (\<lambda>k. \<not> HasCommitment r k) (map fst es))"
proof (induction n r es res rule: template_loop.induct)
  case (2 n r pk c rest res)
  show ?case
  proof (cases "length res = n")
    case False
    then have "n - length res = Suc (n - Suc (length res))" using "2.prems" by simp
    then show ?thesis using 2 False by simp
  qed simp
qed simp

definition commit_ex :: "nat \<Rightarrow> int \<Rightarrow> (nat, unit) CPubKeyCommit" where
  "commit_ex n t = \<lparr>pubKey = key_c n, signature = CBLSWrapper True (), nTimestamp = t\<rparr>"

definition pool_ex :: "(nat, unit) CHMPCommitPool" where
  "pool_ex = \<lparr>m_pending = [(key_c 3, commit_ex 3 100)]\<rparr>"

lemma pool_ex_reachable: "pool_reachable (\<lambda>c. True) pool_ex"
proof -
  have "pool_ex = snd (Add_locked 100 (commit_ex 3 100) empty_pool)"
    by (simp add: pool_ex_def Add_locked_def empty_pool_def commit_ex_def MAX_PENDING_def)
  moreover have "Add_checks (None :: (nat CHMPCommitmentRegistry) option) (\<lambda>c. True) (commit_ex 3 100) empty_pool = None"
    by (simp add: Add_checks_def commit_ex_def key_c_def IsValid_def empty_pool_def MAX_PENDING_def)
  ultimately show ?thesis using pool_reachable.add [OF pool_reachable.start] by metis
qed

text \<open>
  C35: whatever the interleaving of additions, restores and removals, the pool
  never holds more than 256 entries, and a block template receives the first keys
  in key order, no key twice, none that is already committed, at most the
  requested number, and fewer only when no other key is left.
\<close>

theorem pool_template:
  assumes "pool_reachable verify p"
  shows "pool_Size p \<le> 256 \<and>
    GetForTemplate n r p = take n (filter (\<lambda>k. \<not> HasCommitment r k) (map fst (m_pending p))) \<and>
    sorted_wrt (<) (GetForTemplate n r p)"
proof -
  note i = pool_reachable_inv [OF assms, unfolded pool_inv_def]
  have "GetForTemplate n r p = take n (filter (\<lambda>k. \<not> HasCommitment r k) (map fst (m_pending p)))"
    unfolding GetForTemplate_def using i by (subst template_loop_eq) (auto simp: list_all_iff)
  moreover have "sorted_wrt (<) (take n (filter (\<lambda>k. \<not> HasCommitment r k) (map fst (m_pending p))))"
    using i by (simp add: om_wf_def sorted_wrt_take sorted_wrt_filter)
  ultimately show ?thesis using i by (simp add: pool_Size_def MAX_PENDING_def)
qed

theorem pool_template_witness:
  "pool_reachable (\<lambda>c. True) pool_ex \<and> GetForTemplate 16 registry_ex pool_ex = [key_c 3]"
  using pool_template [OF pool_ex_reachable, of 16 registry_ex] pool_ex_reachable
  by (simp add: pool_ex_def registry_ex_eq HasCommitment_def om_find_def key_c_def)

definition pool_accepts ::
  "'k CHMPCommitmentRegistry \<Rightarrow> (('k, 's) CPubKeyCommit \<Rightarrow> bool) \<Rightarrow> int \<Rightarrow> ('k, 's) CPubKeyCommit \<Rightarrow>
   ('k, 's) CHMPCommitPool \<Rightarrow> bool" where
  "pool_accepts r verify nNow c p =
     (IsValid (pubKey c) \<and> IsValid (signature c) \<and> verify c \<and> \<not> HasCommitment r (pubKey c) \<and>
      om_find (m_pending p) (pubKey c) = None \<and> pool_Size p < MAX_PENDING \<and> nTimestamp c \<le> nNow + 300)"

lemma pool_Add_accepted:
  assumes "pool_accepts r verify nNow c p"
  shows "pool_Add (Some r) verify nNow c p = (ACCEPTED, p\<lparr>m_pending := om_set (pubKey c) c
    (filter (\<lambda>e. \<not> nNow - nTimestamp (snd e) > COMMIT_TTL_SECS) (m_pending p))\<rparr>)"
proof -
  have "length (filter P (m_pending p)) < MAX_PENDING" for P
    by (rule le_less_trans [OF length_filter_le]) (use assms in \<open>simp add: pool_accepts_def pool_Size_def\<close>)
  then have "\<not> MAX_PENDING \<le> length (filter P (m_pending p))" for P by (simp add: not_le)
  then show ?thesis using assms
    by (auto simp: pool_accepts_def pool_Size_def pool_Add_def Add_checks_def Add_locked_def Let_def)
qed

lemma pool_Add_rejected: "\<not> pool_accepts r verify nNow c p \<Longrightarrow> fst (pool_Add (Some r) verify nNow c p) \<noteq> ACCEPTED"
  by (auto simp: pool_accepts_def pool_Size_def pool_Add_def Add_checks_def Add_locked_def Let_def)

text \<open>
  A commitment is accepted exactly when the key and the signature are valid
  and verify, the key is neither committed nor pending, the time is at most five
  minutes ahead and the pool is not full; then it is found under its key, every
  fresh entry is kept and every expired one is gone.
\<close>

theorem pool_add_accepts:
  assumes "pool_inv p"
  shows "(fst (pool_Add (Some r) verify nNow c p) = ACCEPTED \<longleftrightarrow> pool_accepts r verify nNow c p) \<and>
    (pool_accepts r verify nNow c p \<longrightarrow>
      om_find (m_pending (snd (pool_Add (Some r) verify nNow c p))) k =
        (if k = pubKey c then Some c
         else case om_find (m_pending p) k of
                Some c' \<Rightarrow> if nNow - nTimestamp c' > 3600 then None else Some c'
              | None \<Rightarrow> None))"
proof -
  let ?P = "\<lambda>c'. \<not> nNow - nTimestamp c' > COMMIT_TTL_SECS"
  have wf: "om_wf (m_pending p)" "om_wf (filter (\<lambda>e. ?P (snd e)) (m_pending p))"
    using assms pool_inv_filter [OF assms, of "\<lambda>e. ?P (snd e)"] by (simp_all add: pool_inv_def)
  then have "om_find (om_set (pubKey c) c (filter (\<lambda>e. ?P (snd e)) (m_pending p))) k =
      (if k = pubKey c then Some c
       else case om_find (m_pending p) k of Some c' \<Rightarrow> if ?P c' then Some c' else None | None \<Rightarrow> None)"
    by (simp add: om_find_set om_find_filter [where P = ?P])
  then show ?thesis
    by (cases "pool_accepts r verify nNow c p")
      (auto simp: pool_Add_accepted pool_Add_rejected COMMIT_TTL_SECS_def split: option.split)
qed

theorem pool_add_accepts_witness:
  "fst (pool_Add (Some registry_ex) (\<lambda>c. True) 200 (commit_ex 4 200) pool_ex) = ACCEPTED"
  using pool_add_accepts [OF pool_reachable_inv [OF pool_ex_reachable], of registry_ex "\<lambda>c. True" 200 "commit_ex 4 200"]
  by (simp add: pool_accepts_def pool_ex_def registry_ex_eq HasCommitment_def om_find_def key_c_def commit_ex_def
      IsValid_def pool_Size_def MAX_PENDING_def)

definition full_pool :: "(nat, unit) CHMPCommitPool" where
  "full_pool = \<lparr>m_pending = map (\<lambda>n. (key_c n, commit_ex n 0)) [0..<256]\<rparr>"



end
