(* ===== verification/Hmp_Seal.thy ===== *)
theory Hmp_Seal
  imports Hmp_Identity Hmp_Commitment
begin

text \<open>
  \<^verbatim>\<open>hmp/seal.h\<close>, \<^verbatim>\<open>hmp/seal.cpp\<close> and \<^verbatim>\<open>hmp/seal_manager.cpp\<close>: seal shares, assembled
  seals and the manager that collects shares, signs, assembles, relays and caches.
  The clock (milliseconds) is an argument of every operation that reads it.  The
  privilege tracker and the registry are consulted, not changed, and are arguments;
  \<open>None\<close> is a null pointer.
\<close>

section \<open>Shares and seals\<close>

definition HMP_SEAL_DOMAIN_TAG :: string where "HMP_SEAL_DOMAIN_TAG = ''KRGN-HMP-SEAL-V1''"
definition MAX_SEAL_SIGNERS :: nat where "MAX_SEAL_SIGNERS = 200"
definition HMP_GROTH16_PROOF_SIZE :: nat where "HMP_GROTH16_PROOF_SIZE = 192"

record ('k, 's) CSealShare =
  ss_blockHash :: uint256
  ss_signerPubKey :: "'k CBLSPublicKey"
  ss_signature :: "'s CBLSSignature"
  ss_algoId :: "8 word"
  ss_nTimestamp :: int
  ss_vrfProof :: "'s CBLSSignature"
  ss_zkProof :: "8 word list"
  ss_commitment :: uint256

record ('k, 's) CAssembledSeal =
  as_blockHash :: uint256
  as_aggregatedSig :: "'s CBLSSignature"
  as_signers :: "'k CBLSPublicKey list"
  as_signerAlgos :: "8 word list"
  as_vrfProofs :: "'s CBLSSignature list"

text \<open>A string is serialised as its compact size, one byte for short strings, and its characters.\<close>

definition ser_string :: "string \<Rightarrow> 8 word list" where
  "ser_string s = of_nat (length s) # map (of_nat \<circ> of_char) s"

definition seal_message :: "('sk, 'k, 's) bls_ops \<Rightarrow> uint256 \<Rightarrow> 'k CBLSPublicKey \<Rightarrow> 8 word \<Rightarrow> uint256" where
  "seal_message ops blockHash pk algo =
     hash256 ops (ser_string HMP_SEAL_DOMAIN_TAG @ blockHash @ ser_pk ops pk @ [algo])"

definition share_GetHash :: "('sk, 'k, 's) bls_ops \<Rightarrow> ('k, 's) CSealShare \<Rightarrow> uint256" where
  "share_GetHash ops s = seal_message ops (ss_blockHash s) (ss_signerPubKey s) (ss_algoId s)"

definition seal_IsNull :: "('k, 's) CAssembledSeal \<Rightarrow> bool" where
  "seal_IsNull seal = IsNull (as_blockHash seal)"

definition seal_Verify :: "('sk, 'k, 's) bls_ops \<Rightarrow> ('k, 's) CAssembledSeal \<Rightarrow> bool" where
  "seal_Verify ops seal =
     (if IsNull (as_blockHash seal) \<or> as_signers seal = [] \<or> \<not> IsValid (as_aggregatedSig seal) then False
      else if length (as_signers seal) \<noteq> length (as_signerAlgos seal) then False
      else if \<not> distinct (as_signers seal) then False
      else if length (as_signers seal) > MAX_SEAL_SIGNERS then False
      else bls_verify_agg ops (as_aggregatedSig seal) (as_signers seal)
             (map (\<lambda>i. seal_message ops (as_blockHash seal) (as_signers seal ! i) (as_signerAlgos seal ! i))
               [0..<length (as_signers seal)]))"

section \<open>Manager state\<close>

record ('k, 's) CSealSession =
  se_blockHash :: uint256
  se_blockHeight :: int
  se_startTime :: int
  se_prevSealHash :: uint256
  se_shares :: "('k CBLSPublicKey, ('k, 's) CSealShare) omap"
  se_assembled :: bool

record SignAttempt =
  at_height :: int
  at_algo :: int
  at_tier :: int
  at_identityValid :: bool
  at_equivocationBlocked :: bool
  at_committed :: bool
  at_vrfValid :: bool
  at_vrfSelected :: bool
  at_shareAccepted :: bool
  at_failReason :: string
  at_timestamp :: int

record ('k, 's) CSealManager =
  m_signingWindowMs :: int
  m_gracePeriodMs :: int
  m_sealTrailingDepth :: int
  m_mandatoryProofHeight :: int
  m_sessions :: "(uint256, ('k, 's) CSealSession) omap"
  m_assembledSeals :: "(uint256, ('k, 's) CAssembledSeal) omap"
  m_sealInsertionOrder :: "uint256 list"
  m_heightToHash :: "(int, uint256) omap"
  m_signedBlocks :: "(int, uint256) omap"
  m_signAttempts :: "SignAttempt list"

definition new_seal_manager :: "Params \<Rightarrow> ('k, 's) CSealManager" where
  "new_seal_manager p = \<lparr>m_signingWindowMs = nHMPSigningWindowMs p, m_gracePeriodMs = nHMPGracePeriodMs p,
     m_sealTrailingDepth = nHMPSealTrailingDepth p, m_mandatoryProofHeight = nHMPMandatoryProofHeight p,
     m_sessions = [], m_assembledSeals = [], m_sealInsertionOrder = [], m_heightToHash = [], m_signedBlocks = [],
     m_signAttempts = []\<rparr>"

definition MAX_SIGN_ATTEMPTS :: int where "MAX_SIGN_ATTEMPTS = 20"

section \<open>Assembly and cleanup\<close>

definition assemble_seal :: "('sk, 'k, 's) bls_ops \<Rightarrow> ('k, 's) CSealSession \<Rightarrow> (('k, 's) CAssembledSeal) option" where
  "assemble_seal ops session =
     (let usable = filter (\<lambda>(pk, share). IsValid (ss_signature share) \<and> IsValid pk) (se_shares session);
          sigs = map (\<lambda>(pk, share). ss_signature share) usable
      in if sigs = [] then None
         else let aggSig = bls_aggregate ops sigs in
           if \<not> IsValid aggSig then None
           else let seal = \<lparr>as_blockHash = se_blockHash session, as_aggregatedSig = aggSig,
                            as_signers = map fst usable,
                            as_signerAlgos = map (\<lambda>(pk, share). ss_algoId share) usable,
                            as_vrfProofs = map (\<lambda>(pk, share). ss_vrfProof share) usable\<rparr>
                in if seal_Verify ops seal then Some seal else None)"

text \<open>
  \<^verbatim>\<open>TryAssemble\<close> on the session stored under \<open>hash\<close>; the pair to relay is the first
  component, \<open>None\<close> when the source returns false.
\<close>

definition TryAssemble ::
  "('sk, 'k, 's) bls_ops \<Rightarrow> uint256 \<Rightarrow> ('k, 's) CSealSession \<Rightarrow> ('k, 's) CSealManager \<Rightarrow>
   (('k, 's) CAssembledSeal \<times> int) option \<times> ('k, 's) CSealManager" where
  "TryAssemble ops hash session m =
     (if se_shares session = [] then (None, m)
      else case assemble_seal ops session of
             None \<Rightarrow> (None, m)
           | Some seal \<Rightarrow>
               (Some (seal, se_blockHeight session),
                m\<lparr>m_assembledSeals := om_set (se_blockHash session) seal (m_assembledSeals m),
                  m_sealInsertionOrder := m_sealInsertionOrder m @ [se_blockHash session],
                  m_sessions := om_set hash (session\<lparr>se_assembled := True\<rparr>) (m_sessions m)\<rparr>))"

text \<open>
  \<^verbatim>\<open>while (m_assembledSeals.size() > 20)\<close>: on an exhausted order the source would
  read the front of an empty deque; the invariant below excludes it.
\<close>

fun evict_seals ::
  "uint256 list \<Rightarrow> (uint256, ('k, 's) CAssembledSeal) omap \<Rightarrow> uint256 list \<times> (uint256, ('k, 's) CAssembledSeal) omap" where
  "evict_seals [] seals = ([], seals)"
| "evict_seals (oldest # order) seals =
     (if length seals > 20 then evict_seals order (om_erase oldest seals) else (oldest # order, seals))"

definition session_stale :: "int \<Rightarrow> int \<Rightarrow> ('k, 's) CSealSession \<Rightarrow> bool" where
  "session_stale now grace session =
     (let elapsed = now - se_startTime session
      in elapsed > grace \<and> se_assembled session \<or> elapsed > grace * 2)"

definition CleanupStaleSessions :: "int \<Rightarrow> ('k, 's) CSealManager \<Rightarrow> ('k, 's) CSealManager" where
  "CleanupStaleSessions now m =
     (let sessions = filter (\<lambda>e. \<not> session_stale now (m_gracePeriodMs m) (snd e)) (m_sessions m);
          (order, seals) = evict_seals (m_sealInsertionOrder m) (m_assembledSeals m)
      in m\<lparr>m_sessions := sessions, m_assembledSeals := seals, m_sealInsertionOrder := order,
           m_heightToHash := pop_front_over 20 (m_heightToHash m)\<rparr>)"

text \<open>The sessions that the worker looks at, in key order, each as the loop finds it.\<close>

fun worker_loop ::
  "('sk, 'k, 's) bls_ops \<Rightarrow> int \<Rightarrow> (uint256 \<times> ('k, 's) CSealSession) list \<Rightarrow>
   (('k, 's) CAssembledSeal \<times> int) list \<Rightarrow> ('k, 's) CSealManager \<Rightarrow>
   (('k, 's) CAssembledSeal \<times> int) list \<times> ('k, 's) CSealManager" where
  "worker_loop ops now [] relays m = (relays, m)"
| "worker_loop ops now ((hash, session) # rest) relays m =
     (if se_assembled session then worker_loop ops now rest relays m
      else if now - se_startTime session \<ge> m_signingWindowMs m
      then (let (relay, m') = TryAssemble ops hash session m
            in worker_loop ops now rest (case relay of None \<Rightarrow> relays | Some r \<Rightarrow> relays @ [r]) m')
      else worker_loop ops now rest relays m)"

definition worker_tick ::
  "('sk, 'k, 's) bls_ops \<Rightarrow> int \<Rightarrow> ('k, 's) CSealManager \<Rightarrow>
   (('k, 's) CAssembledSeal \<times> int) list \<times> ('k, 's) CSealManager" where
  "worker_tick ops now m =
     (let (relays, m') = worker_loop ops now (m_sessions m) [] m in (relays, CleanupStaleSessions now m'))"

definition OnNewBlock :: "int \<Rightarrow> uint256 \<Rightarrow> int \<Rightarrow> uint256 \<Rightarrow> ('k, 's) CSealManager \<Rightarrow> ('k, 's) CSealManager" where
  "OnNewBlock now blockHash height prevSealHash m =
     (if om_find (m_sessions m) blockHash \<noteq> None then m
      else m\<lparr>m_sessions := om_set blockHash
               \<lparr>se_blockHash = blockHash, se_blockHeight = height, se_startTime = now,
                se_prevSealHash = prevSealHash, se_shares = [], se_assembled = False\<rparr> (m_sessions m),
             m_heightToHash := om_set height blockHash (m_heightToHash m)\<rparr>)"

section \<open>Incoming shares\<close>

text \<open>The Groth16 prover and verifier behind \<^verbatim>\<open>hmp_proof\<close>; a thrown exception is an empty or absent result.\<close>

record zk_ops =
  zk_initialized :: bool
  zk_create :: "8 word list \<Rightarrow> uint256 \<Rightarrow> uint256 \<Rightarrow> 8 word list"
  zk_commitment :: "8 word list \<Rightarrow> uint256 \<Rightarrow> uint256 \<Rightarrow> uint256 option"
  zk_verify :: "8 word list \<Rightarrow> uint256 \<Rightarrow> uint256 \<Rightarrow> bool"

text \<open>
  \<^verbatim>\<open>AddSealShare\<close> in its three parts: the checks under the first lock, with the
  captured session data on success, the verification outside the lock, and the
  insertion under the second lock.
\<close>

definition share_precheck ::
  "int \<Rightarrow> ('k, 's) CSealShare \<Rightarrow> ('k, 's) CSealManager \<Rightarrow> HMPAcceptResult + uint256 \<times> int" where
  "share_precheck now share m =
     (if uint (ss_algoId share) \<ge> NUM_ALGOS then Inl REJECTED_INVALID
      else case om_find (m_sessions m) (ss_blockHash share) of
             None \<Rightarrow> Inl REJECTED_BENIGN
           | Some session \<Rightarrow>
               if se_assembled session then Inl REJECTED_BENIGN
               else if now - se_startTime session > m_signingWindowMs m + 2000 then Inl REJECTED_BENIGN
               else if om_find (se_shares session) (ss_signerPubKey share) \<noteq> None then Inl REJECTED_BENIGN
               else if length (se_shares session) \<ge> MAX_SEAL_SIGNERS then Inl REJECTED_BENIGN
               else Inr (se_prevSealHash session, se_blockHeight session))"

definition share_zk_check :: "zk_ops \<Rightarrow> ('k, 's) CSealShare \<Rightarrow> int \<Rightarrow> int \<Rightarrow> HMPAcceptResult option" where
  "share_zk_check zk share mandatoryHeight sessionBlockHeight =
     (if ss_zkProof share \<noteq> [] then
        (if length (ss_zkProof share) \<noteq> HMP_GROTH16_PROOF_SIZE then Some REJECTED_INVALID
         else if \<not> zk_initialized zk then Some REJECTED_BENIGN
         else if \<not> zk_verify zk (ss_zkProof share) (ss_blockHash share) (ss_commitment share) then Some REJECTED_INVALID
         else None)
      else if mandatoryHeight > 0 \<and> sessionBlockHeight \<ge> mandatoryHeight then Some REJECTED_INVALID
      else None)"

definition share_verify ::
  "('sk, 'k::linorder, 's) bls_ops \<Rightarrow> zk_ops \<Rightarrow> ('k CBLSPublicKey \<Rightarrow> unit option \<Rightarrow> bool) option \<Rightarrow>
   ('k CHMPPrivilegeTracker) option \<Rightarrow> ('k CHMPCommitmentRegistry) option \<Rightarrow>
   int \<Rightarrow> uint256 \<Rightarrow> int \<Rightarrow> ('k, 's) CSealShare \<Rightarrow> HMPAcceptResult option" where
  "share_verify ops zk mnLookup privilege commitments mandatoryHeight prevSealHash blockHeight share =
     (if \<not> bls_verify ops (ss_signature share) (ss_signerPubKey share) (share_GetHash ops share)
      then Some REJECTED_INVALID
      else
        let tier = (case privilege of
                      None \<Rightarrow> NEW
                    | Some p \<Rightarrow> GetTier mnLookup p (ss_signerPubKey share) (uint (ss_algoId share)) None)
        in if privilege \<noteq> None \<and> tier = UNKNOWN then Some REJECTED_BENIGN
           else if (case commitments of
                      None \<Rightarrow> False
                    | Some r \<Rightarrow> IsEnabled r \<and> \<not> IsCommitted r (ss_signerPubKey share) blockHeight)
           then Some REJECTED_BENIGN
           else if \<not> IsValid (ss_vrfProof share) then Some REJECTED_INVALID
           else if \<not> VerifyVRF (hash256 ops) (bls_verify ops) (ss_signerPubKey share) (ss_blockHash share)
                       prevSealHash (ss_vrfProof share)
           then Some REJECTED_INVALID
           else if \<not> IsVRFSelected (VRFOutputHash (hash256 ops) (ser_sig ops) (ss_vrfProof share))
                       (GetVRFTierMultiplier tier) HMP_VRF_BASE_THRESHOLD
           then Some REJECTED_BENIGN
           else share_zk_check zk share mandatoryHeight blockHeight)"

definition share_insert ::
  "('k::linorder, 's) CSealShare \<Rightarrow> ('k, 's) CSealManager \<Rightarrow> HMPAcceptResult \<times> ('k, 's) CSealManager" where
  "share_insert share m =
     (case om_find (m_sessions m) (ss_blockHash share) of
        None \<Rightarrow> (REJECTED_BENIGN, m)
      | Some session \<Rightarrow>
          if se_assembled session then (REJECTED_BENIGN, m)
          else if om_find (se_shares session) (ss_signerPubKey share) \<noteq> None then (REJECTED_BENIGN, m)
          else if length (se_shares session) \<ge> MAX_SEAL_SIGNERS then (REJECTED_BENIGN, m)
          else (ACCEPTED,
            m\<lparr>m_sessions := om_set (ss_blockHash share)
                (session\<lparr>se_shares := om_set (ss_signerPubKey share) share (se_shares session)\<rparr>) (m_sessions m)\<rparr>))"

definition AddSealShare ::
  "('sk, 'k::linorder, 's) bls_ops \<Rightarrow> zk_ops \<Rightarrow> ('k CBLSPublicKey \<Rightarrow> unit option \<Rightarrow> bool) option \<Rightarrow>
   ('k CHMPPrivilegeTracker) option \<Rightarrow> ('k CHMPCommitmentRegistry) option \<Rightarrow>
   int \<Rightarrow> ('k, 's) CSealShare \<Rightarrow> ('k, 's) CSealManager \<Rightarrow> HMPAcceptResult \<times> ('k, 's) CSealManager" where
  "AddSealShare ops zk mnLookup privilege commitments now share m =
     (case share_precheck now share m of
        Inl res \<Rightarrow> (res, m)
      | Inr (prevSealHash, blockHeight) \<Rightarrow>
          (case share_verify ops zk mnLookup privilege commitments (m_mandatoryProofHeight m) prevSealHash blockHeight share of
             Some res \<Rightarrow> (res, m)
           | None \<Rightarrow> share_insert share m))"

section \<open>Queries\<close>

definition GetSealForTemplate :: "('k, 's) CSealManager \<Rightarrow> int \<Rightarrow> (('k, 's) CAssembledSeal) option" where
  "GetSealForTemplate m height =
     (case om_find (m_heightToHash m) (height - m_sealTrailingDepth m) of
        None \<Rightarrow> None
      | Some hash \<Rightarrow> om_find (m_assembledSeals m) hash)"

definition GetSeal :: "('k, 's) CSealManager \<Rightarrow> uint256 \<Rightarrow> (('k, 's) CAssembledSeal) option" where
  "GetSeal m blockHash = om_find (m_assembledSeals m) blockHash"

definition GetShareCount :: "('k, 's) CSealManager \<Rightarrow> uint256 \<Rightarrow> nat" where
  "GetShareCount m blockHash =
     (case om_find (m_sessions m) blockHash of None \<Rightarrow> 0 | Some session \<Rightarrow> length (se_shares session))"

definition GetSignAttempts :: "('k, 's) CSealManager \<Rightarrow> SignAttempt list" where
  "GetSignAttempts m = m_signAttempts m"

definition GetActiveSessions :: "('k, 's) CSealManager \<Rightarrow> (uint256 \<times> int \<times> nat \<times> bool) list" where
  "GetActiveSessions m =
     map (\<lambda>(hash, session). (hash, se_blockHeight session, length (se_shares session), se_assembled session)) (m_sessions m)"

section \<open>Signing\<close>

definition RecordAttempt :: "SignAttempt \<Rightarrow> ('k, 's) CSealManager \<Rightarrow> ('k, 's) CSealManager" where
  "RecordAttempt attempt m =
     m\<lparr>m_signAttempts := pop_front_over MAX_SIGN_ATTEMPTS (m_signAttempts m @ [attempt])\<rparr>"

definition new_attempt :: "int \<Rightarrow> int \<Rightarrow> SignAttempt" where
  "new_attempt algo now = \<lparr>at_height = 0, at_algo = algo, at_tier = - 1, at_identityValid = False,
     at_equivocationBlocked = False, at_committed = False, at_vrfValid = False, at_vrfSelected = False,
     at_shareAccepted = False, at_failReason = '''', at_timestamp = now\<rparr>"

text \<open>Height and VRF entropy of the block to sign: its session, else the height index.\<close>

definition sign_context :: "uint256 \<Rightarrow> ('k, 's) CSealManager \<Rightarrow> int \<times> uint256" where
  "sign_context blockHash m =
     (let (height, prevSealHash) =
        (case om_find (m_sessions m) blockHash of
           Some session \<Rightarrow> (se_blockHeight session, se_prevSealHash session)
         | None \<Rightarrow> (- 1, replicate 32 0))
      in if height < 0
         then (case filter (\<lambda>e. snd e = blockHash) (m_heightToHash m) of
                 [] \<Rightarrow> (height, prevSealHash)
               | e # _ \<Rightarrow> (fst e, prevSealHash))
         else (height, prevSealHash))"

definition sign_register :: "uint256 \<Rightarrow> int \<Rightarrow> ('k, 's) CSealManager \<Rightarrow> (('k, 's) CSealManager) option" where
  "sign_register blockHash height m =
     (if height \<ge> 0 \<and> (case om_find (m_signedBlocks m) height of None \<Rightarrow> False | Some h \<Rightarrow> h \<noteq> blockHash) then None
      else
        let pruned = (if m_signedBlocks m \<noteq> [] \<and> height > 100
                      then dropWhile (\<lambda>e. fst e < height - 100) (m_signedBlocks m) else m_signedBlocks m)
        in Some (m\<lparr>m_signedBlocks := (if height \<ge> 0 then om_set height blockHash pruned else pruned)\<rparr>))"

definition make_share ::
  "('sk, 'k, 's) bls_ops \<Rightarrow> zk_ops \<Rightarrow> ('sk, 'k) CHMPIdentity \<Rightarrow> bool \<Rightarrow> int \<Rightarrow> uint256 \<Rightarrow> int \<Rightarrow> uint256 \<Rightarrow>
   's CBLSSignature \<Rightarrow> ('k, 's) CSealShare" where
  "make_share ops zk identity proofsMandatory now blockHash algo prevSealHash vrfProof =
     (let algoId = word_of_int algo;
          share = \<lparr>ss_blockHash = blockHash, ss_signerPubKey = id_publicKey identity,
                   ss_signature = identity_Sign ops identity (seal_message ops blockHash (id_publicKey identity) algoId),
                   ss_algoId = algoId, ss_nTimestamp = now, ss_vrfProof = vrfProof, ss_zkProof = [],
                   ss_commitment = replicate 32 0\<rparr>
      in if proofsMandatory \<and> zk_initialized zk
         then (case GetSecretKeyBytes ops identity of
                 None \<Rightarrow> share
               | Some sk_bytes \<Rightarrow>
                   let proof = zk_create zk sk_bytes blockHash prevSealHash in
                   if proof = [] then share\<lparr>ss_zkProof := proof\<rparr>
                   else (case zk_commitment zk sk_bytes blockHash prevSealHash of
                           None \<Rightarrow> share\<lparr>ss_zkProof := proof\<rparr>
                         | Some c \<Rightarrow> share\<lparr>ss_zkProof := proof, ss_commitment := c\<rparr>))
         else share)"

definition sign_eligible ::
  "('sk, 'k::linorder, 's) bls_ops \<Rightarrow> zk_ops \<Rightarrow> ('k CBLSPublicKey \<Rightarrow> unit option \<Rightarrow> bool) option \<Rightarrow>
   ('k CHMPPrivilegeTracker) option \<Rightarrow> ('k CHMPCommitmentRegistry) option \<Rightarrow> ('sk, 'k) CHMPIdentity \<Rightarrow>
   int \<Rightarrow> uint256 \<Rightarrow> int \<Rightarrow> uint256 \<Rightarrow> SignAttempt \<Rightarrow> ('k, 's) CSealManager \<Rightarrow>
   (('k, 's) CSealShare) option \<times> ('k, 's) CSealManager" where
  "sign_eligible ops zk mnLookup privilege commitments identity now blockHash algo prevSealHash attempt m =
     (let pk = id_publicKey identity;
          tier = (case privilege of None \<Rightarrow> NEW | Some p \<Rightarrow> GetTier mnLookup p pk algo None);
          attempt = (if privilege = None then attempt else attempt\<lparr>at_tier := int (tier_rank tier)\<rparr>)
      in if privilege \<noteq> None \<and> tier = UNKNOWN
         then (None, RecordAttempt (attempt\<lparr>at_failReason := ''unknown_tier''\<rparr>) m)
         else
           let attempt = attempt\<lparr>at_committed :=
                 (case commitments of
                    None \<Rightarrow> True
                  | Some r \<Rightarrow> if IsEnabled r then IsCommitted r pk (at_height attempt) else True)\<rparr>;
               vrfProof = SignVRF ops identity blockHash prevSealHash
           in if \<not> IsValid vrfProof then (None, RecordAttempt (attempt\<lparr>at_failReason := ''vrf_invalid''\<rparr>) m)
              else let attempt = attempt\<lparr>at_vrfValid := True\<rparr> in
                if \<not> IsVRFSelected (VRFOutputHash (hash256 ops) (ser_sig ops) vrfProof)
                       (GetVRFTierMultiplier tier) HMP_VRF_BASE_THRESHOLD
                then (None, RecordAttempt (attempt\<lparr>at_failReason := ''vrf_not_selected''\<rparr>) m)
                else
                  let attempt = attempt\<lparr>at_vrfSelected := True\<rparr>;
                      proofsMandatory = (m_mandatoryProofHeight m > 0 \<and> at_height attempt \<ge> m_mandatoryProofHeight m);
                      share = make_share ops zk identity proofsMandatory now blockHash algo prevSealHash vrfProof
                  in if \<not> IsValid (ss_signature share)
                     then (None, RecordAttempt (attempt\<lparr>at_failReason := ''signature_invalid''\<rparr>) m)
                     else (Some share, RecordAttempt (attempt\<lparr>at_shareAccepted := True, at_failReason := ''success''\<rparr>) m))"

definition SignBlock ::
  "('sk, 'k::linorder, 's) bls_ops \<Rightarrow> zk_ops \<Rightarrow> ('k CBLSPublicKey \<Rightarrow> unit option \<Rightarrow> bool) option \<Rightarrow>
   ('k CHMPPrivilegeTracker) option \<Rightarrow> ('k CHMPCommitmentRegistry) option \<Rightarrow> (('sk, 'k) CHMPIdentity) option \<Rightarrow>
   int \<Rightarrow> uint256 \<Rightarrow> int \<Rightarrow> ('k, 's) CSealManager \<Rightarrow> (('k, 's) CSealShare) option \<times> ('k, 's) CSealManager" where
  "SignBlock ops zk mnLookup privilege commitments identity now blockHash algo m =
     (let attempt = new_attempt algo now in
      case identity of
        None \<Rightarrow> (None, RecordAttempt (attempt\<lparr>at_failReason := ''identity_invalid''\<rparr>) m)
      | Some i \<Rightarrow>
          if \<not> identity_IsValid i then (None, RecordAttempt (attempt\<lparr>at_failReason := ''identity_invalid''\<rparr>) m)
          else
            let (height, prevSealHash) = sign_context blockHash m;
                attempt = attempt\<lparr>at_identityValid := True, at_height := height\<rparr>
            in case sign_register blockHash height m of
                 None \<Rightarrow> (None, RecordAttempt (attempt\<lparr>at_equivocationBlocked := True, at_failReason := ''equivocation''\<rparr>) m)
               | Some m' \<Rightarrow>
                   sign_eligible ops zk mnLookup privilege commitments i now blockHash algo prevSealHash attempt m')"

section \<open>Assembled seals from peers and reorganisations\<close>

definition no_better_seal :: "('k, 's) CAssembledSeal \<Rightarrow> (('k, 's) CAssembledSeal) option \<Rightarrow> bool" where
  "no_better_seal seal existing =
     (case existing of None \<Rightarrow> False | Some e \<Rightarrow> length (as_signers e) \<ge> length (as_signers seal))"

definition other_at_height :: "('k, 's) CSealManager \<Rightarrow> ('k, 's) CAssembledSeal \<Rightarrow> int \<Rightarrow> uint256 option" where
  "other_at_height m seal height =
     (case om_find (m_heightToHash m) height of
        None \<Rightarrow> None
      | Some h \<Rightarrow> if h \<noteq> as_blockHash seal then Some h else None)"

text \<open>The two lookups that both locked sections of \<^verbatim>\<open>AddAssembledSeal\<close> start with.\<close>

definition seal_superseded :: "('k, 's) CAssembledSeal \<Rightarrow> int \<Rightarrow> ('k, 's) CSealManager \<Rightarrow> HMPAcceptResult option" where
  "seal_superseded seal height m =
     (if no_better_seal seal (om_find (m_assembledSeals m) (as_blockHash seal)) then Some ACCEPTED
      else case other_at_height m seal height of
             None \<Rightarrow> None
           | Some h \<Rightarrow> if no_better_seal seal (om_find (m_assembledSeals m) h) then Some REJECTED_BENIGN else None)"

fun erase_first_value :: "uint256 \<Rightarrow> (int, uint256) omap \<Rightarrow> (int, uint256) omap" where
  "erase_first_value v [] = []"
| "erase_first_value v ((h, v') # m) = (if v' = v then m else (h, v') # erase_first_value v m)"

fun evict_seals_heights ::
  "uint256 list \<Rightarrow> (int, uint256) omap \<Rightarrow> (uint256, ('k, 's) CAssembledSeal) omap \<Rightarrow>
   uint256 list \<times> (int, uint256) omap \<times> (uint256, ('k, 's) CAssembledSeal) omap" where
  "evict_seals_heights [] heights seals = ([], heights, seals)"
| "evict_seals_heights (oldest # order) heights seals =
     (if length seals > 20 then evict_seals_heights order (erase_first_value oldest heights) (om_erase oldest seals)
      else (oldest # order, heights, seals))"

definition seal_commit :: "('k, 's) CAssembledSeal \<Rightarrow> int \<Rightarrow> ('k, 's) CSealManager \<Rightarrow> HMPAcceptResult \<times> ('k, 's) CSealManager" where
  "seal_commit seal height m =
     (case seal_superseded seal height m of
        Some res \<Rightarrow> (res, m)
      | None \<Rightarrow>
          let hash = as_blockHash seal;
              (seals1, order1) =
                (case other_at_height m seal height of
                   None \<Rightarrow> (m_assembledSeals m, m_sealInsertionOrder m)
                 | Some h \<Rightarrow> (om_erase h (m_assembledSeals m), removeAll h (m_sealInsertionOrder m)));
              seals2 = om_set hash seal seals1;
              heights2 = om_set height hash (m_heightToHash m);
              order2 = removeAll hash order1 @ [hash];
              (order3, heights3, seals3) = evict_seals_heights order2 heights2 seals2
          in (ACCEPTED, m\<lparr>m_assembledSeals := seals3, m_heightToHash := heights3, m_sealInsertionOrder := order3\<rparr>))"

definition AddAssembledSeal ::
  "('sk, 'k, 's) bls_ops \<Rightarrow> ('k, 's) CAssembledSeal \<Rightarrow> int \<Rightarrow> ('k, 's) CSealManager \<Rightarrow>
   HMPAcceptResult \<times> ('k, 's) CSealManager" where
  "AddAssembledSeal ops seal height m =
     (if seal_IsNull seal then (REJECTED_BENIGN, m)
      else case seal_superseded seal height m of
             Some res \<Rightarrow> (res, m)
           | None \<Rightarrow>
               if length (as_signers seal) > MAX_SEAL_SIGNERS then (REJECTED_INVALID, m)
               else if \<not> distinct (as_signers seal) then (REJECTED_INVALID, m)
               else if \<not> seal_Verify ops seal then (REJECTED_INVALID, m)
               else seal_commit seal height m)"

definition seal_BlockDisconnected :: "uint256 \<Rightarrow> int \<Rightarrow> ('k, 's) CSealManager \<Rightarrow> ('k, 's) CSealManager" where
  "seal_BlockDisconnected blockHash height m =
     m\<lparr>m_sessions := om_erase blockHash (m_sessions m),
       m_assembledSeals := om_erase blockHash (m_assembledSeals m),
       m_sealInsertionOrder := removeAll blockHash (m_sealInsertionOrder m),
       m_heightToHash := om_erase height (m_heightToHash m),
       m_signedBlocks := om_erase height (m_signedBlocks m)\<rparr>"

section \<open>The manager invariant\<close>

text \<open>What a stored share and a stored seal are known to satisfy.\<close>

definition share_ok :: "('sk, 'k, 's) bls_ops \<Rightarrow> uint256 \<Rightarrow> 'k CBLSPublicKey \<Rightarrow> ('k, 's) CSealShare \<Rightarrow> bool" where
  "share_ok ops hash pk share =
     (ss_signerPubKey share = pk \<and> ss_blockHash share = hash \<and> uint (ss_algoId share) < NUM_ALGOS \<and>
      bls_verify ops (ss_signature share) pk (seal_message ops hash pk (ss_algoId share)))"

definition session_ok :: "('sk, 'k::linorder, 's) bls_ops \<Rightarrow> uint256 \<Rightarrow> ('k, 's) CSealSession \<Rightarrow> bool" where
  "session_ok ops hash session =
     (se_blockHash session = hash \<and> om_wf (se_shares session) \<and> length (se_shares session) \<le> MAX_SEAL_SIGNERS \<and>
      list_all (\<lambda>(pk, share). share_ok ops hash pk share) (se_shares session))"

definition seal_ok :: "('sk, 'k, 's) bls_ops \<Rightarrow> uint256 \<Rightarrow> ('k, 's) CAssembledSeal \<Rightarrow> bool" where
  "seal_ok ops hash seal = (as_blockHash seal = hash \<and> seal_Verify ops seal)"

definition cache_ok ::
  "('sk, 'k, 's) bls_ops \<Rightarrow> uint256 list \<Rightarrow> (uint256, ('k, 's) CAssembledSeal) omap \<Rightarrow> bool" where
  "cache_ok ops order seals =
     (om_wf seals \<and> list_all (\<lambda>(hash, seal). seal_ok ops hash seal) seals \<and> fst ` set seals \<subseteq> set order)"

definition seal_inv :: "('sk, 'k::linorder, 's) bls_ops \<Rightarrow> ('k, 's) CSealManager \<Rightarrow> bool" where
  "seal_inv ops m =
     (om_wf (m_sessions m) \<and> list_all (\<lambda>(hash, session). session_ok ops hash session) (m_sessions m) \<and>
      cache_ok ops (m_sealInsertionOrder m) (m_assembledSeals m) \<and>
      om_wf (m_heightToHash m) \<and> om_wf (m_signedBlocks m) \<and> length (m_signAttempts m) \<le> 20)"

lemma list_all_om_set:
  "list_all (\<lambda>(k, v). P k v) m \<Longrightarrow> P k v \<Longrightarrow> list_all (\<lambda>(k, v). P k v) (om_set k v m)"
  using set_om_set [of k v m] by (fastforce simp: list_all_iff)

lemma list_all_filter: "list_all P xs \<Longrightarrow> list_all P (filter Q xs)"
  by (simp add: list_all_iff)

lemma list_all_om_erase: "list_all P m \<Longrightarrow> list_all P (om_erase k m)"
  by (simp add: om_erase_def list_all_filter)

lemma om_wf_single [simp]: "om_wf [e]"
  by (simp add: om_wf_def)

lemma cache_ok_erase: "cache_ok ops order seals \<Longrightarrow> cache_ok ops (removeAll h order) (om_erase h seals)"
  by (auto simp: cache_ok_def om_erase_def om_wf_filter list_all_filter)

lemma cache_ok_pop: "cache_ok ops (h # order) seals \<Longrightarrow> cache_ok ops order (om_erase h seals)"
  by (auto simp: cache_ok_def om_erase_def om_wf_filter list_all_filter)

lemma cache_ok_set:
  "cache_ok ops order seals \<Longrightarrow> seal_ok ops h seal \<Longrightarrow> set order \<subseteq> set order' \<Longrightarrow> h \<in> set order' \<Longrightarrow>
   cache_ok ops order' (om_set h seal seals)"
  by (auto simp: cache_ok_def keys_om_set list_all_om_set)

lemma cache_ok_order: "cache_ok ops order seals \<Longrightarrow> set order \<subseteq> set order' \<Longrightarrow> cache_ok ops order' seals"
  by (auto simp: cache_ok_def)

lemma evict_seals_ok:
  "cache_ok ops order seals \<Longrightarrow>
   cache_ok ops (fst (evict_seals order seals)) (snd (evict_seals order seals)) \<and>
   length (snd (evict_seals order seals)) \<le> 20"
proof (induction order seals rule: evict_seals.induct)
  case (1 seals)
  then show ?case by (auto simp: cache_ok_def)
next
  case (2 h order seals)
  then show ?case by (auto dest: cache_ok_pop)
qed

lemma om_wf_erase_first_value: "om_wf m \<Longrightarrow> om_wf (erase_first_value v m)"
proof (induction v m rule: erase_first_value.induct)
  case (2 v h v' m)
  have "set (erase_first_value v m) \<subseteq> set m"
    by (induction v m rule: erase_first_value.induct) auto
  then show ?case using 2 by (auto simp: om_wf_Cons)
qed simp

lemma evict_seals_heights_ok:
  assumes "cache_ok ops order seals" "om_wf heights"
  shows "cache_ok ops (fst (evict_seals_heights order heights seals)) (snd (snd (evict_seals_heights order heights seals))) \<and>
   om_wf (fst (snd (evict_seals_heights order heights seals))) \<and>
   length (snd (snd (evict_seals_heights order heights seals))) \<le> 20"
  using assms
proof (induction order heights seals rule: evict_seals_heights.induct)
  case (1 heights seals)
  then show ?case by (auto simp: cache_ok_def)
next
  case (2 h order heights seals)
  then show ?case by (auto dest: cache_ok_pop om_wf_erase_first_value)
qed

section \<open>Every operation keeps it\<close>

lemma seal_inv_new: "seal_inv ops (new_seal_manager p)"
  by (simp add: seal_inv_def new_seal_manager_def cache_ok_def)

lemma seal_inv_session: "seal_inv ops m \<Longrightarrow> om_find (m_sessions m) h = Some s \<Longrightarrow> session_ok ops h s"
  by (auto simp: seal_inv_def om_list_all)

lemma seal_inv_OnNewBlock: "seal_inv ops m \<Longrightarrow> seal_inv ops (OnNewBlock now h height prev m)"
  by (auto simp: seal_inv_def OnNewBlock_def session_ok_def intro!: list_all_om_set)

lemma seal_inv_insert:
  assumes inv: "seal_inv ops m" and ok: "share_ok ops (ss_blockHash share) (ss_signerPubKey share) share"
  shows "seal_inv ops (snd (share_insert share m))"
proof (cases "om_find (m_sessions m) (ss_blockHash share)")
  case (Some session)
  have s: "session_ok ops (ss_blockHash share) session" by (rule seal_inv_session [OF inv Some])
  have "session_ok ops (ss_blockHash share)
      (session\<lparr>se_shares := om_set (ss_signerPubKey share) share (se_shares session)\<rparr>)"
    if "length (se_shares session) < MAX_SEAL_SIGNERS" "om_find (se_shares session) (ss_signerPubKey share) = None"
    using s ok that by (auto simp: session_ok_def length_om_set intro!: list_all_om_set)
  then show ?thesis using inv Some
    by (auto simp: share_insert_def seal_inv_def intro!: list_all_om_set)
qed (simp add: share_insert_def inv)

lemma seal_inv_disconnect: "seal_inv ops m \<Longrightarrow> seal_inv ops (seal_BlockDisconnected h height m)"
  by (simp add: seal_inv_def seal_BlockDisconnected_def cache_ok_erase list_all_om_erase)

lemma seal_inv_RecordAttempt: "seal_inv ops m \<Longrightarrow> seal_inv ops (RecordAttempt a m)"
  by (simp add: seal_inv_def RecordAttempt_def length_pop_front_over MAX_SIGN_ATTEMPTS_def)

lemma seal_inv_register: "seal_inv ops m \<Longrightarrow> sign_register h height m = Some m' \<Longrightarrow> seal_inv ops m'"
  by (auto simp: seal_inv_def sign_register_def Let_def om_dropWhile_less split: if_splits)

lemma seal_inv_SignBlock: "seal_inv ops m \<Longrightarrow> seal_inv ops (snd (SignBlock ops zk l p r i now h algo m))"
  by (auto simp: SignBlock_def sign_eligible_def Let_def seal_inv_RecordAttempt
      dest: seal_inv_register split: option.splits prod.splits)

lemma seal_inv_commit:
  assumes inv: "seal_inv ops m" and v: "seal_Verify ops seal"
  shows "seal_inv ops (snd (seal_commit seal height m))"
    and "length (m_assembledSeals m) \<le> 20 \<Longrightarrow> length (m_assembledSeals (snd (seal_commit seal height m))) \<le> 20"
proof -
  let ?h = "as_blockHash seal"
  have c: "cache_ok ops (m_sealInsertionOrder m) (m_assembledSeals m)" using inv by (simp add: seal_inv_def)
  have ok: "seal_ok ops ?h seal" using v by (simp add: seal_ok_def)
  have wf: "om_wf (om_set height ?h (m_heightToHash m))" using inv by (simp add: seal_inv_def)
  define sp where "sp = (case other_at_height m seal height of
      None \<Rightarrow> (m_assembledSeals m, m_sealInsertionOrder m)
    | Some h \<Rightarrow> (om_erase h (m_assembledSeals m), removeAll h (m_sealInsertionOrder m)))"
  have "cache_ok ops (snd sp) (fst sp)" using c cache_ok_erase [OF c] by (simp add: sp_def split: option.split)
  then have "cache_ok ops (removeAll ?h (snd sp) @ [?h]) (om_set ?h seal (fst sp))"
    using ok by (rule cache_ok_set) auto
  note e = evict_seals_heights_ok [OF this wf]
  then have "seal_inv ops (snd (seal_commit seal height m)) \<and>
      (length (m_assembledSeals m) \<le> 20 \<longrightarrow> length (m_assembledSeals (snd (seal_commit seal height m))) \<le> 20)"
    using inv
    by (cases "seal_superseded seal height m")
      (simp_all add: seal_commit_def Let_def seal_inv_def case_prod_beta flip: sp_def)
  then show "seal_inv ops (snd (seal_commit seal height m))"
    "length (m_assembledSeals m) \<le> 20 \<Longrightarrow> length (m_assembledSeals (snd (seal_commit seal height m))) \<le> 20"
    by blast+
qed

lemma assemble_seal_ok: "session_ok ops h s \<Longrightarrow> assemble_seal ops s = Some seal \<Longrightarrow> seal_ok ops h seal"
  by (auto simp: assemble_seal_def Let_def seal_ok_def session_ok_def split: if_splits)

lemma seal_inv_TryAssemble:
  assumes inv: "seal_inv ops m" and s: "session_ok ops h s"
  shows "seal_inv ops (snd (TryAssemble ops h s m))"
proof (cases "se_shares s = [] \<or> assemble_seal ops s = None")
  case False
  then obtain seal where seal: "assemble_seal ops s = Some seal" "se_shares s \<noteq> []" by auto
  have "cache_ok ops (m_sealInsertionOrder m @ [h]) (om_set h seal (m_assembledSeals m))"
    using inv by (intro cache_ok_set [OF _ assemble_seal_ok [OF s seal(1)]]) (auto simp: seal_inv_def)
  moreover have "session_ok ops h (s\<lparr>se_assembled := True\<rparr>)" "se_blockHash s = h" using s by (simp_all add: session_ok_def)
  ultimately show ?thesis using inv seal
    by (simp add: TryAssemble_def seal_inv_def list_all_om_set)
qed (auto simp: TryAssemble_def inv)

lemma seal_inv_worker_loop:
  "seal_inv ops m \<Longrightarrow> list_all (\<lambda>(h, s). session_ok ops h s) es \<Longrightarrow>
   seal_inv ops (snd (worker_loop ops now es relays m))"
proof (induction ops now es relays m rule: worker_loop.induct)
  case (2 ops now h s rest relays m)
  then show ?case
    using seal_inv_TryAssemble [of ops m h s] by (auto split: prod.split)
qed simp

lemma seal_inv_Cleanup:
  assumes "seal_inv ops m"
  shows "seal_inv ops (CleanupStaleSessions now m) \<and> length (m_assembledSeals (CleanupStaleSessions now m)) \<le> 20"
proof -
  have "om_wf (pop_front_over 20 (m_heightToHash m))"
    using assms by (auto simp: seal_inv_def om_wf_def pop_front_over_drop drop_map [symmetric] intro: sorted_wrt_drop)
  then show ?thesis using assms evict_seals_ok [of ops "m_sealInsertionOrder m" "m_assembledSeals m"]
    by (simp add: CleanupStaleSessions_def Let_def case_prod_beta seal_inv_def om_wf_filter list_all_filter)
qed

lemma seal_inv_tick:
  assumes "seal_inv ops m"
  shows "seal_inv ops (snd (worker_tick ops now m)) \<and> length (m_assembledSeals (snd (worker_tick ops now m))) \<le> 20"
  using seal_inv_Cleanup [OF seal_inv_worker_loop [OF assms, of "m_sessions m" now "[]"]] assms
  by (simp add: worker_tick_def case_prod_beta seal_inv_def)

section \<open>Runs of the manager\<close>

text \<open>
  The events a run records: a signature attempt that passed the equivocation test,
  with the height and block it registered and the share if one was produced; the
  disconnection of a height; anything else.
\<close>

datatype ('k, 's) seal_event = Sign int uint256 "(('k, 's) CSealShare) option" | Disconnect int | Other

inductive seal_step ::
  "('sk, 'k::linorder, 's) bls_ops \<Rightarrow> ('k, 's) CSealManager \<Rightarrow> ('k, 's) seal_event \<Rightarrow> ('k, 's) CSealManager \<Rightarrow> bool"
  for ops where
  new_block: "seal_step ops m Other (OnNewBlock now h height prev m)"
| share: "share_precheck now share m0 = Inr (prev, height) \<Longrightarrow>
    share_verify ops zk l p r mandatory prev height share = None \<Longrightarrow>
    seal_step ops m Other (snd (share_insert share m))"
| sign: "identity_IsValid i \<Longrightarrow> sign_context h m = (height, prev) \<Longrightarrow> sign_register h height m \<noteq> None \<Longrightarrow>
    SignBlock ops zk l p r (Some i) now h algo m = (res, m') \<Longrightarrow> seal_step ops m (Sign height h res) m'"
| sign_fails: "SignBlock ops zk l p r io now h algo m = (None, m') \<Longrightarrow>
    sign_register h (fst (sign_context h m)) m = None \<or> io = None \<Longrightarrow> seal_step ops m Other m'"
| assembled: "seal_Verify ops seal \<Longrightarrow> seal_step ops m Other (snd (seal_commit seal height m))"
| tick: "seal_step ops m Other (snd (worker_tick ops now m))"
| disconnect: "seal_step ops m (Disconnect height) (seal_BlockDisconnected h height m)"

inductive seal_run ::
  "('sk, 'k::linorder, 's) bls_ops \<Rightarrow> ('k, 's) CSealManager \<Rightarrow> ('k, 's) seal_event list \<Rightarrow> ('k, 's) CSealManager \<Rightarrow> bool"
  for ops m0 where
  refl: "seal_run ops m0 [] m0"
| step: "seal_run ops m0 tr m \<Longrightarrow> seal_step ops m e m' \<Longrightarrow> seal_run ops m0 (tr @ [e]) m'"

lemma seal_inv_step: "seal_step ops m e m' \<Longrightarrow> seal_inv ops m \<Longrightarrow> seal_inv ops m'"
proof (induction rule: seal_step.induct)
  case (share now share m0 prev height zk l p r mandatory m)
  have "share_ok ops (ss_blockHash share) (ss_signerPubKey share) share"
    using share.hyps
    by (auto simp: share_ok_def share_precheck_def share_verify_def share_GetHash_def Let_def split: if_splits)
  then show ?case using share.prems by (rule seal_inv_insert [rotated])
next
  case (sign i h m height prev zk l p r now algo res m')
  then show ?case using seal_inv_SignBlock by (metis snd_conv)
next
  case (sign_fails zk l p r io now h algo m m')
  then show ?case using seal_inv_SignBlock by (metis snd_conv)
qed (simp_all add: seal_inv_OnNewBlock seal_inv_commit seal_inv_tick seal_inv_disconnect)

lemma SignBlock_cache: "m_assembledSeals (snd (SignBlock ops zk l p r i now h algo m)) = m_assembledSeals m"
  by (auto simp: SignBlock_def sign_eligible_def sign_register_def RecordAttempt_def Let_def
      split: option.splits prod.splits)

lemma seal_step_seals:
  "seal_step ops m e m' \<Longrightarrow> seal_inv ops m \<Longrightarrow> length (m_assembledSeals m) \<le> 20 \<Longrightarrow> length (m_assembledSeals m') \<le> 20"
proof (induction rule: seal_step.induct)
  case (sign i h m height prev zk l p r now algo res m')
  then show ?case using SignBlock_cache by (metis snd_conv)
next
  case (sign_fails zk l p r io now h algo m m')
  then show ?case using SignBlock_cache by (metis snd_conv)
next
  case (disconnect m height h)
  then show ?case
    by (auto simp: seal_BlockDisconnected_def om_erase_def intro: order_trans [OF length_filter_le])
qed (auto simp: OnNewBlock_def share_insert_def seal_inv_tick seal_inv_commit split: option.splits)

lemma seals_new [simp]: "m_assembledSeals (new_seal_manager p) = []"
  by (simp add: new_seal_manager_def)

lemma seal_run_inv:
  "seal_run ops m0 tr m \<Longrightarrow> seal_inv ops m0 \<Longrightarrow> length (m_assembledSeals m0) \<le> 20 \<Longrightarrow>
   seal_inv ops m \<and> length (m_assembledSeals m) \<le> 20"
  by (induction rule: seal_run.induct) (auto dest: seal_inv_step seal_step_seals)

section \<open>Equivocation\<close>

lemma SignBlock_signed:
  assumes "identity_IsValid i" "sign_context h m = (height, prev)" "sign_register h height m = Some m1"
  shows "m_signedBlocks (snd (SignBlock ops zk l p r (Some i) now h algo m)) = m_signedBlocks m1"
  using assms by (auto simp: SignBlock_def sign_eligible_def RecordAttempt_def Let_def split: option.splits)

lemma SignBlock_not_registered:
  "sign_register h (fst (sign_context h m)) m = None \<or> io = None \<Longrightarrow>
   m_signedBlocks (snd (SignBlock ops zk l p r io now h algo m)) = m_signedBlocks m"
  by (auto simp: SignBlock_def RecordAttempt_def Let_def split: option.splits prod.splits)

lemma sign_register_find:
  assumes wf: "om_wf (m_signedBlocks m)" and reg: "sign_register h height m = Some m1"
  shows "0 \<le> height \<Longrightarrow> om_find (m_signedBlocks m1) height = Some h"
    and "0 \<le> height \<Longrightarrow> om_find (m_signedBlocks m) height \<in> {None, Some h}"
    and "x \<noteq> height \<Longrightarrow> height \<le> x + 100 \<Longrightarrow> om_find (m_signedBlocks m1) x = om_find (m_signedBlocks m) x"
proof -
  let ?pr = "if m_signedBlocks m \<noteq> [] \<and> height > 100
    then dropWhile (\<lambda>e. fst e < height - 100) (m_signedBlocks m) else m_signedBlocks m"
  have m1: "m1 = m\<lparr>m_signedBlocks := (if height \<ge> 0 then om_set height h ?pr else ?pr)\<rparr>"
    and free: "0 \<le> height \<Longrightarrow> om_find (m_signedBlocks m) height \<in> {None, Some h}"
    using reg by (auto simp: sign_register_def Let_def split: if_splits option.splits)
  have pr: "om_wf ?pr" "\<not> x < height - 100 \<Longrightarrow> om_find ?pr x = om_find (m_signedBlocks m) x" for x
    using wf by (auto simp: om_dropWhile_less om_find_erase_if)
  show "0 \<le> height \<Longrightarrow> om_find (m_signedBlocks m1) height = Some h" by (simp add: m1 om_find_set [OF pr(1)])
  show "0 \<le> height \<Longrightarrow> om_find (m_signedBlocks m) height \<in> {None, Some h}" by (rule free)
  show "x \<noteq> height \<Longrightarrow> height \<le> x + 100 \<Longrightarrow> om_find (m_signedBlocks m1) x = om_find (m_signedBlocks m) x"
    using pr(2) [of x] by (simp add: m1 om_find_set [OF pr(1)])
qed

text \<open>The height stays registered with the block it was first signed for.\<close>

definition keeps_height :: "int \<Rightarrow> ('k, 's) seal_event \<Rightarrow> bool" where
  "keeps_height x e = (case e of Sign height h s \<Rightarrow> height \<le> x + 100 | Disconnect height \<Rightarrow> height \<noteq> x | Other \<Rightarrow> True)"

lemma worker_loop_signed: "m_signedBlocks (snd (worker_loop ops now es relays m)) = m_signedBlocks m"
proof (induction ops now es relays m rule: worker_loop.induct)
  case (2 ops now hash session rest relays m)
  have "m_signedBlocks (snd (TryAssemble ops hash session m)) = m_signedBlocks m"
    by (simp add: TryAssemble_def split: option.split)
  moreover obtain r m1 where "TryAssemble ops hash session m = (r, m1)" by force
  ultimately show ?case using 2 by simp
qed simp

lemma seal_step_signed:
  assumes "seal_step ops m e m'" "seal_inv ops m" "keeps_height x e" "0 \<le> x" "om_find (m_signedBlocks m) x = Some b"
  shows "om_find (m_signedBlocks m') x = Some b"
  using assms
proof (induction rule: seal_step.induct)
  case (sign i h m height prev zk l p r now algo res m')
  then obtain m1 where m1: "sign_register h height m = Some m1" by auto
  have "m_signedBlocks m' = m_signedBlocks m1" using SignBlock_signed [OF sign.hyps(1,2) m1] sign.hyps(4) by (metis snd_conv)
  then show ?case
    using sign_register_find [OF _ m1] sign.prems by (cases "x = height") (auto simp: seal_inv_def keeps_height_def)
next
  case (sign_fails zk l p r io now h algo m m')
  then show ?case using SignBlock_not_registered by (metis snd_conv)
next
  case (disconnect m height h)
  then show ?case by (simp add: seal_BlockDisconnected_def om_find_erase keeps_height_def)
next
  case (tick m now)
  then show ?case by (simp add: worker_tick_def CleanupStaleSessions_def Let_def case_prod_beta worker_loop_signed)
qed (auto simp: OnNewBlock_def share_insert_def seal_commit_def Let_def split: option.splits prod.splits)


lemma seal_run_signed:
  assumes "seal_run ops m0 tr m" "seal_inv ops m0" "length (m_assembledSeals m0) \<le> 20" "0 \<le> x"
    "list_all (keeps_height x) tr" "Sign x b s \<in> set tr"
  shows "om_find (m_signedBlocks m) x = Some b"
  using assms
proof (induction rule: seal_run.induct)
  case (step tr m e m')
  have inv: "seal_inv ops m" using seal_run_inv [OF step.hyps(1)] step.prems by blast
  show ?case
  proof (cases "Sign x b s \<in> set tr")
    case True
    then show ?thesis using seal_step_signed [OF step.hyps(2) inv] step.IH step.prems by simp
  next
    case False
    then have "e = Sign x b s" using step.prems by simp
    with step.hyps(2) obtain i prev zk l p r now algo where
      1: "identity_IsValid i" "sign_context b m = (x, prev)" "sign_register b x m \<noteq> None"
      and 2: "SignBlock ops zk l p r (Some i) now b algo m = (s, m')"
      by (cases rule: seal_step.cases) auto
    then obtain m1 where m1: "sign_register b x m = Some m1" by auto
    have "m_signedBlocks m' = m_signedBlocks m1" using SignBlock_signed [OF 1(1,2) m1] 2 by (metis snd_conv)
    then show ?thesis using sign_register_find(1) [OF _ m1] inv step.prems by (simp add: seal_inv_def)
  qed
qed simp

definition seal_start :: "(nat, nat \<times> uint256) CSealManager" where
  "seal_start = new_seal_manager (mainnet [] [] [] [] [] [])"

definition seal_m1 :: "(nat, nat \<times> uint256) CSealManager" where
  "seal_m1 = OnNewBlock 1000 (replicate 32 8) 5 (replicate 32 9) seal_start"

definition ident_ex :: "(nat, nat) CHMPIdentity" where
  "ident_ex = \<lparr>id_secretKey = CBLSWrapper True 3, id_publicKey = CBLSWrapper True 3, id_initialized = True\<rparr>"

definition zk_ex :: zk_ops where
  "zk_ex = \<lparr>zk_initialized = False, zk_create = (\<lambda>a b c. []), zk_commitment = (\<lambda>a b c. None), zk_verify = (\<lambda>a b c. False)\<rparr>"

definition sign_ex :: "((nat, nat \<times> uint256) CSealShare) option \<times> (nat, nat \<times> uint256) CSealManager" where
  "sign_ex = SignBlock toy_ops zk_ex None None None (Some ident_ex) 1001 (replicate 32 8) 0 seal_m1"

lemma replicate_8: "replicate 8 x = [x, x, x, x, x, x, x, x]"
  by (simp add: numeral_eq_Suc)

lemma sign_ex_context:
  "sign_context (replicate 32 8) seal_m1 = (5, replicate 32 9)"
  "sign_register (replicate 32 8) 5 seal_m1 \<noteq> None" "identity_IsValid ident_ex"
  by (simp_all add: sign_context_def sign_register_def seal_m1_def seal_start_def OnNewBlock_def new_seal_manager_def
      om_find_def ident_ex_def identity_IsValid_def IsValid_def)

lemma sign_ex_share: "fst sign_ex \<noteq> None"
proof -
  have "IsVRFSelected (replicate 32 3) (GetVRFTierMultiplier NEW) HMP_VRF_BASE_THRESHOLD"
    by (simp add: IsVRFSelected_tier selection_rate_def min_def replicate_8)
  moreover have "IsValid (SignVRF toy_ops ident_ex a b)"
    "VRFOutputHash (hash256 toy_ops) (ser_sig toy_ops) (SignVRF toy_ops ident_ex a b) = replicate 32 3" for a b
    by (simp_all add: SignVRF_def ComputeVRF_def VRFOutputHash_def toy_ops_def ident_ex_def IsValid_def)
  moreover have "IsValid (ss_signature (make_share toy_ops zk_ex ident_ex pm now h a prev v))" for pm now h a prev v
    by (simp add: make_share_def zk_ex_def identity_Sign_def toy_ops_def ident_ex_def IsValid_def Let_def)
  ultimately show ?thesis
    using sign_ex_context by (auto simp: sign_ex_def SignBlock_def sign_eligible_def Let_def)
qed

lemma sign_ex_run: "seal_run toy_ops seal_start [Other, Sign 5 (replicate 32 8) (fst sign_ex)] (snd sign_ex)"
proof -
  have "seal_run toy_ops seal_start ([] @ [Other]) seal_m1"
    unfolding seal_m1_def by (intro seal_run.step [OF seal_run.refl] seal_step.new_block)
  moreover have "seal_step toy_ops seal_m1 (Sign 5 (replicate 32 8) (fst sign_ex)) (snd sign_ex)"
    by (rule seal_step.sign [OF sign_ex_context(3,1,2)]) (simp add: sign_ex_def prod_eq_iff)
  ultimately show ?thesis using seal_run.step by fastforce
qed

text \<open>
  C2: between two disconnections of a height and while the signed heights stay
  within 100 of it, the daemon signs at most one block at that height, whatever
  blocks, shares, seals and timer ticks arrive in between.
\<close>

theorem no_equivocation:
  assumes "seal_run ops m0 tr m" "seal_inv ops m0" "length (m_assembledSeals m0) \<le> 20" "0 \<le> height"
    and "list_all (keeps_height height) tr" "Sign height b1 s1 \<in> set tr" "Sign height b2 s2 \<in> set tr"
  shows "b1 = b2"
  using seal_run_signed [OF assms(1-5)] assms(6,7) by (metis option.inject)

theorem no_equivocation_witness:
  "fst sign_ex \<noteq> None \<and> seal_run toy_ops seal_start [Other, Sign 5 (replicate 32 8) (fst sign_ex)] (snd sign_ex) \<and>
   {b. \<exists>s. Sign 5 b s \<in> set [Other, Sign 5 (replicate 32 8) (fst sign_ex)]} = {replicate 32 8}"
proof -
  have "b = replicate 32 8" if "Sign 5 b s \<in> set [Other, Sign 5 (replicate 32 8) (fst sign_ex)]" for b s
    by (rule no_equivocation [OF sign_ex_run, of 5 b s])
      (use that in \<open>simp_all add: seal_start_def seal_inv_new keeps_height_def seals_new\<close>)
  then show ?thesis using sign_ex_share sign_ex_run by auto
qed

text \<open>
  C19: in every run the manager holds at most twenty assembled seals, each verified
  and stored under the block it seals, and at most 200 shares per session, one per
  signer, each made for that block and carrying a signature that verifies.
\<close>

theorem seal_manager_safe:
  assumes "seal_run ops (new_seal_manager par) tr m"
  shows "length (m_assembledSeals m) \<le> 20 \<and>
    (GetSeal m hash = Some seal \<longrightarrow> as_blockHash seal = hash \<and> seal_Verify ops seal) \<and>
    GetShareCount m hash \<le> 200 \<and>
    (om_find (m_sessions m) hash = Some session \<and> om_find (se_shares session) pk = Some share \<longrightarrow>
       ss_signerPubKey share = pk \<and> ss_blockHash share = hash \<and>
       bls_verify ops (ss_signature share) pk (share_GetHash ops share))"
proof -
  have inv: "seal_inv ops m" "length (m_assembledSeals m) \<le> 20"
    using seal_run_inv [OF assms seal_inv_new] by (simp_all add: new_seal_manager_def)
  have "seal_ok ops hash seal" if "GetSeal m hash = Some seal"
    using inv(1) that by (auto simp: seal_inv_def cache_ok_def om_list_all GetSeal_def)
  moreover have "share_ok ops hash pk share"
    if "om_find (m_sessions m) hash = Some session" "om_find (se_shares session) pk = Some share"
    using seal_inv_session [OF inv(1) that(1)] that(2) by (auto simp: session_ok_def om_list_all)
  moreover have "GetShareCount m hash \<le> 200"
    using seal_inv_session [OF inv(1)]
    by (auto simp: GetShareCount_def session_ok_def MAX_SEAL_SIGNERS_def split: option.split)
  ultimately show ?thesis using inv(2)
    by (auto simp: seal_ok_def share_ok_def share_GetHash_def)
qed

theorem seal_manager_safe_witness:
  "length (m_assembledSeals (snd sign_ex)) \<le> 20 \<and> GetShareCount (snd sign_ex) (replicate 32 8) \<le> 200"
  using seal_manager_safe [OF sign_ex_run [unfolded seal_start_def]] by blast

section \<open>Which seal is kept\<close>

lemma evict_none: "length seals \<le> 20 \<Longrightarrow> evict_seals_heights order heights seals = (order, heights, seals)"
  by (cases order) simp_all

lemma AddAssembledSeal_replaces:
  assumes inv: "seal_inv ops m" "length (m_assembledSeals m) \<le> 20"
    and v: "seal_Verify ops seal"
    and e: "GetSeal m (as_blockHash seal) = Some e" "length (as_signers e) < length (as_signers seal)"
    and h: "om_find (m_heightToHash m) height = Some (as_blockHash seal)"
  shows "AddAssembledSeal ops seal height m =
    (ACCEPTED, m\<lparr>m_assembledSeals := om_set (as_blockHash seal) seal (m_assembledSeals m),
                m_heightToHash := om_set height (as_blockHash seal) (m_heightToHash m),
                m_sealInsertionOrder := removeAll (as_blockHash seal) (m_sealInsertionOrder m) @ [as_blockHash seal]\<rparr>)"
proof -
  have "seal_superseded seal height m = None" "other_at_height m seal height = None"
    using e h by (simp_all add: seal_superseded_def no_better_seal_def other_at_height_def GetSeal_def)
  moreover have "length (om_set (as_blockHash seal) seal (m_assembledSeals m)) \<le> 20"
    using inv e(1) by (simp add: length_om_set seal_inv_def cache_ok_def GetSeal_def)
  moreover have "\<not> seal_IsNull seal" "length (as_signers seal) \<le> MAX_SEAL_SIGNERS" "distinct (as_signers seal)"
    using v by (simp_all add: seal_Verify_def seal_IsNull_def split: if_splits)
  ultimately show ?thesis using v
    by (simp add: AddAssembledSeal_def seal_commit_def evict_none Let_def)
qed

text \<open>
  The worker does not compare: what it assembles replaces whatever is cached for
  the block, also a seal with more signers that a peer has sent.
\<close>

lemma TryAssemble_overwrites:
  assumes "om_wf (m_assembledSeals m)" "se_shares s \<noteq> []" "assemble_seal ops s = Some seal"
  shows "GetSeal (snd (TryAssemble ops h s m)) (se_blockHash s) = Some seal"
  using assms by (simp add: TryAssemble_def GetSeal_def om_find_set)

definition peer_seal :: "nat list \<Rightarrow> uint256 \<Rightarrow> (nat, nat \<times> uint256) CAssembledSeal" where
  "peer_seal ks h = \<lparr>as_blockHash = h, as_aggregatedSig = CBLSWrapper True (0, []), as_signers = map (CBLSWrapper True) ks,
     as_signerAlgos = replicate (length ks) 0, as_vrfProofs = []\<rparr>"

lemma peer_seal_verifies: "distinct ks \<Longrightarrow> ks \<noteq> [] \<Longrightarrow> length ks \<le> 200 \<Longrightarrow> \<not> IsNull h \<Longrightarrow> seal_Verify toy_ops (peer_seal ks h)"
  by (simp add: seal_Verify_def peer_seal_def toy_ops_def IsValid_def MAX_SEAL_SIGNERS_def distinct_map inj_on_def)

definition seal_m2 :: "(nat, nat \<times> uint256) CSealManager" where
  "seal_m2 = snd (seal_commit (peer_seal [1] (replicate 32 8)) 5 seal_m1)"

text \<open>
  C39: a verified seal with more signers than the cached one for the same block is
  accepted and is the seal of the next block template.  Neither the privilege nor
  the commitment of its signers is consulted, and the VRF proofs of the cached seal
  are lost: the template carries exactly the proofs of the newcomer, which the wire
  format of assembled seals leaves empty.
\<close>

theorem larger_seal_replaces:
  assumes "seal_inv ops m" "length (m_assembledSeals m) \<le> 20" "seal_Verify ops seal"
    and "GetSeal m (as_blockHash seal) = Some e" "length (as_signers e) < length (as_signers seal)"
    and "om_find (m_heightToHash m) (height - m_sealTrailingDepth m) = Some (as_blockHash seal)"
  shows "fst (AddAssembledSeal ops seal (height - m_sealTrailingDepth m) m) = ACCEPTED \<and>
    GetSealForTemplate (snd (AddAssembledSeal ops seal (height - m_sealTrailingDepth m) m)) height = Some seal"
  unfolding AddAssembledSeal_replaces [OF assms]
  using assms(1) by (simp add: GetSealForTemplate_def om_find_set seal_inv_def cache_ok_def)

theorem larger_seal_replaces_witness:
  "GetSealForTemplate (snd (AddAssembledSeal toy_ops (peer_seal [1, 2] (replicate 32 8)) (7 - m_sealTrailingDepth seal_m2) seal_m2)) 7 =
   Some (peer_seal [1, 2] (replicate 32 8))"
proof -
  let ?h = "replicate 32 8 :: uint256"
  have nn: "\<not> IsNull ?h" by (simp add: IsNull_def list_all_iff)
  have inv1: "seal_inv toy_ops seal_m1"
    by (simp add: seal_m1_def seal_start_def seal_inv_OnNewBlock seal_inv_new)
  have m1: "m_assembledSeals seal_m1 = []" "om_find (m_heightToHash seal_m1) 5 = Some ?h"
    "m_sealTrailingDepth seal_m1 = 2"
    by (simp_all add: seal_m1_def seal_start_def OnNewBlock_def new_seal_manager_def
        om_find_def mainnet_def)
  have m2: "seal_m2 = seal_m1\<lparr>m_assembledSeals := [(?h, peer_seal [1] ?h)], m_heightToHash := om_set 5 ?h (m_heightToHash seal_m1),
      m_sealInsertionOrder := removeAll ?h (m_sealInsertionOrder seal_m1) @ [?h]\<rparr>"
    using m1 by (simp add: seal_m2_def seal_commit_def seal_superseded_def no_better_seal_def other_at_height_def
        peer_seal_def evict_none Let_def)
  have "seal_inv toy_ops seal_m2" unfolding seal_m2_def
    by (rule seal_inv_commit [OF inv1 peer_seal_verifies]) (simp_all add: nn)
  then show ?thesis
    using larger_seal_replaces [of toy_ops seal_m2 "peer_seal [1, 2] ?h" "peer_seal [1] ?h" 7] m1 inv1
      peer_seal_verifies [of "[1, 2]", OF _ _ _ nn]
    by (simp add: m2 GetSeal_def om_find_set seal_inv_def) (simp add: peer_seal_def om_find_def)
qed

end
