(* ===== verification/Bls_Wire.thy ===== *)
theory Bls_Wire
  imports Serialize Hmp_Seal
begin

text \<open>
  The byte form of BLS objects (\<^verbatim>\<open>CBLSWrapper\<close> of \<^verbatim>\<open>bls/bls.h\<close>) and of the HMP
  messages that carry them: \<^verbatim>\<open>CSealShare\<close>, \<^verbatim>\<open>CAssembledSeal\<close> and \<^verbatim>\<open>CPubKeyCommit\<close>.  The
  group elements of the BLS library, their parser and their serialiser are parameters.
\<close>

section \<open>Wrapped group elements\<close>

text \<open>\<open>FromBytes\<close> is \<open>None\<close> when the library throws; the flag is the legacy scheme.\<close>

record 'i impl_ops =
  FromBytes :: "bool \<Rightarrow> bytes \<Rightarrow> 'i option"
  ImplSerialize :: "bool \<Rightarrow> 'i \<Rightarrow> bytes"
  ImplDefault :: 'i
  SerSize :: nat
  IsGroupElement :: bool

definition Reset :: "'i impl_ops \<Rightarrow> 'i CBLSWrapper" where
  "Reset ops = CBLSWrapper False (ImplDefault ops)"

definition SetBytes :: "'i impl_ops \<Rightarrow> bytes \<Rightarrow> bool \<Rightarrow> 'i CBLSWrapper" where
  "SetBytes ops vecBytes specificLegacyScheme =
     (if length vecBytes \<noteq> SerSize ops then Reset ops
      else if list_all (\<lambda>c. c = 0) vecBytes then Reset ops
      else case FromBytes ops specificLegacyScheme vecBytes of
             None \<Rightarrow> Reset ops
           | Some i \<Rightarrow> if IsGroupElement ops \<and> i = ImplDefault ops then Reset ops else CBLSWrapper True i)"

definition ToBytes :: "'i impl_ops \<Rightarrow> bool \<Rightarrow> 'i CBLSWrapper \<Rightarrow> bytes" where
  "ToBytes ops specificLegacyScheme w =
     (if \<not> IsValid w then replicate (SerSize ops) 0 else ImplSerialize ops specificLegacyScheme (impl w))"

definition CheckMalleable :: "'i impl_ops \<Rightarrow> bytes \<Rightarrow> bool \<Rightarrow> 'i CBLSWrapper \<Rightarrow> bool" where
  "CheckMalleable ops vecBytes specificLegacyScheme w = (vecBytes = ToBytes ops specificLegacyScheme w)"

definition bls_Serialize :: "'i impl_ops \<Rightarrow> bool \<Rightarrow> 'i CBLSWrapper \<Rightarrow> bytes" where
  "bls_Serialize ops specificLegacyScheme w = ToBytes ops specificLegacyScheme w"

definition bls_Unserialize :: "'i impl_ops \<Rightarrow> bool \<Rightarrow> ('i CBLSWrapper) reader" where
  "bls_Unserialize ops specificLegacyScheme s =
     do {
       (vecBytes, s) \<leftarrow> read_span (SerSize ops) s;
       let w = SetBytes ops vecBytes specificLegacyScheme
       in if \<not> CheckMalleable ops vecBytes specificLegacyScheme w then
            let w' = SetBytes ops vecBytes (\<not> specificLegacyScheme)
            in if \<not> CheckMalleable ops vecBytes (\<not> specificLegacyScheme) w' then None
               else Some (Reset ops, s)
          else Some (w, s)
     }"

section \<open>Messages\<close>

record ('k, 's) wire_ops =
  pk_ops :: "'k impl_ops"
  sig_ops :: "'s impl_ops"
  bls_legacy_scheme :: bool

abbreviation wr_pk :: "('k, 's) wire_ops \<Rightarrow> 'k CBLSPublicKey \<Rightarrow> bytes" where
  "wr_pk ops \<equiv> bls_Serialize (pk_ops ops) (bls_legacy_scheme ops)"

abbreviation wr_sig :: "('k, 's) wire_ops \<Rightarrow> 's CBLSSignature \<Rightarrow> bytes" where
  "wr_sig ops \<equiv> bls_Serialize (sig_ops ops) (bls_legacy_scheme ops)"

abbreviation rd_pk :: "('k, 's) wire_ops \<Rightarrow> ('k CBLSPublicKey) reader" where
  "rd_pk ops \<equiv> bls_Unserialize (pk_ops ops) (bls_legacy_scheme ops)"

abbreviation rd_sig :: "('k, 's) wire_ops \<Rightarrow> ('s CBLSSignature) reader" where
  "rd_sig ops \<equiv> bls_Unserialize (sig_ops ops) (bls_legacy_scheme ops)"

definition ser_SealShare :: "('k, 's) wire_ops \<Rightarrow> ('k, 's) CSealShare \<Rightarrow> bytes" where
  "ser_SealShare ops obj =
     ss_blockHash obj @ wr_pk ops (ss_signerPubKey obj) @ wr_sig ops (ss_signature obj) @
     ser_writedata8 (ss_algoId obj) @ ser_int64 (ss_nTimestamp obj) @ wr_sig ops (ss_vrfProof obj) @
     ser_limited_bytes (ss_zkProof obj) @ ss_commitment obj"

definition unser_SealShare :: "('k, 's) wire_ops \<Rightarrow> (('k, 's) CSealShare) reader" where
  "unser_SealShare ops s =
     do {
       (blockHash, s) \<leftarrow> unser_uint256 s;
       (signerPubKey, s) \<leftarrow> rd_pk ops s;
       (sig, s) \<leftarrow> rd_sig ops s;
       (algoId, s) \<leftarrow> ser_readdata8 s;
       (timestamp, s) \<leftarrow> unser_int64 s;
       (vrfProof, s) \<leftarrow> rd_sig ops s;
       (zkProof, s) \<leftarrow> unser_limited_bytes HMP_GROTH16_PROOF_SIZE s;
       (commitment, s) \<leftarrow> unser_uint256 s;
       Some (\<lparr>ss_blockHash = blockHash, ss_signerPubKey = signerPubKey, ss_signature = sig, ss_algoId = algoId,
              ss_nTimestamp = timestamp, ss_vrfProof = vrfProof, ss_zkProof = zkProof, ss_commitment = commitment\<rparr>, s)
     }"

text \<open>The VRF proofs of an assembled seal do not travel.\<close>

definition ser_AssembledSeal :: "('k, 's) wire_ops \<Rightarrow> ('k, 's) CAssembledSeal \<Rightarrow> bytes" where
  "ser_AssembledSeal ops obj =
     as_blockHash obj @ wr_sig ops (as_aggregatedSig obj) @ ser_limited (wr_pk ops) (as_signers obj) @
     ser_limited_bytes (as_signerAlgos obj)"

definition unser_AssembledSeal :: "('k, 's) wire_ops \<Rightarrow> (('k, 's) CAssembledSeal) reader" where
  "unser_AssembledSeal ops s =
     do {
       (blockHash, s) \<leftarrow> unser_uint256 s;
       (aggregatedSig, s) \<leftarrow> rd_sig ops s;
       (signers, s) \<leftarrow> unser_limited MAX_SEAL_SIGNERS (rd_pk ops) s;
       (signerAlgos, s) \<leftarrow> unser_limited_bytes MAX_SEAL_SIGNERS s;
       Some (\<lparr>as_blockHash = blockHash, as_aggregatedSig = aggregatedSig, as_signers = signers,
              as_signerAlgos = signerAlgos, as_vrfProofs = []\<rparr>, s)
     }"

definition ser_PubKeyCommit :: "('k, 's) wire_ops \<Rightarrow> ('k, 's) CPubKeyCommit \<Rightarrow> bytes" where
  "ser_PubKeyCommit ops obj = wr_pk ops (pubKey obj) @ wr_sig ops (signature obj) @ ser_int64 (nTimestamp obj)"

definition unser_PubKeyCommit :: "('k, 's) wire_ops \<Rightarrow> (('k, 's) CPubKeyCommit) reader" where
  "unser_PubKeyCommit ops s =
     do {
       (pk, s) \<leftarrow> rd_pk ops s;
       (sig, s) \<leftarrow> rd_sig ops s;
       (timestamp, s) \<leftarrow> unser_int64 s;
       Some (\<lparr>pubKey = pk, signature = sig, nTimestamp = timestamp\<rparr>, s)
     }"

section \<open>Round trips\<close>

text \<open>
  What the library promises: elements other than the default (the point at infinity) are
  serialised to the fixed size, not to zeros, and parsed back under the same scheme.
\<close>

definition impl_codec :: "'i impl_ops \<Rightarrow> bool \<Rightarrow> bool" where
  "impl_codec ops legacy =
     (\<forall>i. i \<noteq> ImplDefault ops \<longrightarrow>
        length (ImplSerialize ops legacy i) = SerSize ops \<and> \<not> list_all (\<lambda>c. c = 0) (ImplSerialize ops legacy i) \<and>
        FromBytes ops legacy (ImplSerialize ops legacy i) = Some i)"

definition wrapper_ok :: "'i impl_ops \<Rightarrow> 'i CBLSWrapper \<Rightarrow> bool" where
  "wrapper_ok ops w = (IsValid w = (impl w \<noteq> ImplDefault ops))"

lemma bls_format:
  assumes "impl_codec ops legacy"
  shows "format (bls_Serialize ops legacy) (bls_Unserialize ops legacy) (wrapper_ok ops)"
proof
  fix w r assume w: "wrapper_ok ops w"
  show "bls_Unserialize ops legacy (bls_Serialize ops legacy w @ r) = Some (w, r)"
  proof (cases "IsValid w")
    case False
    then have "w = Reset ops" using w by (cases w) (simp add: wrapper_ok_def Reset_def IsValid_def)
    moreover have "SetBytes ops (replicate (SerSize ops) 0) legacy = Reset ops"
      by (simp add: SetBytes_def list_all_iff)
    ultimately show ?thesis using False
      by (simp add: bls_Unserialize_def bls_Serialize_def ToBytes_def CheckMalleable_def read_span_append Let_def)
  next
    case True
    obtain i where i: "w = CBLSWrapper True i" "i \<noteq> ImplDefault ops"
      using True w by (cases w) (simp add: wrapper_ok_def IsValid_def)
    then have c: "length (ImplSerialize ops legacy i) = SerSize ops" "\<not> list_all (\<lambda>c. c = 0) (ImplSerialize ops legacy i)"
      "FromBytes ops legacy (ImplSerialize ops legacy i) = Some i"
      using assms by (auto simp: impl_codec_def)
    have "SetBytes ops (ImplSerialize ops legacy i) legacy = w" using c i by (simp add: SetBytes_def)
    then show ?thesis using c(1) True i(1)
      by (simp add: bls_Unserialize_def bls_Serialize_def ToBytes_def CheckMalleable_def read_span_append Let_def)
  qed
qed

text \<open>Whatever the library does, an accepted valid object has one encoding.\<close>

lemma bls_Unserialize_valid:
  assumes "bls_Unserialize ops legacy s = Some (w, r)" "IsValid w"
  shows "s = bls_Serialize ops legacy w @ r"
proof -
  obtain b where b: "read_span (SerSize ops) s = Some (b, r)" "w = SetBytes ops b legacy \<and> CheckMalleable ops b legacy w \<or> w = Reset ops"
    using assms(1) by (auto simp: bls_Unserialize_def Let_def split: bind_splits if_splits)
  then have "b = ToBytes ops legacy w" using assms(2) by (auto simp: CheckMalleable_def Reset_def IsValid_def)
  then show ?thesis using b(1) by (simp add: bls_Serialize_def read_span_iff)
qed

text \<open>What comes out of the reader is well formed, whatever the library does.\<close>

lemma bls_Unserialize_ok:
  assumes "bls_Unserialize ops legacy s = Some (w, r)" "IsGroupElement ops"
  shows "wrapper_ok ops w"
proof -
  have "w = Reset ops \<or> (\<exists>b. w = SetBytes ops b legacy)"
    using assms(1) by (auto simp: bls_Unserialize_def Let_def split: bind_splits if_splits)
  moreover have "wrapper_ok ops (Reset ops)" "wrapper_ok ops (SetBytes ops b legacy)" for b
    using assms(2) by (simp_all add: wrapper_ok_def Reset_def SetBytes_def IsValid_def split: option.split)
  ultimately show ?thesis by auto
qed

definition wire_codec :: "('k, 's) wire_ops \<Rightarrow> bool" where
  "wire_codec ops =
     (impl_codec (pk_ops ops) (bls_legacy_scheme ops) \<and> impl_codec (sig_ops ops) (bls_legacy_scheme ops))"

definition group_ops :: "('k, 's) wire_ops \<Rightarrow> bool" where
  "group_ops ops = (IsGroupElement (pk_ops ops) \<and> IsGroupElement (sig_ops ops))"

abbreviation pk_ok :: "('k, 's) wire_ops \<Rightarrow> 'k CBLSPublicKey \<Rightarrow> bool" where
  "pk_ok ops \<equiv> wrapper_ok (pk_ops ops)"

abbreviation sig_ok :: "('k, 's) wire_ops \<Rightarrow> 's CBLSSignature \<Rightarrow> bool" where
  "sig_ok ops \<equiv> wrapper_ok (sig_ops ops)"

lemma pk_format: "wire_codec ops \<Longrightarrow> format (wr_pk ops) (rd_pk ops) (pk_ok ops)"
  and sig_format: "wire_codec ops \<Longrightarrow> format (wr_sig ops) (rd_sig ops) (sig_ok ops)"
  by (simp_all add: wire_codec_def bls_format)

lemma pks_format:
  "wire_codec ops \<Longrightarrow> limit \<le> 0x02000000 \<Longrightarrow> format (ser_limited (wr_pk ops)) (unser_limited limit (rd_pk ops))
     (\<lambda>v. length v \<le> limit \<and> (\<forall>x \<in> set v. pk_ok ops x))"
  and sigs_format:
  "wire_codec ops \<Longrightarrow> limit \<le> 0x02000000 \<Longrightarrow> format (ser_limited (wr_sig ops)) (unser_limited limit (rd_sig ops))
     (\<lambda>v. length v \<le> limit \<and> (\<forall>x \<in> set v. sig_ok ops x))"
  by (simp_all add: format.limited_format [OF pk_format] format.limited_format [OF sig_format])

lemma limited_bytes_roundtrip:
  "limit \<le> 0x02000000 \<Longrightarrow> length v \<le> limit \<Longrightarrow> unser_limited_bytes limit (ser_limited_bytes v @ r) = Some (v, r)"
  by (rule format.roundtrip [OF canonical_format.axioms(1) [OF limited_bytes_format]])

definition share_ok_wire :: "('k, 's) wire_ops \<Rightarrow> ('k, 's) CSealShare \<Rightarrow> bool" where
  "share_ok_wire ops x =
     (length (ss_blockHash x) = 32 \<and> length (ss_commitment x) = 32 \<and> pk_ok ops (ss_signerPubKey x) \<and>
      sig_ok ops (ss_signature x) \<and> sig_ok ops (ss_vrfProof x) \<and> int64_ok (ss_nTimestamp x) \<and> length (ss_zkProof x) \<le> 192)"

definition seal_ok_wire :: "('k, 's) wire_ops \<Rightarrow> ('k, 's) CAssembledSeal \<Rightarrow> bool" where
  "seal_ok_wire ops x =
     (length (as_blockHash x) = 32 \<and> sig_ok ops (as_aggregatedSig x) \<and> length (as_signers x) \<le> 200 \<and>
      (\<forall>pk \<in> set (as_signers x). pk_ok ops pk) \<and> length (as_signerAlgos x) \<le> 200 \<and> as_vrfProofs x = [])"

definition commit_ok_wire :: "('k, 's) wire_ops \<Rightarrow> ('k, 's) CPubKeyCommit \<Rightarrow> bool" where
  "commit_ok_wire ops x = (pk_ok ops (pubKey x) \<and> sig_ok ops (signature x) \<and> int64_ok (nTimestamp x))"

lemma share_format: "wire_codec ops \<Longrightarrow> format (ser_SealShare ops) (unser_SealShare ops) (share_ok_wire ops)"
proof
  fix x r assume c: "wire_codec ops" and x: "share_ok_wire ops x"
  show "unser_SealShare ops (ser_SealShare ops x @ r) = Some (x, r)"
    using x format.roundtrip [OF pk_format [OF c]] format.roundtrip [OF sig_format [OF c]]
    by (simp add: unser_SealShare_def ser_SealShare_def share_ok_wire_def h256.roundtrip u8.roundtrip i64.roundtrip
        limited_bytes_roundtrip HMP_GROTH16_PROOF_SIZE_def)
qed

lemma seal_format: "wire_codec ops \<Longrightarrow> format (ser_AssembledSeal ops) (unser_AssembledSeal ops) (seal_ok_wire ops)"
proof
  fix x r assume c: "wire_codec ops" and x: "seal_ok_wire ops x"
  show "unser_AssembledSeal ops (ser_AssembledSeal ops x @ r) = Some (x, r)"
    using x format.roundtrip [OF pks_format [OF c, of 200]] format.roundtrip [OF sig_format [OF c]]
    by (simp add: unser_AssembledSeal_def ser_AssembledSeal_def seal_ok_wire_def h256.roundtrip
        limited_bytes_roundtrip MAX_SEAL_SIGNERS_def)
qed

lemma commit_format: "wire_codec ops \<Longrightarrow> format (ser_PubKeyCommit ops) (unser_PubKeyCommit ops) (commit_ok_wire ops)"
proof
  fix x r assume c: "wire_codec ops" and x: "commit_ok_wire ops x"
  show "unser_PubKeyCommit ops (ser_PubKeyCommit ops x @ r) = Some (x, r)"
    using x format.roundtrip [OF pk_format [OF c]] format.roundtrip [OF sig_format [OF c]]
    by (simp add: unser_PubKeyCommit_def ser_PubKeyCommit_def commit_ok_wire_def i64.roundtrip)
qed

section \<open>Accepted messages are well formed\<close>

lemma unser_many_all:
  assumes "unser_many rd n s = Some (xs, r)" "\<And>s x r. rd s = Some (x, r) \<Longrightarrow> P x"
  shows "length xs = n \<and> (\<forall>x \<in> set xs. P x)"
  using assms(1)
proof (induction n arbitrary: s xs)
  case (Suc n)
  then obtain p q where "rd s = Some p" "unser_many rd n (snd p) = Some (q, r)" "xs = fst p # q"
    by (cases "rd s"; cases "unser_many rd n (snd (the (rd s)))") (auto simp: case_prod_unfold)
  then show ?case using Suc.IH [of "snd p" q] assms(2) [of s "fst p" "snd p"] by simp
qed simp

lemma unser_limited_all:
  assumes "unser_limited limit rd s = Some (xs, r)" "\<And>s x r. rd s = Some (x, r) \<Longrightarrow> P x"
  shows "length xs \<le> limit \<and> (\<forall>x \<in> set xs. P x)"
proof -
  obtain n :: "64 word" and s' where n: "unat n \<le> limit" "unser_many rd (unat n) s' = Some (xs, r)"
    using assms(1) by (auto simp: unser_limited_def not_less split: bind_splits if_splits)
  show ?thesis using unser_many_all [OF n(2), of P] assms(2) n(1) by auto
qed

lemma unser_limited_bytes_length: "unser_limited_bytes limit s = Some (v, r) \<Longrightarrow> length v \<le> limit"
  by (auto simp: unser_limited_bytes_def read_span_iff split: bind_splits if_splits)

text \<open>Taking one field off the stream.\<close>

lemma bind_field: "(do { (x, s) \<leftarrow> rd s; f x s }) = Some y \<longleftrightarrow> (\<exists>x s'. rd s = Some (x, s') \<and> f x s' = Some y)"
  by (cases "rd s") auto

lemma h256_length: "unser_uint256 s = Some (h, r) \<Longrightarrow> length h = 32"
  using h256.canonical by blast

lemma i64_range: "unser_int64 s = Some (i, r) \<Longrightarrow> int64_ok i"
  using i64.canonical by blast

lemma unser_SealShare_ok:
  assumes "group_ops ops" "unser_SealShare ops s = Some (x, r)"
  shows "share_ok_wire ops x"
proof -
  obtain s1 s2 s3 s4 s5 s6 s7 s8 where
    "unser_uint256 s = Some (ss_blockHash x, s1)" "rd_pk ops s1 = Some (ss_signerPubKey x, s2)"
    "rd_sig ops s2 = Some (ss_signature x, s3)" "unser_int64 s4 = Some (ss_nTimestamp x, s5)"
    "rd_sig ops s5 = Some (ss_vrfProof x, s6)" "unser_limited_bytes HMP_GROTH16_PROOF_SIZE s6 = Some (ss_zkProof x, s7)"
    "unser_uint256 s7 = Some (ss_commitment x, s8)"
    using assms(2) unfolding unser_SealShare_def bind_field by auto
  then show ?thesis using assms(1) unfolding share_ok_wire_def group_ops_def HMP_GROTH16_PROOF_SIZE_def
    by (simp add: h256_length i64_range bls_Unserialize_ok unser_limited_bytes_length)
qed

lemma unser_AssembledSeal_ok:
  assumes "group_ops ops" "unser_AssembledSeal ops s = Some (x, r)"
  shows "seal_ok_wire ops x"
proof -
  obtain s1 s2 s3 s4 where
    f: "unser_uint256 s = Some (as_blockHash x, s1)" "rd_sig ops s1 = Some (as_aggregatedSig x, s2)"
    "unser_limited MAX_SEAL_SIGNERS (rd_pk ops) s2 = Some (as_signers x, s3)"
    "unser_limited_bytes MAX_SEAL_SIGNERS s3 = Some (as_signerAlgos x, s4)" "as_vrfProofs x = []"
    using assms(2) unfolding unser_AssembledSeal_def bind_field by auto
  have "length (as_signers x) \<le> MAX_SEAL_SIGNERS \<and> (\<forall>pk \<in> set (as_signers x). pk_ok ops pk)"
    by (rule unser_limited_all [OF f(3)]) (use assms(1) in \<open>simp add: group_ops_def bls_Unserialize_ok\<close>)
  then show ?thesis using f assms(1) unser_limited_bytes_length [OF f(4)]
    unfolding seal_ok_wire_def group_ops_def MAX_SEAL_SIGNERS_def
    by (simp add: h256_length bls_Unserialize_ok)
qed

lemma unser_PubKeyCommit_ok:
  assumes "group_ops ops" "unser_PubKeyCommit ops s = Some (x, r)"
  shows "commit_ok_wire ops x"
proof -
  obtain s1 s2 s3 where "rd_pk ops s = Some (pubKey x, s1)" "rd_sig ops s1 = Some (signature x, s2)"
    "unser_int64 s2 = Some (nTimestamp x, s3)"
    using assms(2) unfolding unser_PubKeyCommit_def bind_field by auto
  then show ?thesis using assms(1) unfolding commit_ok_wire_def group_ops_def
    by (simp add: i64_range bls_Unserialize_ok)
qed

text \<open>A commitment whose key and signature are valid has a single encoding.\<close>

lemma unser_PubKeyCommit_valid:
  assumes "unser_PubKeyCommit ops s = Some (x, r)" "IsValid (pubKey x)" "IsValid (signature x)"
  shows "s = ser_PubKeyCommit ops x @ r"
proof -
  obtain s1 s2 where f: "rd_pk ops s = Some (pubKey x, s1)" "rd_sig ops s1 = Some (signature x, s2)"
    "unser_int64 s2 = Some (nTimestamp x, r)"
    using assms(1) unfolding unser_PubKeyCommit_def bind_field by auto
  show ?thesis
    using bls_Unserialize_valid [OF f(1) assms(2)] bls_Unserialize_valid [OF f(2) assms(3)] i64.canonical [OF f(3)]
    by (simp add: ser_PubKeyCommit_def)
qed

section \<open>Properties\<close>

definition impl_ex :: "8 word impl_ops" where
  "impl_ex = \<lparr>FromBytes = (\<lambda>l b. if length b = 1 then Some (hd b) else None),
     ImplSerialize = (\<lambda>l i. [i]), ImplDefault = 0, SerSize = 1, IsGroupElement = True\<rparr>"

definition wire_ex :: "(8 word, 8 word) wire_ops" where
  "wire_ex = \<lparr>pk_ops = impl_ex, sig_ops = impl_ex, bls_legacy_scheme = False\<rparr>"

text \<open>
  C21: Every share, assembled seal and commitment message that the node accepts from the
  wire is well formed, whatever bytes a peer sends and whatever the BLS library does with
  them: hashes have 32 bytes, a key or signature is marked valid exactly when it is not
  the point at infinity, timestamps fit 64 bits, a proof has at most 192 bytes and a seal
  at most 200 signers and 200 algorithms.  An assembled seal never carries VRF proofs.
\<close>

theorem accepted_messages_well_formed:
  assumes "group_ops ops"
  shows "(unser_SealShare ops s = Some (share, r) \<longrightarrow> share_ok_wire ops share) \<and>
    (unser_AssembledSeal ops s = Some (seal, r) \<longrightarrow> seal_ok_wire ops seal) \<and>
    (unser_PubKeyCommit ops s = Some (commit, r) \<longrightarrow> commit_ok_wire ops commit)"
  using unser_SealShare_ok [OF assms] unser_AssembledSeal_ok [OF assms] unser_PubKeyCommit_ok [OF assms] by blast

theorem accepted_messages_well_formed_witness:
  "unser_PubKeyCommit wire_ex ([7, 9] @ ser_int64 5) = Some (\<lparr>pubKey = CBLSWrapper True 7, signature = CBLSWrapper True 9, nTimestamp = 5\<rparr>, []) \<and>
   commit_ok_wire wire_ex \<lparr>pubKey = CBLSWrapper True 7, signature = CBLSWrapper True 9, nTimestamp = 5\<rparr>"
proof -
  let ?c = "\<lparr>pubKey = CBLSWrapper True 7, signature = CBLSWrapper True 9, nTimestamp = 5\<rparr> :: (8 word, 8 word) CPubKeyCommit"
  have u: "unser_PubKeyCommit wire_ex ([7, 9] @ ser_int64 5) = Some (?c, [])"
    using i64.roundtrip [of 5 "[]"]
    by (simp add: unser_PubKeyCommit_def bls_Unserialize_def wire_ex_def impl_ex_def read_span_def SetBytes_def
        CheckMalleable_def ToBytes_def IsValid_def int64_ok_def)
  have "group_ops wire_ex" by (simp add: group_ops_def wire_ex_def impl_ex_def)
  from accepted_messages_well_formed [OF this, of "[7, 9] @ ser_int64 5" _ "[]" _ ?c] u show ?thesis by simp
qed

text \<open>
  What a node sends is what its peers read: a well-formed share or commitment comes
  back unchanged with the rest of the stream, and a well-formed assembled seal comes back
  up to its VRF proofs, which the message does not carry.  Conversely a commitment with a
  valid key and signature has only one encoding, so it cannot be relayed in two forms.
\<close>

theorem hmp_messages_roundtrip:
  assumes "wire_codec ops"
  shows "(share_ok_wire ops share \<longrightarrow> unser_SealShare ops (ser_SealShare ops share @ r) = Some (share, r)) \<and>
    (seal_ok_wire ops (seal\<lparr>as_vrfProofs := []\<rparr>) \<longrightarrow>
       unser_AssembledSeal ops (ser_AssembledSeal ops seal @ r) = Some (seal\<lparr>as_vrfProofs := []\<rparr>, r)) \<and>
    (commit_ok_wire ops commit \<longrightarrow> unser_PubKeyCommit ops (ser_PubKeyCommit ops commit @ r) = Some (commit, r)) \<and>
    (unser_PubKeyCommit ops s = Some (commit, r) \<and> IsValid (pubKey commit) \<and> IsValid (signature commit) \<longrightarrow>
       s = ser_PubKeyCommit ops commit @ r)"
proof -
  have "ser_AssembledSeal ops (seal\<lparr>as_vrfProofs := []\<rparr>) = ser_AssembledSeal ops seal"
    by (simp add: ser_AssembledSeal_def)
  then show ?thesis
    using format.roundtrip [OF share_format [OF assms], of share r] format.roundtrip [OF commit_format [OF assms], of commit r]
      format.roundtrip [OF seal_format [OF assms], of "seal\<lparr>as_vrfProofs := []\<rparr>" r] unser_PubKeyCommit_valid [of ops s commit r]
    by simp
qed

theorem hmp_messages_roundtrip_witness:
  "unser_PubKeyCommit wire_ex (ser_PubKeyCommit wire_ex \<lparr>pubKey = CBLSWrapper True 7, signature = CBLSWrapper False 0, nTimestamp = 5\<rparr> @ [1]) =
     Some (\<lparr>pubKey = CBLSWrapper True 7, signature = CBLSWrapper False 0, nTimestamp = 5\<rparr>, [1])"
proof -
  let ?c = "\<lparr>pubKey = CBLSWrapper True 7, signature = CBLSWrapper False 0, nTimestamp = 5\<rparr> :: (8 word, 8 word) CPubKeyCommit"
  have "wire_codec wire_ex" by (simp add: wire_codec_def wire_ex_def impl_ex_def impl_codec_def)
  moreover have "commit_ok_wire wire_ex ?c"
    by (simp add: commit_ok_wire_def wrapper_ok_def IsValid_def wire_ex_def impl_ex_def int64_ok_def)
  ultimately show ?thesis using hmp_messages_roundtrip [of wire_ex _ "[1]" _ ?c] by simp
qed

end
