(* ===== verification/Coinbase_Tx.thy ===== *)
theory Coinbase_Tx
  imports Bls_Wire
begin

text \<open>
  The special coinbase payload: \<^verbatim>\<open>CCbTx\<close> with its versioned layout (\<^verbatim>\<open>evo/cbtx.h\<close>), its
  context checks (\<^verbatim>\<open>CheckCbTx\<close> of \<^verbatim>\<open>evo/cbtx.cpp\<close>), and the part of
  \<^verbatim>\<open>BlockAssembler::CreateNewBlock\<close> (\<^verbatim>\<open>node/miner.cpp\<close>) that fills it.
\<close>

section \<open>Payload\<close>

definition INVALID :: "16 word" where "INVALID = 0"
definition MERKLE_ROOT_MNLIST :: "16 word" where "MERKLE_ROOT_MNLIST = 1"
definition MERKLE_ROOT_QUORUMS :: "16 word" where "MERKLE_ROOT_QUORUMS = 2"
definition CLSIG_AND_BALANCE :: "16 word" where "CLSIG_AND_BALANCE = 3"
definition HMP_SEAL :: "16 word" where "HMP_SEAL = 4"
definition HMP_COMMITMENT :: "16 word" where "HMP_COMMITMENT = 5"
definition HMP_REARM :: "16 word" where "HMP_REARM = 6"
definition UNKNOWN_VERSION :: "16 word" where "UNKNOWN_VERSION = 7"

lemmas version_defs = INVALID_def MERKLE_ROOT_MNLIST_def MERKLE_ROOT_QUORUMS_def CLSIG_AND_BALANCE_def
  HMP_SEAL_def HMP_COMMITMENT_def HMP_REARM_def UNKNOWN_VERSION_def

record ('k, 's) CCbTx =
  cb_nVersion :: "16 word"
  cb_nHeight :: int
  cb_merkleRootMNList :: uint256
  cb_merkleRootQuorums :: uint256
  cb_bestCLHeightDiff :: "32 word"
  cb_bestCLSignature :: "'s CBLSSignature"
  cb_creditPoolBalance :: int
  cb_minerIdentity :: "'k CBLSPublicKey"
  cb_sealForAncestor :: "'s CBLSSignature"
  cb_sealBlockHash :: uint256
  cb_vSealSigners :: "'k CBLSPublicKey list"
  cb_vSealSignerAlgos :: "8 word list"
  cb_vCommitments :: "'k CBLSPublicKey list"
  cb_vSealSignerVRFProofs :: "'s CBLSSignature list"
  cb_vCommitmentSigs :: "'s CBLSSignature list"
  cb_minerIdentitySig :: "'s CBLSSignature"

definition null_hash :: uint256 where
  "null_hash = replicate 32 0"

text \<open>A default-constructed payload, given the default key and signature.\<close>

definition empty_cbtx :: "'k CBLSPublicKey \<Rightarrow> 's CBLSSignature \<Rightarrow> ('k, 's) CCbTx" where
  "empty_cbtx pk sig = \<lparr>cb_nVersion = MERKLE_ROOT_QUORUMS, cb_nHeight = 0, cb_merkleRootMNList = null_hash,
     cb_merkleRootQuorums = null_hash, cb_bestCLHeightDiff = 0, cb_bestCLSignature = sig, cb_creditPoolBalance = 0,
     cb_minerIdentity = pk, cb_sealForAncestor = sig, cb_sealBlockHash = null_hash, cb_vSealSigners = [],
     cb_vSealSignerAlgos = [], cb_vCommitments = [], cb_vSealSignerVRFProofs = [], cb_vCommitmentSigs = [],
     cb_minerIdentitySig = sig\<rparr>"

section \<open>Byte form\<close>

definition ser_cb_rearm :: "('k, 's) wire_ops \<Rightarrow> ('k, 's) CCbTx \<Rightarrow> bytes" where
  "ser_cb_rearm ops obj =
     ser_limited (wr_sig ops) (cb_vSealSignerVRFProofs obj) @ ser_limited (wr_sig ops) (cb_vCommitmentSigs obj) @
     wr_sig ops (cb_minerIdentitySig obj)"

definition ser_cb_hmp :: "('k, 's) wire_ops \<Rightarrow> ('k, 's) CCbTx \<Rightarrow> bytes" where
  "ser_cb_hmp ops obj =
     wr_pk ops (cb_minerIdentity obj) @ wr_sig ops (cb_sealForAncestor obj) @ cb_sealBlockHash obj @
     ser_limited (wr_pk ops) (cb_vSealSigners obj) @ ser_limited_bytes (cb_vSealSignerAlgos obj) @
     (if cb_nVersion obj \<ge> HMP_COMMITMENT then
        ser_limited (wr_pk ops) (cb_vCommitments obj) @
        (if cb_nVersion obj \<ge> HMP_REARM then ser_cb_rearm ops obj else [])
      else [])"

definition ser_CbTx :: "('k, 's) wire_ops \<Rightarrow> ('k, 's) CCbTx \<Rightarrow> bytes" where
  "ser_CbTx ops obj =
     ser_writedata16 (cb_nVersion obj) @ ser_int32 (cb_nHeight obj) @ cb_merkleRootMNList obj @
     (if cb_nVersion obj \<ge> MERKLE_ROOT_QUORUMS then
        cb_merkleRootQuorums obj @
        (if cb_nVersion obj \<ge> CLSIG_AND_BALANCE then
           ser_compact32 (cb_bestCLHeightDiff obj) @ wr_sig ops (cb_bestCLSignature obj) @
           ser_int64 (cb_creditPoolBalance obj) @
           (if cb_nVersion obj \<ge> HMP_SEAL then ser_cb_hmp ops obj else [])
         else [])
      else [])"

definition unser_cb_rearm :: "('k, 's) wire_ops \<Rightarrow> ('k, 's) CCbTx \<Rightarrow> (('k, 's) CCbTx) reader" where
  "unser_cb_rearm ops obj s =
     do {
       (proofs, s) \<leftarrow> unser_limited MAX_SEAL_SIGNERS (rd_sig ops) s;
       (sigs, s) \<leftarrow> unser_limited 16 (rd_sig ops) s;
       (isig, s) \<leftarrow> rd_sig ops s;
       Some (obj\<lparr>cb_vSealSignerVRFProofs := proofs, cb_vCommitmentSigs := sigs, cb_minerIdentitySig := isig\<rparr>, s)
     }"

definition unser_cb_hmp :: "('k, 's) wire_ops \<Rightarrow> ('k, 's) CCbTx \<Rightarrow> (('k, 's) CCbTx) reader" where
  "unser_cb_hmp ops obj s =
     do {
       (miner, s) \<leftarrow> rd_pk ops s;
       (seal, s) \<leftarrow> rd_sig ops s;
       (hash, s) \<leftarrow> unser_uint256 s;
       (signers, s) \<leftarrow> unser_limited MAX_SEAL_SIGNERS (rd_pk ops) s;
       (algos, s) \<leftarrow> unser_limited_bytes MAX_SEAL_SIGNERS s;
       let obj = obj\<lparr>cb_minerIdentity := miner, cb_sealForAncestor := seal, cb_sealBlockHash := hash,
             cb_vSealSigners := signers, cb_vSealSignerAlgos := algos\<rparr>
       in if cb_nVersion obj \<ge> HMP_COMMITMENT then
            do {
              (commits, s) \<leftarrow> unser_limited 16 (rd_pk ops) s;
              let obj = obj\<lparr>cb_vCommitments := commits\<rparr>
              in if cb_nVersion obj \<ge> HMP_REARM then unser_cb_rearm ops obj s else Some (obj, s)
            }
          else Some (obj, s)
     }"

text \<open>Reading starts from a default-constructed payload.\<close>

definition unser_CbTx :: "('k, 's) wire_ops \<Rightarrow> (('k, 's) CCbTx) reader" where
  "unser_CbTx ops s =
     do {
       (version, s) \<leftarrow> ser_readdata16 s;
       (height, s) \<leftarrow> unser_int32 s;
       (root, s) \<leftarrow> unser_uint256 s;
       let obj = (empty_cbtx (Reset (pk_ops ops)) (Reset (sig_ops ops)))
             \<lparr>cb_nVersion := version, cb_nHeight := height, cb_merkleRootMNList := root\<rparr>
       in if version \<ge> MERKLE_ROOT_QUORUMS then
            do {
              (quorums, s) \<leftarrow> unser_uint256 s;
              let obj = obj\<lparr>cb_merkleRootQuorums := quorums\<rparr>
              in if version \<ge> CLSIG_AND_BALANCE then
                   do {
                     (diff, s) \<leftarrow> unser_compact32 s;
                     (clsig, s) \<leftarrow> rd_sig ops s;
                     (balance, s) \<leftarrow> unser_int64 s;
                     let obj = obj\<lparr>cb_bestCLHeightDiff := diff, cb_bestCLSignature := clsig, cb_creditPoolBalance := balance\<rparr>
                     in if version \<ge> HMP_SEAL then unser_cb_hmp ops obj s else Some (obj, s)
                   }
                 else Some (obj, s)
            }
          else Some (obj, s)
     }"

section \<open>Checks\<close>

definition DeploymentActiveAt :: "int \<Rightarrow> int \<Rightarrow> bool" where
  "DeploymentActiveAt nHeight deploymentHeight = (nHeight \<ge> deploymentHeight)"

definition DeploymentActiveAfter :: "int option \<Rightarrow> int \<Rightarrow> bool" where
  "DeploymentActiveAfter prevHeight deploymentHeight =
     ((case prevHeight of None \<Rightarrow> 0 | Some h \<Rightarrow> h + 1) \<ge> deploymentHeight)"

text \<open>\<^verbatim>\<open>CHashWriter hw; hw << tag << pk\<close>.\<close>

definition commit_hash :: "('sk, 'k, 's) bls_ops \<Rightarrow> string \<Rightarrow> 'k CBLSPublicKey \<Rightarrow> uint256" where
  "commit_hash ops tag pk = hash256 ops (ser_string tag @ ser_pk ops pk)"

definition MinerIdentitySignatureHash :: "('sk, 'k, 's) bls_ops \<Rightarrow> int \<Rightarrow> uint256 \<Rightarrow> script \<Rightarrow> uint256" where
  "MinerIdentitySignatureHash ops nHeight hashPrevBlock payoutScript =
     hash256 ops (ser_string ''HMP-IDENT'' @ ser_int32 nHeight @ hashPrevBlock @ ser_limited_bytes payoutScript)"

text \<open>The version gates against the parent block, by height; \<open>None\<close> is acceptance.\<close>

definition check_version_gates :: "Params \<Rightarrow> ('k, 's) CCbTx \<Rightarrow> int \<Rightarrow> string option" where
  "check_version_gates p cbTx prevHeight =
     (let fDIP0008Active = DeploymentActiveAt prevHeight (DIP0008Height p);
          isV20 = DeploymentActiveAfter (Some prevHeight) (V20Height p);
          fHMPActive = (isV20 \<and> DeploymentActiveAfter (Some prevHeight) (HMPHeight p));
          fRearm = IsHMPRearmActive p (cb_nHeight cbTx);
          v = cb_nVersion cbTx
      in if prevHeight + 1 \<noteq> cb_nHeight cbTx then Some ''bad-cbtx-height''
         else if fDIP0008Active \<and> v < MERKLE_ROOT_QUORUMS then Some ''bad-cbtx-version''
         else if isV20 \<and> v < CLSIG_AND_BALANCE \<or> \<not> isV20 \<and> v \<ge> CLSIG_AND_BALANCE then Some ''bad-cbtx-version''
         else if fHMPActive \<and> v < HMP_SEAL \<or> \<not> fHMPActive \<and> v \<ge> HMP_SEAL then Some ''bad-cbtx-version''
         else if fRearm \<and> v < HMP_REARM \<or> \<not> fRearm \<and> v \<ge> HMP_REARM then Some ''bad-cbtx-version''
         else None)"

text \<open>The index-parallel vectors and self-signatures of version 6.\<close>

definition check_rearm_fields :: "('sk, 'k, 's) bls_ops \<Rightarrow> ('k, 's) CCbTx \<Rightarrow> string option" where
  "check_rearm_fields ops cbTx =
     (if length (cb_vSealSignerVRFProofs cbTx) \<noteq> length (cb_vSealSigners cbTx) then Some ''bad-cbtx-vrf-parity''
      else if length (cb_vCommitmentSigs cbTx) \<noteq> length (cb_vCommitments cbTx) then Some ''bad-cbtx-commitment-sig-parity''
      else if list_ex (\<lambda>i. let pk = cb_vCommitments cbTx ! i; sig = cb_vCommitmentSigs cbTx ! i
                          in \<not> IsValid pk \<or> \<not> IsValid sig \<or> \<not> bls_verify ops sig pk (SignatureHash (commit_hash ops) pk))
                [0..<length (cb_vCommitments cbTx)] then Some ''bad-cbtx-commitment-sig''
      else None)"

definition CheckCbTx :: "('sk, 'k, 's) bls_ops \<Rightarrow> Params \<Rightarrow> ('k, 's) CCbTx \<Rightarrow> int option \<Rightarrow> string option" where
  "CheckCbTx ops p cbTx prevHeight =
     (if cb_nVersion cbTx = INVALID \<or> cb_nVersion cbTx \<ge> UNKNOWN_VERSION then Some ''bad-cbtx-version''
      else case (case prevHeight of None \<Rightarrow> None | Some h \<Rightarrow> check_version_gates p cbTx h) of
             Some e \<Rightarrow> Some e
           | None \<Rightarrow>
               if length (cb_vSealSigners cbTx) \<noteq> length (cb_vSealSignerAlgos cbTx) then Some ''bad-cbtx-seal-signer-parity''
               else if list_ex (\<lambda>algo. uint algo \<ge> NUM_ALGOS) (cb_vSealSignerAlgos cbTx) then Some ''bad-cbtx-seal-algo''
               else if cb_nVersion cbTx \<ge> HMP_REARM then check_rearm_fields ops cbTx
               else None)"

section \<open>Block template\<close>

definition template_version :: "Params \<Rightarrow> int \<Rightarrow> 16 word" where
  "template_version p prevHeight =
     (let fDIP0008 = DeploymentActiveAfter (Some prevHeight) (DIP0008Height p);
          fV20 = DeploymentActiveAfter (Some prevHeight) (V20Height p);
          fHMP = (fV20 \<and> DeploymentActiveAfter (Some prevHeight) (HMPHeight p))
      in if fHMP then HMP_SEAL else if fV20 then CLSIG_AND_BALANCE
         else if fDIP0008 then MERKLE_ROOT_QUORUMS else MERKLE_ROOT_MNLIST)"

definition template_seal ::
  "('sk, 'k, 's) bls_ops \<Rightarrow> bool \<Rightarrow> int \<Rightarrow> (('k, 's) CSealManager) option \<Rightarrow> ('k, 's) CCbTx \<Rightarrow> ('k, 's) CCbTx" where
  "template_seal ops fRearm nHeight sealManager cbTx =
     (case sealManager of
        None \<Rightarrow> cbTx
      | Some m \<Rightarrow>
          (case GetSealForTemplate m nHeight of
             None \<Rightarrow> cbTx
           | Some seal \<Rightarrow>
               let cbTx = cbTx\<lparr>cb_sealForAncestor := as_aggregatedSig seal, cb_sealBlockHash := as_blockHash seal,
                     cb_vSealSigners := as_signers seal, cb_vSealSignerAlgos := as_signerAlgos seal,
                     cb_vSealSignerVRFProofs := as_vrfProofs seal\<rparr>
               in if fRearm \<and> length (cb_vSealSignerVRFProofs cbTx) \<noteq> length (cb_vSealSigners cbTx)
                  then cbTx\<lparr>cb_sealForAncestor := empty_sig ops, cb_sealBlockHash := null_hash, cb_vSealSigners := [],
                         cb_vSealSignerAlgos := [], cb_vSealSignerVRFProofs := []\<rparr>
                  else cbTx))"

fun template_signed ::
  "('sk, 'k, 's) bls_ops \<Rightarrow> 'k CHMPCommitmentRegistry \<Rightarrow> ('k, 's) CPubKeyCommit list \<Rightarrow> ('k, 's) CCbTx \<Rightarrow> ('k, 's) CCbTx" where
  "template_signed ops reg [] cbTx = cbTx"
| "template_signed ops reg (c # pending) cbTx =
     (if length (cb_vCommitments cbTx) \<ge> MAX_COMMITMENTS_PER_BLOCK then cbTx
      else if HasCommitment reg (pubKey c) then template_signed ops reg pending cbTx
      else if \<not> Verify (commit_hash ops) (bls_verify ops) c then template_signed ops reg pending cbTx
      else template_signed ops reg pending
             (cbTx\<lparr>cb_vCommitments := cb_vCommitments cbTx @ [pubKey c],
                   cb_vCommitmentSigs := cb_vCommitmentSigs cbTx @ [signature c]\<rparr>))"

definition template_commitments ::
  "('sk, 'k, 's) bls_ops \<Rightarrow> Params \<Rightarrow> bool \<Rightarrow> (('k, 's) CHMPCommitPool) option \<Rightarrow> ('k CHMPCommitmentRegistry) option \<Rightarrow>
   ('k, 's) CCbTx \<Rightarrow> ('k, 's) CCbTx" where
  "template_commitments ops p fRearm pool registry cbTx =
     (case (pool, registry) of
        (Some pl, Some reg) \<Rightarrow>
          if nHMPCommitmentOffset p > 0 then
            if fRearm then template_signed ops reg (GetPendingCommits (MAX_COMMITMENTS_PER_BLOCK * 2) pl) cbTx
            else let commits = GetForTemplate MAX_COMMITMENTS_PER_BLOCK reg pl
                 in if commits \<noteq> [] then cbTx\<lparr>cb_vCommitments := commits, cb_nVersion := HMP_COMMITMENT\<rparr> else cbTx
          else cbTx
      | _ \<Rightarrow> cbTx)"

text \<open>
  The payload of a new block on a parent at \<open>prevHeight\<close>; \<open>base\<close> carries the list and
  quorum roots, the chain lock and the credit pool, which other components compute.  A
  thrown \<^verbatim>\<open>runtime_error\<close> is \<open>None\<close>.
\<close>

definition CreateCbTx ::
  "('sk, 'k, 's) bls_ops \<Rightarrow> Params \<Rightarrow> int \<Rightarrow> uint256 \<Rightarrow> script \<Rightarrow> (('sk, 'k) CHMPIdentity) option \<Rightarrow> bool \<Rightarrow>
   (('k, 's) CSealManager) option \<Rightarrow> (('k, 's) CHMPCommitPool) option \<Rightarrow> ('k CHMPCommitmentRegistry) option \<Rightarrow>
   ('k, 's) CCbTx \<Rightarrow> (('k, 's) CCbTx) option" where
  "CreateCbTx ops p prevHeight prevHash scriptPubKeyIn identity spork sealManager pool registry base =
     (let nHeight = prevHeight + 1;
          fHMP = (DeploymentActiveAfter (Some prevHeight) (V20Height p) \<and> DeploymentActiveAfter (Some prevHeight) (HMPHeight p));
          fRearm = IsHMPRearmActive p nHeight;
          cbTx = base\<lparr>cb_nVersion := template_version p prevHeight, cb_nHeight := nHeight\<rparr>;
          cbTx = (case identity of
                    Some i \<Rightarrow> if fHMP \<and> identity_IsValid i then cbTx\<lparr>cb_minerIdentity := id_publicKey i\<rparr> else cbTx
                  | None \<Rightarrow> cbTx);
          cbTx = (if fHMP \<and> spork
                  then template_commitments ops p fRearm pool registry (template_seal ops fRearm nHeight sealManager cbTx)
                  else cbTx)
      in if fRearm then
           (case identity of
              Some i \<Rightarrow>
                if identity_IsValid i then
                  Some (cbTx\<lparr>cb_nVersion := HMP_REARM, cb_minerIdentity := id_publicKey i,
                     cb_minerIdentitySig := identity_Sign ops i (MinerIdentitySignatureHash ops nHeight prevHash scriptPubKeyIn)\<rparr>)
                else None
            | None \<Rightarrow> None)
         else Some cbTx)"

section \<open>Round trip of the payload\<close>

lemma version_chain:
  "HMP_REARM \<le> v \<Longrightarrow> HMP_COMMITMENT \<le> v" "HMP_COMMITMENT \<le> v \<Longrightarrow> HMP_SEAL \<le> v"
  "HMP_SEAL \<le> v \<Longrightarrow> CLSIG_AND_BALANCE \<le> v" "CLSIG_AND_BALANCE \<le> v \<Longrightarrow> MERKLE_ROOT_QUORUMS \<le> v"
  by (simp_all add: version_defs word_le_nat_alt)

definition cb_fields_ok :: "('k, 's) wire_ops \<Rightarrow> ('k, 's) CCbTx \<Rightarrow> bool" where
  "cb_fields_ok ops c =
     (int32_ok (cb_nHeight c) \<and> length (cb_merkleRootMNList c) = 32 \<and> length (cb_merkleRootQuorums c) = 32 \<and>
      cb_bestCLHeightDiff c \<le> 0x02000000 \<and> sig_ok ops (cb_bestCLSignature c) \<and> int64_ok (cb_creditPoolBalance c) \<and>
      pk_ok ops (cb_minerIdentity c) \<and> sig_ok ops (cb_sealForAncestor c) \<and> length (cb_sealBlockHash c) = 32 \<and>
      length (cb_vSealSigners c) \<le> 200 \<and> (\<forall>x \<in> set (cb_vSealSigners c). pk_ok ops x) \<and>
      length (cb_vSealSignerAlgos c) \<le> 200 \<and>
      length (cb_vCommitments c) \<le> 16 \<and> (\<forall>x \<in> set (cb_vCommitments c). pk_ok ops x) \<and>
      length (cb_vSealSignerVRFProofs c) \<le> 200 \<and> (\<forall>x \<in> set (cb_vSealSignerVRFProofs c). sig_ok ops x) \<and>
      length (cb_vCommitmentSigs c) \<le> 16 \<and> (\<forall>x \<in> set (cb_vCommitmentSigs c). sig_ok ops x) \<and>
      sig_ok ops (cb_minerIdentitySig c))"

text \<open>The payload with every field that its version does not carry reset to the default.\<close>

definition cb_carried :: "('k, 's) wire_ops \<Rightarrow> ('k, 's) CCbTx \<Rightarrow> ('k, 's) CCbTx" where
  "cb_carried ops c =
     (let v = cb_nVersion c; d = empty_cbtx (Reset (pk_ops ops)) (Reset (sig_ops ops))
      in c\<lparr>cb_merkleRootQuorums := if v \<ge> MERKLE_ROOT_QUORUMS then cb_merkleRootQuorums c else cb_merkleRootQuorums d,
           cb_bestCLHeightDiff := if v \<ge> CLSIG_AND_BALANCE then cb_bestCLHeightDiff c else cb_bestCLHeightDiff d,
           cb_bestCLSignature := if v \<ge> CLSIG_AND_BALANCE then cb_bestCLSignature c else cb_bestCLSignature d,
           cb_creditPoolBalance := if v \<ge> CLSIG_AND_BALANCE then cb_creditPoolBalance c else cb_creditPoolBalance d,
           cb_minerIdentity := if v \<ge> HMP_SEAL then cb_minerIdentity c else cb_minerIdentity d,
           cb_sealForAncestor := if v \<ge> HMP_SEAL then cb_sealForAncestor c else cb_sealForAncestor d,
           cb_sealBlockHash := if v \<ge> HMP_SEAL then cb_sealBlockHash c else cb_sealBlockHash d,
           cb_vSealSigners := if v \<ge> HMP_SEAL then cb_vSealSigners c else cb_vSealSigners d,
           cb_vSealSignerAlgos := if v \<ge> HMP_SEAL then cb_vSealSignerAlgos c else cb_vSealSignerAlgos d,
           cb_vCommitments := if v \<ge> HMP_COMMITMENT then cb_vCommitments c else cb_vCommitments d,
           cb_vSealSignerVRFProofs := if v \<ge> HMP_REARM then cb_vSealSignerVRFProofs c else cb_vSealSignerVRFProofs d,
           cb_vCommitmentSigs := if v \<ge> HMP_REARM then cb_vCommitmentSigs c else cb_vCommitmentSigs d,
           cb_minerIdentitySig := if v \<ge> HMP_REARM then cb_minerIdentitySig c else cb_minerIdentitySig d\<rparr>)"

lemma unser_cb_rearm_ser:
  assumes "wire_codec ops" "cb_fields_ok ops c"
  shows "unser_cb_rearm ops obj (ser_cb_rearm ops c @ r) =
    Some (obj\<lparr>cb_vSealSignerVRFProofs := cb_vSealSignerVRFProofs c, cb_vCommitmentSigs := cb_vCommitmentSigs c,
      cb_minerIdentitySig := cb_minerIdentitySig c\<rparr>, r)"
  using assms(2) format.roundtrip [OF sigs_format [OF assms(1), of 200]]
    format.roundtrip [OF sigs_format [OF assms(1), of 16]] format.roundtrip [OF sig_format [OF assms(1)]]
  by (simp add: unser_cb_rearm_def ser_cb_rearm_def cb_fields_ok_def MAX_SEAL_SIGNERS_def)

lemma unser_cb_hmp_ser:
  assumes "wire_codec ops" "cb_fields_ok ops c" "cb_nVersion obj = cb_nVersion c"
  shows "unser_cb_hmp ops obj (ser_cb_hmp ops c @ r) =
    Some (let obj = obj\<lparr>cb_minerIdentity := cb_minerIdentity c, cb_sealForAncestor := cb_sealForAncestor c,
            cb_sealBlockHash := cb_sealBlockHash c, cb_vSealSigners := cb_vSealSigners c, cb_vSealSignerAlgos := cb_vSealSignerAlgos c\<rparr>
          in if cb_nVersion c \<ge> HMP_COMMITMENT then
               let obj = obj\<lparr>cb_vCommitments := cb_vCommitments c\<rparr>
               in if cb_nVersion c \<ge> HMP_REARM
                  then obj\<lparr>cb_vSealSignerVRFProofs := cb_vSealSignerVRFProofs c, cb_vCommitmentSigs := cb_vCommitmentSigs c,
                         cb_minerIdentitySig := cb_minerIdentitySig c\<rparr>
                  else obj
             else obj, r)"
proof -
  note pk = format.roundtrip [OF pk_format [OF assms(1)]] and sig = format.roundtrip [OF sig_format [OF assms(1)]]
    and pks200 = format.roundtrip [OF pks_format [OF assms(1), of 200]]
    and pks16 = format.roundtrip [OF pks_format [OF assms(1), of 16]]
  show ?thesis using assms(2,3) pk sig pks200 pks16
    by (simp add: unser_cb_hmp_def ser_cb_hmp_def cb_fields_ok_def MAX_SEAL_SIGNERS_def h256.roundtrip
        limited_bytes_roundtrip unser_cb_rearm_ser [OF assms(1,2)] Let_def)
qed

lemma unser_CbTx_ser:
  assumes "wire_codec ops" "cb_fields_ok ops c"
  shows "unser_CbTx ops (ser_CbTx ops c @ r) = Some (cb_carried ops c, r)"
proof -
  note sig = format.roundtrip [OF sig_format [OF assms(1)]]
  have ok: "int32_ok (cb_nHeight c)" "length (cb_merkleRootMNList c) = 32" "length (cb_merkleRootQuorums c) = 32"
      "cb_bestCLHeightDiff c \<le> 0x02000000" "sig_ok ops (cb_bestCLSignature c)" "int64_ok (cb_creditPoolBalance c)"
    using assms(2) by (simp_all add: cb_fields_ok_def)
  note rt = u16.roundtrip i32.roundtrip h256.roundtrip compact32.roundtrip i64.roundtrip sig
    unser_cb_hmp_ser [OF assms]
  show ?thesis
    using version_chain [of "cb_nVersion c"] ok
    by (cases "HMP_SEAL \<le> cb_nVersion c"; cases "CLSIG_AND_BALANCE \<le> cb_nVersion c"; cases "MERKLE_ROOT_QUORUMS \<le> cb_nVersion c";
        cases "HMP_COMMITMENT \<le> cb_nVersion c"; cases "HMP_REARM \<le> cb_nVersion c")
      (simp_all add: unser_CbTx_def ser_CbTx_def rt cb_carried_def Let_def empty_cbtx_def)
qed

section \<open>Bounds of an accepted payload\<close>

definition cb_bounded :: "('k, 's) CCbTx \<Rightarrow> bool" where
  "cb_bounded c =
     (int32_ok (cb_nHeight c) \<and> length (cb_vSealSigners c) \<le> 200 \<and> length (cb_vSealSignerAlgos c) \<le> 200 \<and>
      length (cb_vCommitments c) \<le> 16 \<and> length (cb_vSealSignerVRFProofs c) \<le> 200 \<and> length (cb_vCommitmentSigs c) \<le> 16)"

lemma unser_limited_length: "unser_limited limit rd s = Some (xs, r) \<Longrightarrow> length xs \<le> limit"
  using unser_limited_all [of limit rd s xs r "\<lambda>_. True"] by simp

lemma unser_cb_rearm_bounded:
  assumes "unser_cb_rearm ops obj s = Some (c, r)" "cb_bounded obj"
  shows "cb_bounded c"
  using assms unfolding unser_cb_rearm_def bind_field
  by (auto simp: cb_bounded_def MAX_SEAL_SIGNERS_def dest!: unser_limited_length)

lemma unser_cb_hmp_bounded:
  assumes "unser_cb_hmp ops obj s = Some (c, r)" "cb_bounded obj"
  shows "cb_bounded c"
proof -
  obtain miner seal hash signers algos s1 s2 s3 where
    f: "unser_limited MAX_SEAL_SIGNERS (rd_pk ops) s1 = Some (signers, s2)" "unser_limited_bytes MAX_SEAL_SIGNERS s2 = Some (algos, s3)"
    and c: "(let obj = obj\<lparr>cb_minerIdentity := miner, cb_sealForAncestor := seal, cb_sealBlockHash := hash,
             cb_vSealSigners := signers, cb_vSealSignerAlgos := algos\<rparr>
       in if cb_nVersion obj \<ge> HMP_COMMITMENT then
            do {
              (commits, s) \<leftarrow> unser_limited 16 (rd_pk ops) s3;
              let obj = obj\<lparr>cb_vCommitments := commits\<rparr>
              in if cb_nVersion obj \<ge> HMP_REARM then unser_cb_rearm ops obj s else Some (obj, s)
            }
          else Some (obj, s3)) = Some (c, r)"
    using assms(1) unfolding unser_cb_hmp_def bind_field by auto
  define obj' where "obj' = obj\<lparr>cb_minerIdentity := miner, cb_sealForAncestor := seal, cb_sealBlockHash := hash,
             cb_vSealSigners := signers, cb_vSealSignerAlgos := algos\<rparr>"
  have b: "cb_bounded obj'"
    using assms(2) unser_limited_length [OF f(1)] unser_limited_bytes_length [OF f(2)]
    by (simp add: obj'_def cb_bounded_def MAX_SEAL_SIGNERS_def)
  show ?thesis
  proof (cases "cb_nVersion obj' \<ge> HMP_COMMITMENT")
    case True
    then obtain commits s4 where u: "unser_limited 16 (rd_pk ops) s3 = Some (commits, s4)"
      and c': "(if cb_nVersion obj' \<ge> HMP_REARM then unser_cb_rearm ops (obj'\<lparr>cb_vCommitments := commits\<rparr>) s4
          else Some (obj'\<lparr>cb_vCommitments := commits\<rparr>, s4)) = Some (c, r)"
      using c unfolding obj'_def [symmetric] Let_def bind_field by (auto simp: bind_field)
    have "cb_bounded (obj'\<lparr>cb_vCommitments := commits\<rparr>)" using b unser_limited_length [OF u] by (simp add: cb_bounded_def)
    then show ?thesis using c' unser_cb_rearm_bounded by (auto split: if_splits)
  next
    case False
    then show ?thesis using b c unfolding obj'_def [symmetric] Let_def by simp
  qed
qed

lemma unser_CbTx_bounded:
  assumes "unser_CbTx ops s = Some (c, r)"
  shows "cb_bounded c"
proof -
  obtain v h root s1 s2 s3 where f: "unser_int32 s1 = Some (h, s2)"
    and c: "(let obj = (empty_cbtx (Reset (pk_ops ops)) (Reset (sig_ops ops)))
             \<lparr>cb_nVersion := v, cb_nHeight := h, cb_merkleRootMNList := root\<rparr>
       in if v \<ge> MERKLE_ROOT_QUORUMS then
            do {
              (quorums, s) \<leftarrow> unser_uint256 s3;
              let obj = obj\<lparr>cb_merkleRootQuorums := quorums\<rparr>
              in if v \<ge> CLSIG_AND_BALANCE then
                   do {
                     (diff, s) \<leftarrow> unser_compact32 s;
                     (clsig, s) \<leftarrow> rd_sig ops s;
                     (balance, s) \<leftarrow> unser_int64 s;
                     let obj = obj\<lparr>cb_bestCLHeightDiff := diff, cb_bestCLSignature := clsig, cb_creditPoolBalance := balance\<rparr>
                     in if v \<ge> HMP_SEAL then unser_cb_hmp ops obj s else Some (obj, s)
                   }
                 else Some (obj, s)
            }
          else Some (obj, s3)) = Some (c, r)"
    using assms unfolding unser_CbTx_def bind_field by auto
  have h: "int32_ok h" using i32.canonical [OF f] by simp
  have b: "cb_bounded ((empty_cbtx (Reset (pk_ops ops)) (Reset (sig_ops ops)))
      \<lparr>cb_nVersion := v, cb_nHeight := h, cb_merkleRootMNList := a, cb_merkleRootQuorums := b,
       cb_bestCLHeightDiff := d, cb_bestCLSignature := e, cb_creditPoolBalance := f\<rparr>)"
    "cb_bounded ((empty_cbtx (Reset (pk_ops ops)) (Reset (sig_ops ops)))
      \<lparr>cb_nVersion := v, cb_nHeight := h, cb_merkleRootMNList := a, cb_merkleRootQuorums := b\<rparr>)"
    "cb_bounded ((empty_cbtx (Reset (pk_ops ops)) (Reset (sig_ops ops)))
      \<lparr>cb_nVersion := v, cb_nHeight := h, cb_merkleRootMNList := a\<rparr>)" for a b d e f
    using h by (simp_all add: cb_bounded_def empty_cbtx_def)
  show ?thesis using c b unser_cb_hmp_bounded [of ops]
    unfolding Let_def by (fastforce simp: bind_field split: if_splits)
qed

section \<open>Templates against the checks\<close>

definition commit_pair_ok :: "('sk, 'k, 's) bls_ops \<Rightarrow> 'k CBLSPublicKey \<Rightarrow> 's CBLSSignature \<Rightarrow> bool" where
  "commit_pair_ok ops pk sig = (IsValid pk \<and> IsValid sig \<and> bls_verify ops sig pk (SignatureHash (commit_hash ops) pk))"

lemma template_signed_fields [simp]:
  "cb_nVersion (template_signed ops reg cs c) = cb_nVersion c"
  "cb_nHeight (template_signed ops reg cs c) = cb_nHeight c"
  "cb_vSealSigners (template_signed ops reg cs c) = cb_vSealSigners c"
  "cb_vSealSignerAlgos (template_signed ops reg cs c) = cb_vSealSignerAlgos c"
  "cb_vSealSignerVRFProofs (template_signed ops reg cs c) = cb_vSealSignerVRFProofs c"
  by (induction ops reg cs c rule: template_signed.induct) simp_all

lemma template_signed_pairs:
  "list_all2 (commit_pair_ok ops) (cb_vCommitments c) (cb_vCommitmentSigs c) \<Longrightarrow>
   list_all2 (commit_pair_ok ops) (cb_vCommitments (template_signed ops reg cs c)) (cb_vCommitmentSigs (template_signed ops reg cs c))"
proof (induction ops reg cs c rule: template_signed.induct)
  case (2 ops reg c pending cbTx)
  show ?case
  proof (cases "Verify (commit_hash ops) (bls_verify ops) c")
    case True
    then have "commit_pair_ok ops (pubKey c) (signature c)" by (simp add: Verify_def commit_pair_ok_def split: if_splits)
    then show ?thesis using 2 True by (simp add: list_all2_appendI)
  qed (use 2 in simp)
qed simp

lemma check_rearm_fields_pairs:
  assumes "list_all2 (commit_pair_ok ops) (cb_vCommitments c) (cb_vCommitmentSigs c)"
    and "length (cb_vSealSignerVRFProofs c) = length (cb_vSealSigners c)"
  shows "check_rearm_fields ops c = None"
proof -
  have "commit_pair_ok ops (cb_vCommitments c ! i) (cb_vCommitmentSigs c ! i)" if "i < length (cb_vCommitments c)" for i
    using assms(1) that by (rule list_all2_nthD)
  then show ?thesis using assms list_all2_lengthD [OF assms(1)]
    by (simp add: check_rearm_fields_def list_ex_iff commit_pair_ok_def Let_def)
qed

lemma template_seal_fields [simp]:
  "cb_nVersion (template_seal ops fRearm h m c) = cb_nVersion c"
  "cb_nHeight (template_seal ops fRearm h m c) = cb_nHeight c"
  "cb_vCommitments (template_seal ops fRearm h m c) = cb_vCommitments c"
  "cb_vCommitmentSigs (template_seal ops fRearm h m c) = cb_vCommitmentSigs c"
  by (simp_all add: template_seal_def Let_def split: option.split)

definition mgr_inv :: "('sk, 'k::linorder, 's) bls_ops \<Rightarrow> (('k, 's) CSealManager) option \<Rightarrow> bool" where
  "mgr_inv ops sm = (case sm of None \<Rightarrow> True | Some m \<Rightarrow> seal_inv ops m)"

lemma template_seal_parity:
  assumes "mgr_inv ops sm" "length (cb_vSealSigners c) = length (cb_vSealSignerAlgos c)"
    "length (cb_vSealSignerVRFProofs c) = length (cb_vSealSigners c)"
  shows "length (cb_vSealSigners (template_seal ops fRearm h sm c)) = length (cb_vSealSignerAlgos (template_seal ops fRearm h sm c))"
    and "fRearm \<Longrightarrow> length (cb_vSealSignerVRFProofs (template_seal ops fRearm h sm c)) = length (cb_vSealSigners (template_seal ops fRearm h sm c))"
proof -
  have "length (as_signers seal) = length (as_signerAlgos seal)" if g: "sm = Some m" "GetSealForTemplate m h = Some seal" for m seal
  proof -
    obtain hash where "GetSeal m hash = Some seal"
      using g(2) by (auto simp: GetSealForTemplate_def GetSeal_def split: option.splits)
    then have "seal_Verify ops seal"
      using assms(1) g(1) by (auto simp: mgr_inv_def seal_inv_def cache_ok_def om_list_all GetSeal_def seal_ok_def)
    then show ?thesis by (simp add: seal_Verify_def split: if_splits)
  qed
  then show "length (cb_vSealSigners (template_seal ops fRearm h sm c)) = length (cb_vSealSignerAlgos (template_seal ops fRearm h sm c))"
    "fRearm \<Longrightarrow> length (cb_vSealSignerVRFProofs (template_seal ops fRearm h sm c)) = length (cb_vSealSigners (template_seal ops fRearm h sm c))"
    using assms(2,3) by (auto simp: template_seal_def Let_def split: option.split)
qed

lemma template_commitments_fields [simp]:
  "cb_nHeight (template_commitments ops p fRearm pool reg c) = cb_nHeight c"
  "cb_vSealSigners (template_commitments ops p fRearm pool reg c) = cb_vSealSigners c"
  "cb_vSealSignerAlgos (template_commitments ops p fRearm pool reg c) = cb_vSealSignerAlgos c"
  "cb_vSealSignerVRFProofs (template_commitments ops p fRearm pool reg c) = cb_vSealSignerVRFProofs c"
  by (simp_all add: template_commitments_def Let_def split: option.split)

lemma template_commitments_version:
  "cb_nVersion (template_commitments ops p fRearm pool reg c) \<in> {cb_nVersion c, HMP_COMMITMENT}"
  by (simp add: template_commitments_def Let_def split: option.split)

lemma template_commitments_pairs:
  "list_all2 (commit_pair_ok ops) (cb_vCommitments c) (cb_vCommitmentSigs c) \<Longrightarrow>
   list_all2 (commit_pair_ok ops) (cb_vCommitments (template_commitments ops p True pool reg c))
     (cb_vCommitmentSigs (template_commitments ops p True pool reg c))"
  by (simp add: template_commitments_def template_signed_pairs split: option.split)

definition hmp_active :: "Params \<Rightarrow> int \<Rightarrow> bool" where
  "hmp_active p height = (V20Height p \<le> height \<and> HMPHeight p \<le> height)"

lemma template_gates:
  assumes "cb_nHeight c = h + 1" "IsHMPRearmActive p (h + 1) \<Longrightarrow> hmp_active p (h + 1)"
    and "cb_nVersion c = (if IsHMPRearmActive p (h + 1) then HMP_REARM else v)"
    and "v = template_version p h \<or> hmp_active p (h + 1) \<and> v = HMP_COMMITMENT"
  shows "check_version_gates p c h = None \<and> cb_nVersion c \<noteq> INVALID \<and> \<not> cb_nVersion c \<ge> UNKNOWN_VERSION"
  using assms
  by (auto simp: check_version_gates_def template_version_def DeploymentActiveAfter_def DeploymentActiveAt_def
      hmp_active_def Let_def version_defs word_le_nat_alt word_less_nat_alt split: if_splits)

text \<open>What \<^verbatim>\<open>CreateNewBlock\<close> starts from: a payload without HMP data.\<close>

definition fresh_cbtx :: "('k, 's) CCbTx \<Rightarrow> bool" where
  "fresh_cbtx c = (cb_vSealSigners c = [] \<and> cb_vSealSignerAlgos c = [] \<and> cb_vSealSignerVRFProofs c = [] \<and>
     cb_vCommitments c = [] \<and> cb_vCommitmentSigs c = [])"

lemma CreateCbTx_shape:
  assumes "CreateCbTx ops p h prev script ident spork sm pool reg base = Some c"
    and "fresh_cbtx base" "mgr_inv ops sm"
  shows "cb_nHeight c = h + 1"
    and "\<exists>v. cb_nVersion c = (if IsHMPRearmActive p (h + 1) then HMP_REARM else v) \<and>
        (v = template_version p h \<or> hmp_active p (h + 1) \<and> v = HMP_COMMITMENT)"
    and "length (cb_vSealSigners c) = length (cb_vSealSignerAlgos c)"
    and "IsHMPRearmActive p (h + 1) \<Longrightarrow> check_rearm_fields ops c = None"
proof -
  define fHMP where "fHMP = (DeploymentActiveAfter (Some h) (V20Height p) \<and> DeploymentActiveAfter (Some h) (HMPHeight p))"
  define fRearm where "fRearm = IsHMPRearmActive p (h + 1)"
  define c0 where "c0 = base\<lparr>cb_nVersion := template_version p h, cb_nHeight := h + 1\<rparr>"
  define c1 where "c1 = (case ident of
                    Some i \<Rightarrow> if fHMP \<and> identity_IsValid i then c0\<lparr>cb_minerIdentity := id_publicKey i\<rparr> else c0
                  | None \<Rightarrow> c0)"
  define c2 where "c2 = (if fHMP \<and> spork then template_commitments ops p fRearm pool reg (template_seal ops fRearm (h + 1) sm c1) else c1)"
  have c: "c = c2 \<and> \<not> fRearm \<or> fRearm \<and> (\<exists>i. c = c2\<lparr>cb_nVersion := HMP_REARM, cb_minerIdentity := id_publicKey i,
       cb_minerIdentitySig := identity_Sign ops i (MinerIdentitySignatureHash ops (h + 1) prev script)\<rparr>)"
    using assms(1) unfolding CreateCbTx_def Let_def fHMP_def [symmetric] fRearm_def [symmetric] c0_def [symmetric]
      c1_def [symmetric] c2_def [symmetric] by (auto split: if_splits option.splits)
  have f1: "cb_nHeight c1 = h + 1" "cb_nVersion c1 = template_version p h" "cb_vSealSigners c1 = []" "cb_vSealSignerAlgos c1 = []"
    "cb_vSealSignerVRFProofs c1 = []" "cb_vCommitments c1 = []" "cb_vCommitmentSigs c1 = []"
    using assms(2) by (auto simp: c1_def c0_def fresh_cbtx_def split: option.split)
  note par = template_seal_parity [OF assms(3), of c1 fRearm "h + 1", unfolded f1, simplified]
  have f2: "cb_nHeight c2 = h + 1" "length (cb_vSealSigners c2) = length (cb_vSealSignerAlgos c2)"
    using f1 par by (simp_all add: c2_def)
  have v2: "cb_nVersion c2 = template_version p h \<or> hmp_active p (h + 1) \<and> cb_nVersion c2 = HMP_COMMITMENT"
    using template_commitments_version [of ops p fRearm pool reg "template_seal ops fRearm (h + 1) sm c1"] f1(2)
    by (auto simp: c2_def hmp_active_def fHMP_def DeploymentActiveAfter_def)
  show "cb_nHeight c = h + 1" "length (cb_vSealSigners c) = length (cb_vSealSignerAlgos c)" using c f2 by auto
  show "\<exists>v. cb_nVersion c = (if IsHMPRearmActive p (h + 1) then HMP_REARM else v) \<and>
        (v = template_version p h \<or> hmp_active p (h + 1) \<and> v = HMP_COMMITMENT)"
    using c v2 unfolding fRearm_def by auto
  assume r: "IsHMPRearmActive p (h + 1)"
  have "list_all2 (commit_pair_ok ops) (cb_vCommitments c2) (cb_vCommitmentSigs c2)"
    using r f1 template_commitments_pairs [of ops "template_seal ops fRearm (h + 1) sm c1" p pool reg]
    by (simp add: c2_def fRearm_def)
  moreover have "length (cb_vSealSignerVRFProofs c2) = length (cb_vSealSigners c2)"
    using r f1 par(2) by (simp add: c2_def fRearm_def)
  ultimately have "check_rearm_fields ops c2 = None" by (rule check_rearm_fields_pairs)
  moreover have "check_rearm_fields ops (c2\<lparr>cb_nVersion := v, cb_minerIdentity := k, cb_minerIdentitySig := s\<rparr>) =
      check_rearm_fields ops c2" for v k s by (simp add: check_rearm_fields_def)
  ultimately show "check_rearm_fields ops c = None" using c by auto
qed

section \<open>Properties\<close>

text \<open>
  C9: The payload that a node puts into its own block template passes \<^verbatim>\<open>CheckCbTx\<close>, at every
  height and with every state of the commitment pool, except for one case: the cached
  seal for the sealed ancestor lists an algorithm number out of range.  Then the template
  is refused with \<^verbatim>\<open>bad-cbtx-seal-algo\<close>.  The manager does not exclude that case: seals
  received from peers are verified without looking at the range of their algorithms.
\<close>

theorem template_passes_checks:
  assumes "CreateCbTx ops p h prev script ident spork sm pool reg base = Some c"
    and "fresh_cbtx base" "mgr_inv ops sm" "IsHMPRearmActive p (h + 1) \<longrightarrow> hmp_active p (h + 1)"
  shows "CheckCbTx ops p c (Some h) =
    (if \<exists>a \<in> set (cb_vSealSignerAlgos c). NUM_ALGOS \<le> uint a then Some ''bad-cbtx-seal-algo'' else None)"
proof -
  note sh = CreateCbTx_shape [OF assms(1-3)]
  obtain v where v: "cb_nVersion c = (if IsHMPRearmActive p (h + 1) then HMP_REARM else v)"
    "v = template_version p h \<or> hmp_active p (h + 1) \<and> v = HMP_COMMITMENT" using sh(2) by auto
  note g = template_gates [OF sh(1) _ v]
  have "\<not> HMP_REARM \<le> v" using v(2) by (auto simp: template_version_def Let_def version_defs word_le_nat_alt split: if_splits)
  then have r: "HMP_REARM \<le> cb_nVersion c \<Longrightarrow> check_rearm_fields ops c = None"
    using sh(4) v(1) by (auto split: if_splits)
  show ?thesis using g assms(4) sh(3) r by (auto simp: CheckCbTx_def list_ex_iff)
qed

definition hostile_seal :: "(nat, nat \<times> uint256) CAssembledSeal" where
  "hostile_seal = (peer_seal [1] (replicate 32 8))\<lparr>as_signerAlgos := [200]\<rparr>"

definition hostile_manager :: "(nat, nat \<times> uint256) CSealManager" where
  "hostile_manager = snd (seal_commit hostile_seal 998 (new_seal_manager (mainnet [] [] [] [] [] [])))"

theorem template_passes_checks_witness:
  "\<exists>c. CreateCbTx toy_ops (mainnet [] [] [] [] [] []) 999 [] [] None True (Some hostile_manager) None None
       (empty_cbtx (empty_pk toy_ops) (empty_sig toy_ops)) = Some c \<and>
     CheckCbTx toy_ops (mainnet [] [] [] [] [] []) c (Some 999) = Some ''bad-cbtx-seal-algo''"
proof -
  let ?p = "mainnet [] [] [] [] [] []" and ?base = "empty_cbtx (empty_pk toy_ops) (empty_sig toy_ops)"
  have par: "V20Height ?p = 2" "HMPHeight ?p = 100" "nHMPRearmHeight ?p = 148000" "nHMPSealTrailingDepth ?p = 2"
    by (simp_all add: mainnet_def)
  have "\<not> IsNull (replicate 32 8)" by (simp add: IsNull_def list_all_iff)
  then have v: "seal_Verify toy_ops hostile_seal"
    by (simp add: seal_Verify_def hostile_seal_def peer_seal_def toy_ops_def IsValid_def MAX_SEAL_SIGNERS_def)
  have inv: "mgr_inv toy_ops (Some hostile_manager)"
    using seal_inv_commit(1) [OF seal_inv_new v] by (simp add: mgr_inv_def hostile_manager_def)
  have g: "GetSealForTemplate hostile_manager 1000 = Some hostile_seal"
    by (simp add: GetSealForTemplate_def hostile_manager_def seal_commit_def new_seal_manager_def par seal_superseded_def
        no_better_seal_def other_at_height_def hostile_seal_def peer_seal_def Let_def om_find_def)
  have r: "\<not> IsHMPRearmActive ?p 1000" by (simp add: IsHMPRearmActive_def par)
  obtain c where c: "CreateCbTx toy_ops ?p 999 [] [] None True (Some hostile_manager) None None ?base = Some c"
    "cb_vSealSignerAlgos c = [200]"
    using r g by (simp add: CreateCbTx_def template_seal_def template_commitments_def DeploymentActiveAfter_def par Let_def hostile_seal_def)
  have "CheckCbTx toy_ops ?p c (Some 999) = Some ''bad-cbtx-seal-algo''"
    using template_passes_checks [OF c(1) _ inv] r c(2) by (simp add: fresh_cbtx_def empty_cbtx_def NUM_ALGOS_def)
  then show ?thesis using c(1) by blast
qed

text \<open>
  C23: Serialising a payload and reading it back gives exactly the fields that its version
  carries, all others at their defaults, for every version; and whatever is read, from any
  bytes, has at most 200 signers, algorithms and proofs and at most 16 commitments.
\<close>

theorem payload_roundtrip:
  assumes "wire_codec ops"
  shows "(cb_fields_ok ops c \<longrightarrow> unser_CbTx ops (ser_CbTx ops c @ r) = Some (cb_carried ops c, r)) \<and>
    (unser_CbTx ops s = Some (c', r') \<longrightarrow> cb_bounded c')"
  using unser_CbTx_ser [OF assms] unser_CbTx_bounded by blast

theorem payload_roundtrip_witness:
  "let c = (empty_cbtx (CBLSWrapper False 0) (CBLSWrapper False 0) :: (8 word, 8 word) CCbTx)\<lparr>cb_nVersion := HMP_SEAL, cb_minerIdentity := CBLSWrapper True 7,
       cb_vSealSigners := [CBLSWrapper True 5], cb_vSealSignerAlgos := [3], cb_vCommitments := [CBLSWrapper True 9]\<rparr>
   in unser_CbTx wire_ex (ser_CbTx wire_ex c @ [1]) = Some (c\<lparr>cb_vCommitments := []\<rparr>, [1])"
proof -
  define c where "c = (empty_cbtx (CBLSWrapper False 0) (CBLSWrapper False 0) :: (8 word, 8 word) CCbTx)
     \<lparr>cb_nVersion := HMP_SEAL, cb_minerIdentity := CBLSWrapper True 7,
       cb_vSealSigners := [CBLSWrapper True 5], cb_vSealSignerAlgos := [3], cb_vCommitments := [CBLSWrapper True 9]\<rparr>"
  have "wire_codec wire_ex" by (simp add: wire_codec_def wire_ex_def impl_ex_def impl_codec_def)
  moreover have "cb_fields_ok wire_ex c"
    by (simp add: c_def cb_fields_ok_def empty_cbtx_def wrapper_ok_def IsValid_def wire_ex_def impl_ex_def int64_ok_def int32_ok_def null_hash_def)
  moreover have "cb_carried wire_ex c = c\<lparr>cb_vCommitments := []\<rparr>"
    by (simp add: c_def cb_carried_def empty_cbtx_def version_defs wire_ex_def impl_ex_def Reset_def Let_def)
  ultimately have "unser_CbTx wire_ex (ser_CbTx wire_ex c @ [1]) = Some (c\<lparr>cb_vCommitments := []\<rparr>, [1])"
    using payload_roundtrip [of wire_ex c "[1]"] by simp
  then show ?thesis unfolding Let_def c_def .
qed

end
