(* ===== verification/Block_Index.thy ===== *)
theory Block_Index
  imports Prelude
begin

text \<open>
  \<^verbatim>\<open>chain.h\<close> and \<^verbatim>\<open>chain.cpp\<close>: the tree of block index entries with its parent and skip
  pointers, ancestor lookup, fork points and the active chain.  An entry is a value:
  two pointers to one entry are equal values, and entries of different blocks differ
  in their data, which contains the block hash.  A failed \<^verbatim>\<open>assert\<close> is \<open>None\<close>.
\<close>

unbundle bit_operations_syntax

section \<open>Entries\<close>

datatype 'b block_entry =
  Entry (bdata: 'b) (nHeight: int) (pprev: "('b block_entry) option") (pskip: "('b block_entry) option")

definition InvertLowestOne :: "int \<Rightarrow> int" where
  "InvertLowestOne n = n AND (n - 1)"

definition GetSkipHeight :: "int \<Rightarrow> int" where
  "GetSkipHeight height =
     (if height < 2 then 0
      else if height AND 1 \<noteq> 0 then InvertLowestOne (InvertLowestOne (height - 1)) + 1
      else InvertLowestOne height)"

definition follow_skip :: "int \<Rightarrow> int \<Rightarrow> bool" where
  "follow_skip heightWalk height =
     (let heightSkip = GetSkipHeight heightWalk; heightSkipPrev = GetSkipHeight (heightWalk - 1)
      in heightSkip = height \<or>
         heightSkip > height \<and> \<not> (heightSkipPrev < heightSkip - 2 \<and> heightSkipPrev \<ge> height))"

lemma size_pskip [termination_simp]: "pskip e = Some s \<Longrightarrow> size s < size e"
  by (cases e) auto

lemma size_pprev [termination_simp]: "pprev e = Some p \<Longrightarrow> size p < size e"
  by (cases e) auto

text \<open>The walk of \<^verbatim>\<open>GetAncestor\<close> from an entry at height \<open>heightWalk\<close>.\<close>

function ancestor_walk :: "int \<Rightarrow> int \<Rightarrow> 'b block_entry \<Rightarrow> ('b block_entry) option" where
  "ancestor_walk height heightWalk e =
     (if heightWalk > height then
        (case (if follow_skip heightWalk height then pskip e else None) of
           Some s \<Rightarrow> ancestor_walk height (GetSkipHeight heightWalk) s
         | None \<Rightarrow>
             (case pprev e of
                None \<Rightarrow> None
              | Some p \<Rightarrow> ancestor_walk height (heightWalk - 1) p))
      else Some e)"
  by pat_completeness auto
termination
  by (relation "measure (\<lambda>(height, heightWalk, e). size e)") (auto simp: size_pskip size_pprev split: if_splits)

declare ancestor_walk.simps [simp del]

definition GetAncestor :: "'b block_entry \<Rightarrow> int \<Rightarrow> ('b block_entry) option" where
  "GetAncestor e height =
     (if height > nHeight e \<or> height < 0 then None else ancestor_walk height (nHeight e) e)"

definition genesis_entry :: "'b \<Rightarrow> 'b block_entry" where
  "genesis_entry b = Entry b 0 None None"

text \<open>A new entry with its parent set, after \<^verbatim>\<open>BuildSkip\<close>.\<close>

definition BuildSkip :: "'b \<Rightarrow> 'b block_entry \<Rightarrow> 'b block_entry" where
  "BuildSkip b p = Entry b (nHeight p + 1) (Some p) (GetAncestor p (GetSkipHeight (nHeight p + 1)))"

inductive in_tree :: "'b block_entry \<Rightarrow> bool" where
  "in_tree (genesis_entry b)"
| "in_tree p \<Longrightarrow> in_tree (BuildSkip b p)"

section \<open>Fork points\<close>

function common_walk :: "('b block_entry) option \<Rightarrow> ('b block_entry) option \<Rightarrow> ('b block_entry) option" where
  "common_walk pa pb =
     (if pa = pb then pa
      else case pa of
             None \<Rightarrow> None
           | Some a \<Rightarrow> (case pb of None \<Rightarrow> None | Some b \<Rightarrow> common_walk (pprev a) (pprev b)))"
  by pat_completeness auto
termination
proof (relation "measure (\<lambda>(pa, pb). case pa of None \<Rightarrow> 0 | Some a \<Rightarrow> Suc (size a))")
  fix pa pb :: "('b block_entry) option" and a b
  assume "pa = Some a"
  then show "((pprev a, pprev b), pa, pb) \<in> measure (\<lambda>(pa, pb). case pa of None \<Rightarrow> 0 | Some a \<Rightarrow> Suc (size a))"
    using size_pprev [of a] by (auto split: option.split)
qed auto

declare common_walk.simps [simp del]

definition LastCommonAncestor :: "'b block_entry \<Rightarrow> 'b block_entry \<Rightarrow> ('b block_entry) option" where
  "LastCommonAncestor pa pb =
     (if nHeight pa > nHeight pb then common_walk (GetAncestor pa (nHeight pb)) (Some pb)
      else if nHeight pb > nHeight pa then common_walk (Some pa) (GetAncestor pb (nHeight pa))
      else common_walk (Some pa) (Some pb))"

section \<open>The active chain\<close>

type_synonym 'b vChain = "('b block_entry) option list"

definition chain_at :: "'b vChain \<Rightarrow> int \<Rightarrow> ('b block_entry) option" where
  "chain_at c h = (if h < 0 \<or> h \<ge> int (length c) then None else c ! nat h)"

definition Contains :: "'b vChain \<Rightarrow> 'b block_entry \<Rightarrow> bool" where
  "Contains c e = (chain_at c (nHeight e) = Some e)"

definition Next :: "'b vChain \<Rightarrow> 'b block_entry \<Rightarrow> ('b block_entry) option" where
  "Next c e = (if Contains c e then chain_at c (nHeight e + 1) else None)"

definition chain_Height :: "'b vChain \<Rightarrow> int" where
  "chain_Height c = int (length c) - 1"

definition chain_Tip :: "'b vChain \<Rightarrow> ('b block_entry) option" where
  "chain_Tip c = (if length c > 0 then c ! (length c - 1) else None)"

text \<open>\<^verbatim>\<open>vChain.resize(n)\<close> fills new slots with null pointers.\<close>

definition chain_resize :: "nat \<Rightarrow> 'b vChain \<Rightarrow> 'b vChain" where
  "chain_resize n c = take n c @ replicate (n - length c) None"

function settip_walk :: "('b block_entry) option \<Rightarrow> 'b vChain \<Rightarrow> 'b vChain" where
  "settip_walk None c = c"
| "settip_walk (Some e) c =
     (if c ! nat (nHeight e) \<noteq> Some e then settip_walk (pprev e) (c[nat (nHeight e) := Some e]) else c)"
  by pat_completeness auto
termination
proof (relation "measure (\<lambda>(p, c). case p of None \<Rightarrow> 0 | Some a \<Rightarrow> Suc (size a))")
  fix e :: "'b block_entry" and c :: "'b vChain"
  show "((pprev e, c[nat (nHeight e) := Some e]), Some e, c) \<in> measure (\<lambda>(p, c). case p of None \<Rightarrow> 0 | Some a \<Rightarrow> Suc (size a))"
    using size_pprev [of e] by (auto split: option.split)
qed auto

definition SetTip :: "'b block_entry \<Rightarrow> 'b vChain \<Rightarrow> 'b vChain" where
  "SetTip e c = settip_walk (Some e) (chain_resize (nat (nHeight e + 1)) c)"

function fork_walk :: "'b vChain \<Rightarrow> ('b block_entry) option \<Rightarrow> ('b block_entry) option" where
  "fork_walk c None = None"
| "fork_walk c (Some e) = (if Contains c e then Some e else fork_walk c (pprev e))"
  by pat_completeness auto
termination
proof (relation "measure (\<lambda>(c, p). case p of None \<Rightarrow> 0 | Some a \<Rightarrow> Suc (size a))")
  fix e :: "'b block_entry" and c :: "'b vChain"
  show "((c, pprev e), c, Some e) \<in> measure (\<lambda>(c, p). case p of None \<Rightarrow> 0 | Some a \<Rightarrow> Suc (size a))"
    using size_pprev [of e] by (auto split: option.split)
qed auto

definition FindFork :: "'b vChain \<Rightarrow> ('b block_entry) option \<Rightarrow> ('b block_entry) option" where
  "FindFork c p =
     (case p of
        None \<Rightarrow> None
      | Some e \<Rightarrow> fork_walk c (if nHeight e > chain_Height c then GetAncestor e (chain_Height c) else Some e))"

text \<open>
  \<^verbatim>\<open>GetLocator\<close>: the number of hashes collected so far decides when the step doubles.
  The loop may not end on an inconsistent chain; not ending is \<open>None\<close>.
\<close>

partial_function (option) locator_walk ::
  "'b vChain \<Rightarrow> int \<Rightarrow> nat \<Rightarrow> ('b block_entry) option \<Rightarrow> ('b block_entry list) option" where
  "locator_walk c nStep have p =
     (case p of
        None \<Rightarrow> Some []
      | Some e \<Rightarrow>
          if nHeight e = 0 then Some [e]
          else
            let h = max (nHeight e - nStep) 0;
                q = (if Contains c e then chain_at c h else GetAncestor e h);
                nStep' = (if Suc have > 10 then nStep * 2 else nStep)
            in do { rest \<leftarrow> locator_walk c nStep' (Suc have) q; Some (e # rest) })"

definition GetLocator :: "'b vChain \<Rightarrow> ('b block_entry) option \<Rightarrow> ('b block_entry list) option" where
  "GetLocator c p = locator_walk c 1 0 (case p of None \<Rightarrow> chain_Tip c | Some e \<Rightarrow> Some e)"

section \<open>Skipping is walking\<close>

fun walk_back :: "nat \<Rightarrow> 'b block_entry \<Rightarrow> ('b block_entry) option" where
  "walk_back 0 e = Some e"
| "walk_back (Suc n) e = (case pprev e of None \<Rightarrow> None | Some p \<Rightarrow> walk_back n p)"

lemma walk_back_add: "walk_back (m + n) e = (case walk_back m e of None \<Rightarrow> None | Some a \<Rightarrow> walk_back n a)"
  by (induction m arbitrary: e) (auto split: option.split)

lemma InvertLowestOne_range: "0 \<le> n \<Longrightarrow> 0 \<le> InvertLowestOne n \<and> InvertLowestOne n \<le> n"
  and InvertLowestOne_less: "0 < n \<Longrightarrow> InvertLowestOne n < n"
  by (simp_all add: InvertLowestOne_def AND_upper1 le_less_trans [OF AND_upper2])

lemma GetSkipHeight_range: "0 < h \<Longrightarrow> 0 \<le> GetSkipHeight h \<and> GetSkipHeight h < h"
  using InvertLowestOne_range [of "h - 1"] InvertLowestOne_less [of "h - 1"] InvertLowestOne_less [of h]
    InvertLowestOne_range [of h] InvertLowestOne_range [of "InvertLowestOne (h - 1)"]
  by (auto simp: GetSkipHeight_def)

lemma in_tree_height: "in_tree e \<Longrightarrow> 0 \<le> nHeight e"
  by (induction rule: in_tree.induct) (auto simp: genesis_entry_def BuildSkip_def)

lemma in_tree_cases:
  assumes "in_tree e"
  obtains (genesis) "nHeight e = 0" "pprev e = None" "pskip e = None"
  | (child) p where "in_tree p" "nHeight e = nHeight p + 1" "pprev e = Some p"
      "pskip e = GetAncestor p (GetSkipHeight (nHeight e))"
  using assms by cases (auto simp: genesis_entry_def BuildSkip_def)

lemma walk_back_tree:
  "in_tree e \<Longrightarrow> int n \<le> nHeight e \<Longrightarrow> \<exists>a. walk_back n e = Some a \<and> in_tree a \<and> nHeight a = nHeight e - int n"
proof (induction n arbitrary: e)
  case (Suc n)
  from Suc.prems(1) show ?case
  proof (cases rule: in_tree_cases)
    case (child p)
    then show ?thesis using Suc.IH [of p] Suc.prems(2) by simp
  qed (use Suc.prems in simp)
qed simp

lemma ancestor_walk_tree:
  "in_tree e \<Longrightarrow> 0 \<le> h \<Longrightarrow> h \<le> nHeight e \<Longrightarrow>
   ancestor_walk h (nHeight e) e = walk_back (nat (nHeight e - h)) e"
proof (induction "size e" arbitrary: e h rule: less_induct)
  case less
  show ?case
  proof (cases "h < nHeight e")
    case False
    then show ?thesis using less.prems by (simp add: ancestor_walk.simps)
  next
    case True
    with less.prems obtain p where p: "in_tree p" "nHeight e = nHeight p + 1" "pprev e = Some p"
      "pskip e = GetAncestor p (GetSkipHeight (nHeight e))"
      by (auto elim: in_tree_cases)
    define k where "k = GetSkipHeight (nHeight e)"
    have k: "0 \<le> k" "k \<le> nHeight p" using GetSkipHeight_range [of "nHeight e"] True less.prems p(2) by (auto simp: k_def)
    have skip: "pskip e = walk_back (nat (nHeight p - k)) p"
      using less.hyps [OF size_pprev [OF p(3)] p(1) k] k p(4) by (simp add: GetAncestor_def k_def)
    obtain s where s: "pskip e = Some s" "in_tree s" "nHeight s = k"
      using walk_back_tree [OF p(1), of "nat (nHeight p - k)"] k skip by auto
    have "nat (nHeight e - h) = Suc (nat (nHeight p - h))" using p(2) True by simp
    then have b: "walk_back (nat (nHeight e - h)) e = walk_back (nat (nHeight p - h)) p" using p(3) by simp
    show ?thesis
    proof (cases "follow_skip (nHeight e) h")
      case True
      then have hk: "h \<le> k" by (auto simp: follow_skip_def Let_def k_def)
      have "nat (nHeight p - h) = nat (nHeight p - k) + nat (k - h)" using hk k by simp
      then have "walk_back (nat (nHeight p - h)) p = walk_back (nat (k - h)) s"
        using skip [symmetric] s(1) by (simp add: walk_back_add)
      then show ?thesis using True s less.hyps [OF size_pskip [OF s(1)] s(2)] less.prems hk b \<open>h < nHeight e\<close>
        by (subst ancestor_walk.simps) (simp add: k_def)
    next
      case False
      then show ?thesis using b p True less.hyps [OF size_pprev [OF p(3)] p(1)] less.prems
        by (subst ancestor_walk.simps) simp
    qed
  qed
qed

lemma GetAncestor_eq:
  "in_tree e \<Longrightarrow> GetAncestor e h = (if h > nHeight e \<or> h < 0 then None else walk_back (nat (nHeight e - h)) e)"
  by (simp add: GetAncestor_def ancestor_walk_tree)

lemma GetAncestor_tree:
  assumes "in_tree e" "0 \<le> h" "h \<le> nHeight e"
  obtains a where "GetAncestor e h = Some a" "in_tree a" "nHeight a = h"
  using walk_back_tree [OF assms(1), of "nat (nHeight e - h)"] assms by (auto simp: GetAncestor_eq)

section \<open>The chain of a tip\<close>

definition chain_of :: "'b block_entry \<Rightarrow> 'b vChain" where
  "chain_of e = map (\<lambda>i. GetAncestor e (int i)) [0..<nat (nHeight e + 1)]"

lemma GetAncestor_self: "in_tree e \<Longrightarrow> GetAncestor e (nHeight e) = Some e"
  using in_tree_height by (fastforce simp: GetAncestor_eq)

lemma GetAncestor_parent:
  "in_tree e \<Longrightarrow> pprev e = Some p \<Longrightarrow> h < nHeight e \<Longrightarrow> GetAncestor e h = GetAncestor p h"
proof -
  assume e: "in_tree e" and p: "pprev e = Some p" and h: "h < nHeight e"
  from e p have "in_tree p" "nHeight e = nHeight p + 1" by (auto elim: in_tree_cases)
  moreover have "0 \<le> h \<Longrightarrow> nat (nHeight p + 1 - h) = Suc (nat (nHeight p - h))"
    using h \<open>nHeight e = nHeight p + 1\<close> by simp
  ultimately show ?thesis using e p h by (auto simp: GetAncestor_eq)
qed

lemma GetAncestor_trans:
  assumes "in_tree e" "GetAncestor e h = Some a" "k \<le> h"
  shows "GetAncestor a k = GetAncestor e k"
proof (cases "k < 0")
  case False
  have h: "0 \<le> h" "h \<le> nHeight e" using assms(1,2) by (auto simp: GetAncestor_eq split: if_splits)
  then obtain a' where "GetAncestor e h = Some a'" "in_tree a'" "nHeight a' = h"
    using assms(1) by (auto elim: GetAncestor_tree)
  then have a: "in_tree a" "nHeight a = h" using assms(2) by auto
  have "nat (nHeight e - k) = nat (nHeight e - h) + nat (h - k)" using h assms(3) by simp
  then show ?thesis using assms a h False by (simp add: GetAncestor_eq walk_back_add)
qed (use assms in \<open>simp add: GetAncestor_def\<close>)

lemma length_chain_of: "in_tree e \<Longrightarrow> int (length (chain_of e)) = nHeight e + 1"
  using in_tree_height by (fastforce simp: chain_of_def)

lemma chain_of_nth: "i < length (chain_of e) \<Longrightarrow> chain_of e ! i = GetAncestor e (int i)"
  by (simp add: chain_of_def)

text \<open>
  While the walk is at an entry, everything above it is set and everything from it
  down is a prefix of an old chain, or unset.
\<close>

definition old_slots :: "'b vChain \<Rightarrow> nat \<Rightarrow> bool" where
  "old_slots c n = (\<forall>i < n. \<forall>e. c ! i = Some e \<longrightarrow>
     in_tree e \<and> nHeight e = int i \<and> (\<forall>j < i. c ! j = GetAncestor e (int j)))"

lemma old_slots_update:
  assumes "old_slots c n" "k \<le> n" "k \<le> j"
  shows "old_slots (c[j := x]) k"
  unfolding old_slots_def
proof (intro allI impI)
  fix i e assume i: "i < k" "c[j := x] ! i = Some e"
  then have "c ! i = Some e" using assms(3) by simp
  then have "in_tree e \<and> nHeight e = int i \<and> (\<forall>j < i. c ! j = GetAncestor e (int j))"
    using assms(1,2) i(1) unfolding old_slots_def by (meson less_le_trans)
  then show "in_tree e \<and> nHeight e = int i \<and> (\<forall>m < i. c[j := x] ! m = GetAncestor e (int m))"
    using i(1) assms(3) by simp
qed

lemma settip_step:
  assumes "in_tree e" "pprev e = Some p" "length d = length c" "i < length c"
    and "d ! i = (if int i \<le> nHeight p then GetAncestor p (int i) else c[nat (nHeight e) := Some e] ! i)"
  shows "d ! i = (if int i \<le> nHeight e then GetAncestor e (int i) else c ! i)"
proof -
  from assms(1,2) have p: "in_tree p" "nHeight e = nHeight p + 1" by (auto elim: in_tree_cases)
  consider "int i \<le> nHeight p" | "int i = nHeight e" | "int i > nHeight e" using p(2) by linarith
  then show ?thesis
  proof cases
    case 1
    then show ?thesis using assms(5) p(2) GetAncestor_parent [OF assms(1,2), of "int i"] by simp
  next
    case 2
    then have "i = nat (nHeight e)" by simp
    then show ?thesis using assms(4,5) p(2) 2 GetAncestor_self [OF assms(1)] by simp
  next
    case 3
    then have "nat (nHeight e) \<noteq> i" "\<not> int i \<le> nHeight p" using p(2) in_tree_height [OF p(1)] by auto
    then show ?thesis using assms(5) 3 by simp
  qed
qed

lemma settip_walk_correct:
  assumes "in_tree e" "nat (nHeight e) < length c" "old_slots c (nat (nHeight e + 1))"
  shows "length (settip_walk (Some e) c) = length c \<and>
    (\<forall>i < length c. settip_walk (Some e) c ! i = (if int i \<le> nHeight e then GetAncestor e (int i) else c ! i))"
  using assms
proof (induction "Some e" c arbitrary: e rule: settip_walk.induct)
  case (2 e c)
  have h0: "0 \<le> nHeight e" using in_tree_height [OF "2.prems"(1)] .
  show ?case
  proof (cases "c ! nat (nHeight e) = Some e")
    case True
    have "c ! i = GetAncestor e (int i)" if "int i \<le> nHeight e" for i
    proof (cases "int i = nHeight e")
      case True
      then have "i = nat (nHeight e)" by simp
      then show ?thesis using \<open>c ! nat (nHeight e) = Some e\<close> GetAncestor_self [OF "2.prems"(1)] h0 by simp
    next
      case False
      then have "i < nat (nHeight e)" using that by simp
      moreover have "nat (nHeight e) < nat (nHeight e + 1)" using h0 by simp
      ultimately show ?thesis using "2.prems"(3) True unfolding old_slots_def by blast
    qed
    then show ?thesis using True by simp
  next
    case False
    let ?c = "c[nat (nHeight e) := Some e]"
    from "2.prems"(1) show ?thesis
    proof (cases rule: in_tree_cases)
      case genesis
      have "?c ! i = (if int i \<le> nHeight e then GetAncestor e (int i) else c ! i)" for i
        using genesis(1) "2.prems"(2) GetAncestor_self [OF "2.prems"(1)] by (cases i) simp_all
      then show ?thesis using False genesis by simp
    next
      case (child p)
      have o: "old_slots ?c (nat (nHeight p + 1))"
        using "2.prems"(3) child(2) by (intro old_slots_update) auto
      have l: "nat (nHeight p) < length ?c" using "2.prems"(2) child(2) by simp
      note IH = "2.hyps" [OF False child(3) child(1) l o]
      have e: "settip_walk (Some e) c = settip_walk (Some p) ?c" using False child(3) by simp
      have len: "length (settip_walk (Some p) ?c) = length c" using IH by simp
      have "settip_walk (Some p) ?c ! i = (if int i \<le> nHeight e then GetAncestor e (int i) else c ! i)"
        if "i < length c" for i
        by (rule settip_step [OF "2.prems"(1) child(3) len that]) (use IH that in simp)
      then show ?thesis unfolding e using len by blast
    qed
  qed
qed

lemma nth_chain_resize:
  "i < n \<Longrightarrow> chain_resize n c ! i = (if i < length c then c ! i else None)"
  by (simp add: chain_resize_def nth_append)

lemma length_chain_resize [simp]: "length (chain_resize n c) = n"
  by (simp add: chain_resize_def)

lemma chain_of_entry:
  assumes "in_tree t" "i < length (chain_of t)"
  obtains a where "chain_of t ! i = Some a" "in_tree a" "nHeight a = int i" "GetAncestor t (int i) = Some a"
proof -
  have "int i \<le> nHeight t" using assms(2) length_chain_of [OF assms(1)] by linarith
  then obtain a where a: "GetAncestor t (int i) = Some a" "in_tree a" "nHeight a = int i"
    using GetAncestor_tree [OF assms(1), of "int i"] by auto
  then show ?thesis using chain_of_nth [OF assms(2)] that by simp
qed

lemma old_slots_chain_of:
  assumes "in_tree t"
  shows "old_slots (chain_resize n (chain_of t)) n"
  unfolding old_slots_def
proof (intro allI impI)
  fix i e assume i: "i < n" "chain_resize n (chain_of t) ! i = Some e"
  then have l: "i < length (chain_of t)" and e: "chain_of t ! i = Some e"
    by (auto simp: nth_chain_resize split: if_splits)
  obtain a where a: "chain_of t ! i = Some a" "in_tree a" "nHeight a = int i" "GetAncestor t (int i) = Some a"
    using chain_of_entry [OF assms l] .
  have "chain_resize n (chain_of t) ! j = GetAncestor e (int j)" if "j < i" for j
    using that i(1) l a e GetAncestor_trans [OF assms a(4), of "int j"] by (simp add: nth_chain_resize chain_of_nth)
  then show "in_tree e \<and> nHeight e = int i \<and> (\<forall>j < i. chain_resize n (chain_of t) ! j = GetAncestor e (int j))"
    using a e by simp
qed

lemma old_slots_empty: "old_slots (chain_resize n []) n"
  by (simp add: old_slots_def nth_chain_resize)

lemma SetTip_chain_of:
  assumes "in_tree e" "c = [] \<or> (\<exists>t. in_tree t \<and> c = chain_of t)"
  shows "SetTip e c = chain_of e"
proof -
  let ?n = "nat (nHeight e + 1)"
  have o: "old_slots (chain_resize ?n c) ?n"
    using assms(2) old_slots_chain_of old_slots_empty by metis
  have h: "0 \<le> nHeight e" using in_tree_height [OF assms(1)] .
  have "nat (nHeight e) < length (chain_resize ?n c)" using h by simp
  from settip_walk_correct [OF assms(1) this o] show ?thesis
    unfolding SetTip_def by (intro nth_equalityI) (auto simp: chain_of_def)
qed

section \<open>Fork points are the highest common ancestors\<close>

definition is_fork :: "'b block_entry \<Rightarrow> 'b block_entry \<Rightarrow> ('b block_entry) option \<Rightarrow> bool" where
  "is_fork a b r =
     ((\<forall>x. r = Some x \<longrightarrow> GetAncestor a (nHeight x) = Some x \<and> GetAncestor b (nHeight x) = Some x) \<and>
      (\<forall>k y. GetAncestor a k = Some y \<longrightarrow> GetAncestor b k = Some y \<longrightarrow> (\<exists>x. r = Some x \<and> k \<le> nHeight x)))"

lemma GetAncestor_height: "in_tree e \<Longrightarrow> GetAncestor e k = Some y \<Longrightarrow> nHeight y = k \<and> in_tree y \<and> 0 \<le> k \<and> k \<le> nHeight e"
proof -
  assume e: "in_tree e" and y: "GetAncestor e k = Some y"
  from y have "0 \<le> k" "k \<le> nHeight e" by (auto simp: GetAncestor_def split: if_splits)
  with e y show ?thesis by (auto elim: GetAncestor_tree)
qed

lemma is_forkD:
  assumes "is_fork a b r"
  shows "r = Some x \<Longrightarrow> GetAncestor a (nHeight x) = Some x"
    and "r = Some x \<Longrightarrow> GetAncestor b (nHeight x) = Some x"
    and "GetAncestor a k = Some y \<Longrightarrow> GetAncestor b k = Some y \<Longrightarrow> \<exists>x. r = Some x \<and> k \<le> nHeight x"
  using assms unfolding is_fork_def by (simp, simp, meson)

lemma is_fork_sub:
  assumes "is_fork a b r" "is_fork a b r'" "r = Some x"
  shows "r' = Some x"
proof -
  note x = is_forkD(1,2) [OF assms(1,3)]
  obtain z where z: "r' = Some z" "nHeight x \<le> nHeight z" using is_forkD(3) [OF assms(2) x] by auto
  note az = is_forkD(1,2) [OF assms(2) z(1)]
  have "nHeight z \<le> nHeight x" using is_forkD(3) [OF assms(1) az] assms(3) by auto
  then have "nHeight z = nHeight x" using z(2) by simp
  then have "Some z = Some x" using az(1) x(1) by metis
  then show ?thesis using z(1) by simp
qed

lemma is_fork_unique:
  assumes "is_fork a b r" "is_fork a b r'"
  shows "r = r'"
proof (cases r)
  case None
  then show ?thesis using is_fork_sub [OF assms(2,1)] by (cases r') simp_all
next
  case (Some x)
  then show ?thesis using is_fork_sub [OF assms] by simp
qed

lemma is_fork_parents:
  assumes "in_tree a" "in_tree b" "pprev a = Some p" "pprev b = Some q" "nHeight a = nHeight b" "a \<noteq> b"
    and "is_fork p q r"
  shows "is_fork a b r"
proof -
  have p: "in_tree p" "nHeight a = nHeight p + 1" and q: "in_tree q" "nHeight b = nHeight q + 1"
    using assms(1-4) by (auto elim: in_tree_cases)
  have x: "GetAncestor a (nHeight x) = Some x \<and> GetAncestor b (nHeight x) = Some x" if "r = Some x" for x
  proof -
    have g: "GetAncestor p (nHeight x) = Some x" "GetAncestor q (nHeight x) = Some x"
      using assms(7) that unfolding is_fork_def by auto
    then have "nHeight x < nHeight a" using GetAncestor_height [OF p(1) g(1)] p(2) by simp
    then show ?thesis
      using g GetAncestor_parent [OF assms(1,3)] GetAncestor_parent [OF assms(2,4)] assms(5) by simp
  qed
  have "\<exists>x. r = Some x \<and> k \<le> nHeight x" if k: "GetAncestor a k = Some y" "GetAncestor b k = Some y" for k y
  proof -
    have "k \<noteq> nHeight a"
      using k assms(5,6) GetAncestor_self [OF assms(1)] GetAncestor_self [OF assms(2)] by auto
    then have "k < nHeight a" using GetAncestor_height [OF assms(1) k(1)] by simp
    then have "GetAncestor p k = Some y" "GetAncestor q k = Some y"
      using k GetAncestor_parent [OF assms(1,3)] GetAncestor_parent [OF assms(2,4)] assms(5) by simp_all
    then show ?thesis using assms(7) unfolding is_fork_def by blast
  qed
  with x show ?thesis unfolding is_fork_def by blast
qed

lemma is_fork_self:
  assumes "in_tree a"
  shows "is_fork a a (Some a)"
proof -
  have "k \<le> nHeight a" if "GetAncestor a k = Some y" for k y using GetAncestor_height [OF assms that] by simp
  then show ?thesis unfolding is_fork_def using GetAncestor_self [OF assms] by simp
qed

lemma common_walk_fork:
  "in_tree a \<Longrightarrow> in_tree b \<Longrightarrow> nHeight a = nHeight b \<Longrightarrow> is_fork a b (common_walk (Some a) (Some b))"
proof (induction "size a" arbitrary: a b rule: less_induct)
  case less
  show ?case
  proof (cases "a = b")
    case True
    then show ?thesis using is_fork_self [OF less.prems(1)] by (subst common_walk.simps) simp
  next
    case ne: False
    from less.prems(1) show ?thesis
    proof (cases rule: in_tree_cases)
      case (child p)
      with less.prems(2,3) obtain q where q: "in_tree q" "nHeight b = nHeight q + 1" "pprev b = Some q"
        using in_tree_height [OF child(1)] by (auto elim: in_tree_cases [of b])
      have "is_fork p q (common_walk (Some p) (Some q))"
        using less.hyps [OF size_pprev [OF child(3)] child(1) q(1)] less.prems(3) child(2) q(2) by simp
      then show ?thesis
        using is_fork_parents [OF less.prems(1,2) child(3) q(3) less.prems(3) ne] ne child(3) q(3)
        by (subst common_walk.simps) simp
    next
      case genesis
      with less.prems(2,3) have b: "pprev b = None"
        using in_tree_height by (fastforce elim: in_tree_cases [of b])
      have "GetAncestor a k \<noteq> Some y \<or> GetAncestor b k \<noteq> Some y" for k y
      proof (rule ccontr)
        assume "\<not> ?thesis"
        then have y: "GetAncestor a k = Some y" "GetAncestor b k = Some y" by auto
        then have "k = 0" using GetAncestor_height [OF less.prems(1) y(1)] genesis(1) by simp
        then show False
          using y ne genesis(1) less.prems GetAncestor_self [OF less.prems(1)] GetAncestor_self [OF less.prems(2)] by simp
      qed
      then have "is_fork a b None" unfolding is_fork_def by blast
      moreover have "common_walk None None = (None :: ('a block_entry) option)" by (subst common_walk.simps) simp
      ultimately show ?thesis using ne genesis(2) b by (subst common_walk.simps) simp
    qed
  qed
qed

lemma is_fork_lower:
  assumes "in_tree a" "GetAncestor a h = Some a'" "in_tree b" "nHeight b \<le> h" "is_fork a' b r"
  shows "is_fork a b r"
proof -
  have eq: "GetAncestor a' k = GetAncestor a k" if "GetAncestor b k = Some y" for k y
    using GetAncestor_height [OF assms(3) that] GetAncestor_trans [OF assms(1,2)] assms(4) by simp
  show ?thesis using assms(5) eq unfolding is_fork_def by metis
qed

lemma is_fork_sym: "is_fork a b r = is_fork b a r"
  unfolding is_fork_def by blast

lemma LastCommonAncestor_fork:
  assumes "in_tree a" "in_tree b"
  shows "is_fork a b (LastCommonAncestor a b)"
proof -
  have hi: "is_fork a b (common_walk (GetAncestor a (nHeight b)) (Some b))"
    if t: "in_tree a" "in_tree b" and h: "nHeight a > nHeight b" for a b :: "'a block_entry"
  proof -
    obtain a' where a': "GetAncestor a (nHeight b) = Some a'" "in_tree a'" "nHeight a' = nHeight b"
      using GetAncestor_tree [OF t(1) in_tree_height [OF t(2)]] h by auto
    then show ?thesis using is_fork_lower [OF t(1) a'(1) t(2) order_refl common_walk_fork [OF a'(2) t(2) a'(3)]] by simp
  qed
  have lo: "is_fork a b (common_walk (Some a) (GetAncestor b (nHeight a)))" if h: "nHeight b > nHeight a"
  proof -
    obtain b' where b': "GetAncestor b (nHeight a) = Some b'" "in_tree b'" "nHeight b' = nHeight a"
      using GetAncestor_tree [OF assms(2) in_tree_height [OF assms(1)]] h by auto
    then have "is_fork b' a (common_walk (Some a) (Some b'))"
      using common_walk_fork [OF assms(1) b'(2)] is_fork_sym by metis
    then show ?thesis using is_fork_lower [OF assms(2) b'(1) assms(1) order_refl] b'(1) is_fork_sym by metis
  qed
  show ?thesis
    using hi [OF assms] lo common_walk_fork [OF assms] by (simp add: LastCommonAncestor_def)
qed

lemma chain_at_chain_of:
  assumes "in_tree t"
  shows "chain_at (chain_of t) h = GetAncestor t h"
proof (cases "0 \<le> h \<and> h \<le> nHeight t")
  case True
  then have l: "nat h < length (chain_of t)" using length_chain_of [OF assms] by linarith
  show ?thesis using True l chain_of_nth [OF l] by (auto simp: chain_at_def nat_less_iff)
next
  case False
  then show ?thesis using length_chain_of [OF assms] by (auto simp: chain_at_def GetAncestor_def)
qed

lemma Contains_chain_of: "in_tree t \<Longrightarrow> Contains (chain_of t) e = (GetAncestor t (nHeight e) = Some e)"
  by (simp add: Contains_def chain_at_chain_of)

lemma is_fork_parent:
  assumes "in_tree e" "pprev e = Some p" "GetAncestor t (nHeight e) \<noteq> Some e" "is_fork t p r"
  shows "is_fork t e r"
proof -
  have p: "in_tree p" "nHeight e = nHeight p + 1" using assms(1,2) by (auto elim: in_tree_cases)
  have x: "GetAncestor e (nHeight x) = Some x" if r: "r = Some x" for x
    using is_forkD(2) [OF assms(4) r] GetAncestor_height [OF p(1), of "nHeight x" x]
      GetAncestor_parent [OF assms(1,2), of "nHeight x"] p(2) by simp
  have "\<exists>x. r = Some x \<and> k \<le> nHeight x" if k: "GetAncestor t k = Some y" "GetAncestor e k = Some y" for k y
  proof -
    have "k \<noteq> nHeight e" using k assms(3) GetAncestor_self [OF assms(1)] by auto
    then have "k < nHeight e" using GetAncestor_height [OF assms(1) k(2)] by simp
    then have "GetAncestor p k = Some y" using k(2) GetAncestor_parent [OF assms(1,2)] by simp
    then show ?thesis using is_forkD(3) [OF assms(4) k(1)] by simp
  qed
  then show ?thesis unfolding is_fork_def using x is_forkD(1) [OF assms(4)] by simp
qed

lemma fork_walk_fork:
  "in_tree t \<Longrightarrow> in_tree e \<Longrightarrow> is_fork t e (fork_walk (chain_of t) (Some e))"
proof (induction "size e" arbitrary: e rule: less_induct)
  case less
  show ?case
  proof (cases "GetAncestor t (nHeight e) = Some e")
    case True
    have "k \<le> nHeight e" if "GetAncestor e k = Some y" for k y using GetAncestor_height [OF less.prems(2) that] by simp
    then have "is_fork t e (Some e)" unfolding is_fork_def using True GetAncestor_self [OF less.prems(2)] by simp
    then show ?thesis using True less.prems(1) by (simp add: Contains_chain_of)
  next
    case False
    from less.prems(2) show ?thesis
    proof (cases rule: in_tree_cases)
      case (child p)
      show ?thesis using is_fork_parent [OF less.prems(2) child(3) False less.hyps [OF size_pprev [OF child(3)] less.prems(1) child(1)]]
          False child(3) less.prems(1) by (simp add: Contains_chain_of)
    next
      case genesis
      have "GetAncestor t k \<noteq> Some y" if k: "GetAncestor e k = Some y" for k y
      proof -
        have "k = 0" using GetAncestor_height [OF less.prems(2) k] genesis(1) by simp
        then show ?thesis using k False genesis(1) GetAncestor_self [OF less.prems(2)] by simp
      qed
      then have "is_fork t e None" unfolding is_fork_def by auto
      then show ?thesis using False genesis(2) less.prems(1) by (simp add: Contains_chain_of)
    qed
  qed
qed

lemma FindFork_fork:
  assumes "in_tree t" "in_tree e"
  shows "is_fork t e (FindFork (chain_of t) (Some e))"
proof (cases "nHeight e > nHeight t")
  case True
  obtain a where a: "GetAncestor e (nHeight t) = Some a" "in_tree a" "nHeight a = nHeight t"
    using GetAncestor_tree [OF assms(2) in_tree_height [OF assms(1)]] True by auto
  have "is_fork a t (fork_walk (chain_of t) (Some a))" using fork_walk_fork [OF assms(1) a(2)] is_fork_sym by metis
  from is_fork_lower [OF assms(2) a(1) assms(1) order_refl this]
  have "is_fork t e (fork_walk (chain_of t) (Some a))" using is_fork_sym by metis
  then show ?thesis using a True length_chain_of [OF assms(1)] by (simp add: FindFork_def chain_Height_def)
next
  case False
  then show ?thesis using fork_walk_fork [OF assms] length_chain_of [OF assms(1)] by (simp add: FindFork_def chain_Height_def)
qed

section \<open>Locators\<close>

definition locator_ok :: "'b block_entry \<Rightarrow> ('b block_entry list) option \<Rightarrow> bool" where
  "locator_ok e r = (\<exists>l. r = Some l \<and> l \<noteq> [] \<and> hd l = e \<and> nHeight (last l) = 0 \<and>
     sorted_wrt (\<lambda>a b. nHeight b < nHeight a) l \<and> (\<forall>x \<in> set l. GetAncestor e (nHeight x) = Some x))"

lemma locator_ok_step:
  assumes "in_tree e" "GetAncestor e h = Some a" "h < nHeight e" "locator_ok a r"
  shows "locator_ok e (do { rest \<leftarrow> r; Some (e # rest) })"
proof -
  obtain l where l: "r = Some l" "l \<noteq> []" "hd l = a" "nHeight (last l) = 0"
    "sorted_wrt (\<lambda>a b. nHeight b < nHeight a) l" and anc: "\<And>x. x \<in> set l \<Longrightarrow> GetAncestor a (nHeight x) = Some x"
    using assms(4) unfolding locator_ok_def by auto
  have a: "in_tree a" "nHeight a = h" using GetAncestor_height [OF assms(1,2)] by simp_all
  have x: "nHeight x < nHeight e \<and> GetAncestor e (nHeight x) = Some x" if "x \<in> set l" for x
    using GetAncestor_height [OF a(1) anc [OF that]] GetAncestor_trans [OF assms(1,2), of "nHeight x"] anc [OF that] a(2) assms(3)
    by simp
  then show ?thesis using l GetAncestor_self [OF assms(1)] unfolding locator_ok_def by simp
qed

lemma locator_walk_step:
  assumes "in_tree t" "in_tree e" "0 < s" "nHeight e \<noteq> 0"
  obtains a where "GetAncestor e (max (nHeight e - s) 0) = Some a" "in_tree a" "nHeight a = max (nHeight e - s) 0"
    "locator_walk (chain_of t) s n (Some e) =
       do { rest \<leftarrow> locator_walk (chain_of t) (if n \<ge> 10 then s * 2 else s) (Suc n) (Some a); Some (e # rest) }"
proof -
  define h where "h = max (nHeight e - s) 0"
  have h: "0 \<le> h" "h < nHeight e" using assms(3,4) in_tree_height [OF assms(2)] by (auto simp: h_def)
  obtain a where a: "GetAncestor e h = Some a" "in_tree a" "nHeight a = h"
    using GetAncestor_tree [OF assms(2) h(1)] h(2) by auto
  have q: "(if Contains (chain_of t) e then chain_at (chain_of t) h else GetAncestor e h) = Some a"
    using a(1) h GetAncestor_trans [OF assms(1), of "nHeight e" e h] assms(1)
    by (simp add: Contains_chain_of chain_at_chain_of)
  have "locator_walk (chain_of t) s n (Some e) =
      do { rest \<leftarrow> locator_walk (chain_of t) (if Suc n > 10 then s * 2 else s) (Suc n) (Some a); Some (e # rest) }"
    using assms(4) q [unfolded h_def] by (subst locator_walk.simps) (simp only: Let_def option.case if_False)
  then show ?thesis using that a by (simp add: h_def Suc_le_eq)
qed

lemma locator_walk_genesis: "nHeight e = 0 \<Longrightarrow> locator_walk c s n (Some e) = Some [e]"
  by (subst locator_walk.simps) simp

lemma locator_walk_ok:
  "in_tree t \<Longrightarrow> in_tree e \<Longrightarrow> 0 < s \<Longrightarrow> locator_ok e (locator_walk (chain_of t) s n (Some e))"
proof (induction "nat (nHeight e)" arbitrary: e s n rule: less_induct)
  case less
  show ?case
  proof (cases "nHeight e = 0")
    case True
    then show ?thesis using GetAncestor_self [OF less.prems(2)] by (simp add: locator_walk_genesis locator_ok_def)
  next
    case False
    let ?h = "max (nHeight e - s) 0" and ?s = "if n \<ge> 10 then s * 2 else s"
    obtain a where a: "GetAncestor e ?h = Some a" "in_tree a" "nHeight a = ?h"
      and w: "locator_walk (chain_of t) s n (Some e) =
        do { rest \<leftarrow> locator_walk (chain_of t) ?s (Suc n) (Some a); Some (e # rest) }"
      using locator_walk_step [OF less.prems False] .
    have h: "?h < nHeight e" "0 < nHeight e" using False less.prems(3) in_tree_height [OF less.prems(2)] by auto
    have "locator_ok a (locator_walk (chain_of t) ?s (Suc n) (Some a))"
      using less.hyps [OF _ less.prems(1) a(2), of ?s "Suc n"] a(3) h less.prems(3) by simp
    then show ?thesis unfolding w by (rule locator_ok_step [OF less.prems(2) a(1) h(1)])
  qed
qed

text \<open>Once the step doubles, every further hash costs twice as many blocks.\<close>

lemma locator_walk_length:
  "in_tree t \<Longrightarrow> in_tree e \<Longrightarrow> 0 < s \<Longrightarrow> 10 \<le> n \<Longrightarrow> locator_walk (chain_of t) s n (Some e) = Some l \<Longrightarrow>
   length l = k + 2 \<Longrightarrow> s * (2 ^ k - 1) < nHeight e"
proof (induction k arbitrary: e s n l)
  case 0
  then show ?case using in_tree_height [OF "0.prems"(2)] locator_walk_genesis [of e "chain_of t" s n]
    by (cases "nHeight e = 0") auto
next
  case (Suc k)
  then have ne: "nHeight e \<noteq> 0" using locator_walk_genesis [of e "chain_of t" s n] by auto
  obtain a where a: "in_tree a" "nHeight a = max (nHeight e - s) 0"
    and w: "locator_walk (chain_of t) s n (Some e) =
      do { rest \<leftarrow> locator_walk (chain_of t) (if n \<ge> 10 then s * 2 else s) (Suc n) (Some a); Some (e # rest) }"
    using locator_walk_step [OF Suc.prems(1-3) ne] .
  obtain l' where l': "locator_walk (chain_of t) (s * 2) (Suc n) (Some a) = Some l'" "l = e # l'"
    using w Suc.prems(4,5) by (auto split: bind_splits)
  have "s * 2 * (2 ^ k - 1) < nHeight a"
    using Suc.IH [OF Suc.prems(1) a(1) _ _ l'(1)] Suc.prems(3,4,6) l'(2) by simp
  moreover have "0 \<le> s * 2 * (2 ^ k - 1)" using Suc.prems(3) by simp
  ultimately have "s * 2 * (2 ^ k - 1) < nHeight e - s" using a(2) by linarith
  then show ?case by (simp add: algebra_simps)
qed

lemma locator_walk_length_first:
  "in_tree t \<Longrightarrow> in_tree e \<Longrightarrow> locator_walk (chain_of t) 1 n (Some e) = Some l \<Longrightarrow> n \<le> 10 \<Longrightarrow>
   length l + n = k + 12 \<Longrightarrow> 2 ^ k \<le> nHeight e"
proof (induction "10 - n" arbitrary: e n l)
  case 0
  then show ?case using locator_walk_length [OF 0(2,3) _ _ 0(4), of k] by simp
next
  case (Suc m)
  then have ne: "nHeight e \<noteq> 0" using locator_walk_genesis [of e "chain_of t" 1 n] by auto
  obtain a where a: "in_tree a" "nHeight a = max (nHeight e - 1) 0"
    and w: "locator_walk (chain_of t) 1 n (Some e) =
      do { rest \<leftarrow> locator_walk (chain_of t) (if n \<ge> 10 then 1 * 2 else 1) (Suc n) (Some a); Some (e # rest) }"
    using locator_walk_step [OF Suc.prems(1,2) zero_less_one ne] .
  have n: "n < 10" using Suc.hyps(2) by simp
  obtain l' where l': "locator_walk (chain_of t) 1 (Suc n) (Some a) = Some l'" "l = e # l'"
    using w Suc.prems(3) n by (auto split: bind_splits)
  have "2 ^ k \<le> nHeight a"
    using Suc.hyps(1) [OF _ Suc.prems(1) a(1) l'(1)] Suc.hyps(2) Suc.prems(5) n l'(2) by simp
  moreover have "0 < (2::int) ^ k" by simp
  ultimately show ?case using a(2) by linarith
qed

section \<open>Properties\<close>

lemma pprev_GetAncestor:
  assumes "in_tree b" "GetAncestor b (nHeight b - 1) = Some a"
  shows "pprev b = Some a"
proof -
  have a: "0 \<le> nHeight b - 1" using GetAncestor_height [OF assms] by simp
  from assms(1) show ?thesis
  proof (cases rule: in_tree_cases)
    case (child p)
    then show ?thesis using assms(2) GetAncestor_parent [OF assms(1) child(3), of "nHeight p"] GetAncestor_self [OF child(1)] by simp
  qed (use a in simp)
qed

lemma Next_chain_of:
  assumes "in_tree t" "Next (chain_of t) a = Some b"
  shows "pprev b = Some a"
proof -
  have a: "GetAncestor t (nHeight a) = Some a" and b: "GetAncestor t (nHeight a + 1) = Some b"
    using assms by (auto simp: Next_def Contains_chain_of chain_at_chain_of split: if_splits)
  note hb = GetAncestor_height [OF assms(1) b]
  have "GetAncestor b (nHeight a) = Some a" using GetAncestor_trans [OF assms(1) b, of "nHeight a"] a by simp
  then show ?thesis using pprev_GetAncestor [of b a] hb by simp
qed

lemma fold_SetTip:
  "ts \<noteq> [] \<Longrightarrow> \<forall>t \<in> set ts. in_tree t \<Longrightarrow> fold SetTip ts [] = chain_of (last ts)"
proof (induction ts rule: rev_induct)
  case (snoc t ts)
  then show ?case by (cases "ts = []") (auto intro!: SetTip_chain_of)
qed simp

lemma chain_Tip_chain_of: "in_tree t \<Longrightarrow> chain_Tip (chain_of t) = Some t"
proof -
  assume t: "in_tree t"
  then have l: "int (length (chain_of t) - Suc 0) = nHeight t" "length (chain_of t) - Suc 0 < length (chain_of t)"
    using length_chain_of [OF t] in_tree_height [OF t] by linarith+
  then show ?thesis using chain_of_nth [OF l(2)] GetAncestor_self [OF t]
    unfolding chain_Tip_def by (auto simp del: of_nat_diff)
qed

text \<open>
  C26: However the active chain was moved before -- any sequence of calls of \<^verbatim>\<open>SetTip\<close>,
  extensions and reorganisations alike, in which the walk stops at the first slot that is
  already right -- its slots afterwards are exactly the ancestors of the last tip: its
  height is the tip's, looking a height up gives the tip's ancestor there, and the block
  after a contained block is a child of it.
\<close>

theorem active_chain_follows_tip:
  assumes "ts \<noteq> []" "\<forall>t \<in> set ts. in_tree t"
  shows "chain_Tip (fold SetTip ts []) = Some (last ts) \<and>
    chain_Height (fold SetTip ts []) = nHeight (last ts) \<and>
    (\<forall>h. chain_at (fold SetTip ts []) h = GetAncestor (last ts) h) \<and>
    (\<forall>a b. Next (fold SetTip ts []) a = Some b \<longrightarrow> pprev b = Some a)"
proof -
  have t: "in_tree (last ts)" using assms by simp
  show ?thesis unfolding fold_SetTip [OF assms]
    using length_chain_of [OF t] chain_at_chain_of [OF t] chain_Tip_chain_of [OF t] Next_chain_of [OF t]
    by (simp add: chain_Height_def)
qed

theorem active_chain_follows_tip_witness:
  "let g = genesis_entry (0::nat); a = BuildSkip 1 g; b = BuildSkip 2 a; c = BuildSkip 3 a; d = BuildSkip 4 c
   in chain_Tip (fold SetTip [b, d] []) = Some d \<and> chain_Height (fold SetTip [b, d] []) = 3 \<and>
      chain_at (fold SetTip [b, d] []) 2 = Some c"
proof -
  define g where "g = genesis_entry (0::nat)"
  define a where "a = BuildSkip 1 g"
  define b where "b = BuildSkip 2 a"
  define c where "c = BuildSkip 3 a"
  define d where "d = BuildSkip 4 c"
  have t: "\<forall>t \<in> set [b, d]. in_tree t"
    unfolding a_def b_def c_def d_def g_def by (auto intro: in_tree.intros)
  have "nHeight d = 3" "GetAncestor d 2 = Some c" unfolding a_def b_def c_def d_def g_def by code_simp+
  then show ?thesis
    using active_chain_follows_tip [OF _ t]
    unfolding Let_def a_def b_def c_def d_def g_def by simp
qed

text \<open>
  The ancestor of an entry at a height, found over the skip pointers, is the entry the
  parent pointers lead to after as many steps as the heights are apart, and it is there
  for every height from genesis to the entry; for all other heights there is none.
\<close>

theorem ancestor_lookup_exact:
  assumes "in_tree e"
  shows "GetAncestor e h = (if 0 \<le> h \<and> h \<le> nHeight e then walk_back (nat (nHeight e - h)) e else None) \<and>
    (GetAncestor e h \<noteq> None) = (0 \<le> h \<and> h \<le> nHeight e)"
proof (cases "0 \<le> h \<and> h \<le> nHeight e")
  case True
  then obtain a where "GetAncestor e h = Some a" using GetAncestor_tree [OF assms, of h] by auto
  with True show ?thesis by (simp add: GetAncestor_eq [OF assms] del: not_None_eq)
qed (auto simp: GetAncestor_def)

theorem ancestor_lookup_exact_witness:
  "let g = genesis_entry (0::nat); e = BuildSkip 4 (BuildSkip 3 (BuildSkip 2 (BuildSkip 1 g)))
   in GetAncestor e 1 = walk_back 3 e \<and> GetAncestor e 1 = Some (BuildSkip 1 g) \<and> GetAncestor e 5 = None"
proof -
  define e where "e = BuildSkip 4 (BuildSkip 3 (BuildSkip 2 (BuildSkip 1 (genesis_entry (0::nat)))))"
  have t: "in_tree e" unfolding e_def by (intro in_tree.intros)
  have h: "nHeight e = 4" "walk_back 3 e = Some (BuildSkip 1 (genesis_entry 0))" unfolding e_def by code_simp+
  show ?thesis using ancestor_lookup_exact [OF t, of 1] ancestor_lookup_exact [OF t, of 5] h
    unfolding Let_def e_def by simp
qed

text \<open>
  C40: The two routines that look for a fork agree: \<^verbatim>\<open>FindFork\<close>, which walks parent
  pointers against the active chain's slots, and \<^verbatim>\<open>LastCommonAncestor\<close>, which levels two
  entries and walks both.  Both give the highest common ancestor: an ancestor of both
  blocks, and no common ancestor is higher; if the blocks have none, both give null.
\<close>

theorem fork_point_exact:
  assumes "in_tree t" "in_tree e"
  shows "FindFork (chain_of t) (Some e) = LastCommonAncestor t e \<and>
    (\<forall>x. LastCommonAncestor t e = Some x \<longrightarrow>
       GetAncestor t (nHeight x) = Some x \<and> GetAncestor e (nHeight x) = Some x) \<and>
    (\<forall>k y. GetAncestor t k = Some y \<longrightarrow> GetAncestor e k = Some y \<longrightarrow>
       (\<exists>x. LastCommonAncestor t e = Some x \<and> k \<le> nHeight x))"
  using is_fork_unique [OF FindFork_fork [OF assms] LastCommonAncestor_fork [OF assms]]
    is_forkD [OF LastCommonAncestor_fork [OF assms]] by simp

theorem fork_point_exact_witness:
  "let g = genesis_entry (0::nat); a = BuildSkip 1 g; t = BuildSkip 2 a; e = BuildSkip 4 (BuildSkip 3 a)
   in FindFork (chain_of t) (Some e) = Some a \<and> GetAncestor t 1 = Some a \<and> GetAncestor e 1 = Some a"
proof -
  define a where "a = BuildSkip 1 (genesis_entry (0::nat))"
  define t where "t = BuildSkip 2 a"
  define e where "e = BuildSkip 4 (BuildSkip 3 a)"
  have t: "in_tree t" "in_tree e" unfolding a_def t_def e_def by (intro in_tree.intros)+
  have h: "nHeight a = 1" "LastCommonAncestor t e = Some a" unfolding a_def t_def e_def by code_simp+
  show ?thesis using fork_point_exact [OF t] h
    unfolding Let_def a_def t_def e_def by simp
qed

text \<open>
  Building a block locator ends, for every block of the tree and every active chain,
  whether or not the block is on it.  The locator starts at the block, goes down to genesis
  with strictly decreasing heights through ancestors of the block only, and is short: with
  \<open>k + 12\<close> hashes the block is at height at least \<open>2 ^ k\<close>.
\<close>

theorem locator_terminates:
  assumes "in_tree t" "in_tree e"
  shows "\<exists>l. GetLocator (chain_of t) (Some e) = Some l \<and> l \<noteq> [] \<and> hd l = e \<and> nHeight (last l) = 0 \<and>
      sorted_wrt (\<lambda>a b. nHeight b < nHeight a) l \<and> (\<forall>x \<in> set l. GetAncestor e (nHeight x) = Some x) \<and>
      (\<forall>k. length l = k + 12 \<longrightarrow> 2 ^ k \<le> nHeight e)"
proof -
  obtain l where l: "GetLocator (chain_of t) (Some e) = Some l" "l \<noteq> []" "hd l = e" "nHeight (last l) = 0"
      "sorted_wrt (\<lambda>a b. nHeight b < nHeight a) l" "\<forall>x \<in> set l. GetAncestor e (nHeight x) = Some x"
    using locator_walk_ok [OF assms zero_less_one, of 0] unfolding locator_ok_def GetLocator_def by auto
  moreover have "2 ^ k \<le> nHeight e" if "length l = k + 12" for k
    using locator_walk_length_first [OF assms, of 0 l k] l(1) that by (simp add: GetLocator_def)
  ultimately show ?thesis by blast
qed

theorem locator_terminates_witness:
  "\<exists>l. GetLocator (chain_of (BuildSkip 2 (genesis_entry (0::nat)))) (Some (BuildSkip 3 (BuildSkip 1 (genesis_entry 0)))) = Some l \<and>
     hd l = BuildSkip 3 (BuildSkip 1 (genesis_entry 0)) \<and> nHeight (last l) = 0"
  using locator_terminates [of "BuildSkip 2 (genesis_entry (0::nat))" "BuildSkip 3 (BuildSkip 1 (genesis_entry 0))"]
  by (auto intro: in_tree.intros)

end
