(* ===== verification/Hmp_Connect.thy ===== *)
theory Hmp_Connect
  imports Pow_Target Coinbase_Tx Block_Index
begin

text \<open>
  The Hivemind part of \<^verbatim>\<open>validation.cpp\<close>: stages, filtering of seal signers, the HMP section of
  \<^verbatim>\<open>CChainState::ConnectBlock\<close> with its deferred mutations, \<^verbatim>\<open>DisconnectTip\<close>,
  \<^verbatim>\<open>RebuildHMPState\<close>, and the seal-weighted chain work of \<^verbatim>\<open>node/blockstorage.cpp\<close>.  The
  global trackers are the fields of one state record; a null \<^verbatim>\<open>unique_ptr\<close> is \<open>None\<close>.
  The checks of \<^verbatim>\<open>ConnectBlock\<close> between the HMP section and the deferred mutations (scripts,
  payments, locks) are a parameter.
\<close>

section \<open>Blocks and index entries\<close>

record index_data =
  ix_hash :: uint256
  ix_nVersion :: "32 word"
  ix_nBits :: "32 word"

type_synonym entry = "index_data block_entry"

definition entry_hash :: "entry \<Rightarrow> uint256" where
  "entry_hash e = ix_hash (bdata e)"

definition entry_algo :: "entry \<Rightarrow> int" where
  "entry_algo e = GetAlgo (ix_nVersion (bdata e))"

text \<open>The fields of an index entry that validation writes.\<close>

record 'k index_fields =
  nSealWeight :: nat
  nChainSealWork :: limbs
  hmpMinerPubKey :: "'k CBLSPublicKey"

definition TRANSACTION_COINBASE :: nat where
  "TRANSACTION_COINBASE = 5"

text \<open>
  What the HMP code reads of a transaction: \<open>tx_payload\<close> is the result of
  \<^verbatim>\<open>GetTxPayload<CCbTx>\<close>, \<open>tx_scripts\<close> the scripts of its outputs.
\<close>

record ('k, 's) hmp_tx =
  tx_nVersion :: int
  tx_nType :: nat
  tx_payload :: "(('k, 's) CCbTx) option"
  tx_scripts :: "script list"

record ('k, 's) hmp_block =
  bl_hashPrevBlock :: uint256
  bl_vtx :: "(('k, 's) hmp_tx) list"

definition is_cbtx :: "('k, 's) hmp_tx \<Rightarrow> bool" where
  "is_cbtx tx = (tx_nVersion tx = 3 \<and> tx_nType tx = TRANSACTION_COINBASE)"

section \<open>State\<close>

record ('k, 's) hmp_node =
  g_hmp_commitments :: "('k CHMPCommitmentRegistry) option"
  g_hmp_commit_pool :: "(('k, 's) CHMPCommitPool) option"
  g_hmp_privilege :: "('k CHMPPrivilegeTracker) option"
  g_seal_manager :: "(('k, 's) CSealManager) option"
  m_hmp_state_anchor :: uint256
  m_index :: "uint256 \<Rightarrow> 'k index_fields"
  setBlockIndexCandidates :: "uint256 set"

text \<open>
  The surroundings of a call: the BLS, proof and wire parameters, the consensus parameters,
  the masternode lookup, the daemon's identity, the block files, the clock, and whether
  signing is enabled (\<^verbatim>\<open>SPORK_25_HMP_ENABLED\<close> active and no quarantine).  The last two
  fields say whether the coin, special-transaction and Sapling parts of \<^verbatim>\<open>DisconnectBlock\<close> and
  \<^verbatim>\<open>RollforwardBlock\<close> succeed for a block.
\<close>

record ('sk, 'k, 's) hmp_env =
  c_ops :: "('sk, 'k, 's) bls_ops"
  c_zk :: zk_ops
  c_wire :: "('k, 's) wire_ops"
  c_params :: Params
  c_mnLookup :: "('k CBLSPublicKey \<Rightarrow> entry option \<Rightarrow> bool) option"
  c_identity :: "(('sk, 'k) CHMPIdentity) option"
  ReadBlockFromDisk :: "entry \<Rightarrow> (('k, 's) hmp_block) option"
  c_now :: int
  c_signing :: bool
  DisconnectBlock_ok :: "entry \<Rightarrow> bool"
  RollforwardBlock_ok :: "entry \<Rightarrow> bool"

datatype verdict = Connected | Invalid string | AbortNode string

definition GetHMPStage :: "int \<Rightarrow> Params \<Rightarrow> nat" where
  "GetHMPStage height p =
     (if height < nHMPStage2Height p then 1
      else if height < nHMPStage3Height p then 2
      else if height < nHMPStage4Height p then 3
      else 4)"

section \<open>Filtering seal signers\<close>

text \<open>The entries of an index-parallel vector at the kept positions, as far as the vector goes.\<close>

definition keep_at :: "nat list \<Rightarrow> 'a list \<Rightarrow> 'a list" where
  "keep_at is xs = map ((!) xs) (filter (\<lambda>i. i < length xs) is)"

definition filter_committed ::
  "('k CHMPCommitmentRegistry) option \<Rightarrow> int \<Rightarrow> 'k CBLSPublicKey list \<Rightarrow> 8 word list \<Rightarrow> ('s CBLSSignature list) option \<Rightarrow>
   'k CBLSPublicKey list \<times> 8 word list \<times> ('s CBLSSignature list) option" where
  "filter_committed registry sealedHeight signers algos vrfProofs =
     (case registry of
        None \<Rightarrow> (signers, algos, vrfProofs)
      | Some r \<Rightarrow>
          if IsEnabled r \<and> signers \<noteq> [] then
            let sealedHeight = (if sealedHeight < 0 then 0 else sealedHeight);
                is = filter (\<lambda>i. IsCommitted r (signers ! i) sealedHeight) [0..<length signers]
            in (keep_at is signers, keep_at is algos, map_option (keep_at is) vrfProofs)
          else (signers, algos, vrfProofs))"

definition privileged_at ::
  "('sk, 'k::linorder, 's) bls_ops \<Rightarrow> ('k CBLSPublicKey \<Rightarrow> entry option \<Rightarrow> bool) option \<Rightarrow> 'k CHMPPrivilegeTracker \<Rightarrow>
   Params \<Rightarrow> int \<Rightarrow> entry \<Rightarrow> 'k CBLSPublicKey list \<Rightarrow> 8 word list \<Rightarrow> ('s CBLSSignature list) option \<Rightarrow> nat \<Rightarrow> bool" where
  "privileged_at ops mnLookup t p height pindex signers algos vrfProofs i =
     (let tier = GetTier mnLookup t (signers ! i) (uint (algos ! i)) (Some pindex)
      in tier \<noteq> UNKNOWN \<and>
         (case vrfProofs of
            Some proofs \<Rightarrow> IsHMPRearmActive p height \<longrightarrow>
              i < length proofs \<and>
              IsVRFSelected (VRFOutputHash (hash256 ops) (ser_sig ops) (proofs ! i)) (GetVRFTierMultiplier tier) HMP_VRF_BASE_THRESHOLD
          | None \<Rightarrow> True))"

definition filter_privileged ::
  "('sk, 'k::linorder, 's) bls_ops \<Rightarrow> ('k CBLSPublicKey \<Rightarrow> entry option \<Rightarrow> bool) option \<Rightarrow> ('k CHMPPrivilegeTracker) option \<Rightarrow>
   Params \<Rightarrow> int \<Rightarrow> entry \<Rightarrow> 'k CBLSPublicKey list \<Rightarrow> 8 word list \<Rightarrow> ('s CBLSSignature list) option \<Rightarrow>
   'k CBLSPublicKey list \<times> 8 word list \<times> ('s CBLSSignature list) option" where
  "filter_privileged ops mnLookup privilege p height pindex signers algos vrfProofs =
     (case privilege of
        None \<Rightarrow> (signers, algos, vrfProofs)
      | Some t \<Rightarrow>
          if signers \<noteq> [] then
            let is = filter (privileged_at ops mnLookup t p height pindex signers algos vrfProofs)
                       [0..<min (length signers) (length algos)]
            in (keep_at is signers, keep_at is algos, map_option (keep_at is) vrfProofs)
          else (signers, algos, vrfProofs))"

definition FilterSealSigners ::
  "('sk, 'k::linorder, 's) bls_ops \<Rightarrow> ('k CBLSPublicKey \<Rightarrow> entry option \<Rightarrow> bool) option \<Rightarrow> ('k CHMPCommitmentRegistry) option \<Rightarrow>
   ('k CHMPPrivilegeTracker) option \<Rightarrow> Params \<Rightarrow> int \<Rightarrow> int \<Rightarrow> entry \<Rightarrow> 'k CBLSPublicKey list \<Rightarrow> 8 word list \<Rightarrow>
   ('s CBLSSignature list) option \<Rightarrow> 'k CBLSPublicKey list \<times> 8 word list \<times> ('s CBLSSignature list) option" where
  "FilterSealSigners ops mnLookup registry privilege p height seal_depth pindex signers algos vrfProofs =
     (let (signers, algos, vrfProofs) = filter_committed registry (height - seal_depth) signers algos vrfProofs
      in filter_privileged ops mnLookup privilege p height pindex signers algos vrfProofs)"

definition SealedAlgoOf :: "entry \<Rightarrow> ('k, 's) CCbTx \<Rightarrow> Params \<Rightarrow> int" where
  "SealedAlgoOf pindex cbTx p =
     (if \<not> IsValid (cb_sealForAncestor cbTx) \<or> IsNull (cb_sealBlockHash cbTx) \<or> cb_vSealSigners cbTx = [] then - 1
      else case GetAncestor pindex (nHeight pindex - nHMPSealTrailingDepth p) of
             None \<Rightarrow> - 1
           | Some pSealed \<Rightarrow> if entry_hash pSealed \<noteq> cb_sealBlockHash cbTx then - 1 else entry_algo pSealed)"

section \<open>Weights and chain work\<close>

definition clamped_weight :: "nat \<Rightarrow> nat" where
  "clamped_weight w = min w 20000"

definition parent_work :: "('k, 's) hmp_node \<Rightarrow> entry \<Rightarrow> limbs" where
  "parent_work s pindex =
     (case pprev pindex of Some q \<Rightarrow> nChainSealWork (m_index s (entry_hash q)) | None \<Rightarrow> of_uint64 0)"

text \<open>\<^verbatim>\<open>parent->nChainSealWork + blockProof * clampedWeight / 10000\<close>; a division by zero is \<open>None\<close>.\<close>

definition weighted_work :: "limbs \<Rightarrow> 32 word \<Rightarrow> nat \<Rightarrow> limbs option" where
  "weighted_work parent nBits weight =
     do {
       blockProof \<leftarrow> GetBlockProof nBits;
       weightedProof \<leftarrow> uint_div (uint_mul blockProof (of_uint64 (of_nat (clamped_weight weight)))) (of_uint64 10000);
       Some (uint_add parent weightedProof)
     }"

definition plain_work :: "limbs \<Rightarrow> 32 word \<Rightarrow> limbs option" where
  "plain_work parent nBits = do { blockProof \<leftarrow> GetBlockProof nBits; Some (uint_add parent blockProof) }"

definition sealed_algo :: "Params \<Rightarrow> entry \<Rightarrow> int" where
  "sealed_algo p pindex =
     (if nHMPSealAlgoFixHeight p > 0 \<and> nHeight pindex \<ge> nHMPSealAlgoFixHeight p
      then (case GetAncestor pindex (nHeight pindex - nHMPSealTrailingDepth p) of
              Some a \<Rightarrow> entry_algo a
            | None \<Rightarrow> entry_algo pindex)
      else entry_algo pindex)"

definition rearm_weight ::
  "('k::linorder CBLSPublicKey \<Rightarrow> entry option \<Rightarrow> bool) option \<Rightarrow> ('k CHMPPrivilegeTracker) option \<Rightarrow> int \<Rightarrow> entry \<Rightarrow>
   'k CBLSPublicKey list \<Rightarrow> 8 word list \<Rightarrow> 'k CBLSPublicKey list \<Rightarrow> nat" where
  "rearm_weight mnLookup privilege nSealedAlgo pindex signers algos rawSigners =
     (let fArmed = (case privilege of Some t \<Rightarrow> IsPenaltyArmed t nSealedAlgo | None \<Rightarrow> False)
      in if signers = [] then (if fArmed then 6667 else 10000)
         else if length signers < 2 then 10000
         else
           let base = min (ComputeSealMultiplier mnLookup signers algos nSealedAlgo privilege (Some pindex))
                        (if fArmed then 15000 else 12000);
               mq = EvaluateMannequinPenalty rawSigners privilege
           in if mq < 10000 then base * mq div 10000 else base)"

definition legacy_weight ::
  "('k::linorder CBLSPublicKey \<Rightarrow> entry option \<Rightarrow> bool) option \<Rightarrow> ('k CHMPPrivilegeTracker) option \<Rightarrow> nat \<Rightarrow> int \<Rightarrow> entry \<Rightarrow>
   'k CBLSPublicKey list \<Rightarrow> 8 word list \<Rightarrow> nat" where
  "legacy_weight mnLookup privilege nHMPStage nSealedAlgo pindex signers algos =
     (let w = (if signers \<noteq> [] \<and> length signers < 2 then 10000
               else ComputeSealMultiplier mnLookup signers algos nSealedAlgo privilege (Some pindex))
      in if nHMPStage \<ge> 4 then
           let penalty = min (EvaluateNegativeProof signers algos nSealedAlgo privilege) 20000
           in min w 20000 * penalty div 10000
         else w)"

definition seal_weight ::
  "('sk, 'k::linorder, 's) hmp_env \<Rightarrow> ('k, 's) hmp_node \<Rightarrow> nat \<Rightarrow> entry \<Rightarrow> ('k, 's) CCbTx \<Rightarrow>
   'k CBLSPublicKey list \<Rightarrow> 8 word list \<Rightarrow> nat" where
  "seal_weight env s nHMPStage pindex cbTx signers algos =
     (let p = c_params env; a = sealed_algo p pindex
      in if IsHMPRearmActive p (nHeight pindex)
         then rearm_weight (c_mnLookup env) (g_hmp_privilege s) a pindex signers algos (cb_vSealSigners cbTx)
         else legacy_weight (c_mnLookup env) (g_hmp_privilege s) nHMPStage a pindex signers algos)"

section \<open>Deferred mutations\<close>

record 'k DeferredHMPMutation =
  fDoCommitmentRegistry :: bool
  nCommitHeight :: int
  commitMinerIdentity :: "'k CBLSPublicKey"
  commitExplicit :: "'k CBLSPublicKey list"
  fDoCommitPoolCleanup :: bool
  poolCleanupMinerIdentity :: "'k CBLSPublicKey"
  poolCleanupKeys :: "'k CBLSPublicKey list"
  fDoPrivilege :: bool
  nPrivHeight :: int
  nPrivAlgo :: int
  nPrivSealedAlgo :: int
  privMinerIdentity :: "'k CBLSPublicKey"
  privSigners :: "'k CBLSPublicKey list"
  privSignerAlgos :: "8 word list"

definition no_mutation :: "('sk, 'k, 's) bls_ops \<Rightarrow> 'k DeferredHMPMutation" where
  "no_mutation ops =
     \<lparr>fDoCommitmentRegistry = False, nCommitHeight = 0, commitMinerIdentity = empty_pk ops, commitExplicit = [],
      fDoCommitPoolCleanup = False, poolCleanupMinerIdentity = empty_pk ops, poolCleanupKeys = [],
      fDoPrivilege = False, nPrivHeight = 0, nPrivAlgo = 0, nPrivSealedAlgo = - 1, privMinerIdentity = empty_pk ops,
      privSigners = [], privSignerAlgos = []\<rparr>"

definition apply_deferred ::
  "bool \<Rightarrow> entry \<Rightarrow> 'k::linorder DeferredHMPMutation \<Rightarrow> ('k, 's) hmp_node \<Rightarrow> ('k, 's) hmp_node" where
  "apply_deferred fVerifyOnly pindex d s =
     (let s = (if fDoCommitmentRegistry d
               then s\<lparr>g_hmp_commitments :=
                 map_option (registry_BlockConnected (nCommitHeight d) (commitMinerIdentity d) (commitExplicit d)) (g_hmp_commitments s)\<rparr>
               else s);
          s = (if fDoCommitPoolCleanup d
               then s\<lparr>g_hmp_commit_pool :=
                 map_option (\<lambda>pool. fold pool_Remove (poolCleanupKeys d)
                     (if IsValid (poolCleanupMinerIdentity d) then pool_Remove (poolCleanupMinerIdentity d) pool else pool))
                   (g_hmp_commit_pool s)\<rparr>
               else s);
          s = (if fDoPrivilege d
               then s\<lparr>g_hmp_privilege :=
                 map_option (BlockConnected (nPrivHeight d) (nPrivAlgo d) (privMinerIdentity d) (privSigners d)
                     (privSignerAlgos d) (nPrivSealedAlgo d)) (g_hmp_privilege s)\<rparr>
               else s)
      in if \<not> fVerifyOnly then s\<lparr>m_hmp_state_anchor := entry_hash pindex\<rparr> else s)"

section \<open>Rebuilding the trackers\<close>

definition max_lookback :: "Params \<Rightarrow> int" where
  "max_lookback p =
     max (max (nHMPDominanceCatchMaxLookback p + nHMPPrivilegeWindow p) (nHMPPrivilegeWindow p + nHMPWarmupBlocks p))
       (max SEAL_LONG_WINDOW (nHMPCommitmentOffset p * 2))"

definition rebuild_start :: "Params \<Rightarrow> entry \<Rightarrow> int" where
  "rebuild_start p tgt = max (max 0 (nHeight tgt - max_lookback p)) (HMPHeight p)"

text \<open>
  What one block with an HMP payload contributes to the trackers when it is read back from
  disk, by \<^verbatim>\<open>RebuildHMPState\<close> and by \<^verbatim>\<open>RollforwardBlock\<close>.
\<close>

definition refold_registry ::
  "Params \<Rightarrow> entry \<Rightarrow> ('k::linorder, 's) CCbTx \<Rightarrow> ('k, 's) hmp_node \<Rightarrow> ('k, 's) hmp_node" where
  "refold_registry p pindex cbTx s =
     (if GetHMPStage (nHeight pindex) p \<ge> 2
      then s\<lparr>g_hmp_commitments :=
        map_option (registry_BlockConnected (nHeight pindex) (cb_minerIdentity cbTx) (cb_vCommitments cbTx)) (g_hmp_commitments s)\<rparr>
      else s)"

definition refold_signers ::
  "('sk, 'k::linorder, 's) hmp_env \<Rightarrow> entry \<Rightarrow> ('k, 's) CCbTx \<Rightarrow> ('k, 's) hmp_node \<Rightarrow> 'k CBLSPublicKey list \<Rightarrow> 8 word list \<Rightarrow>
   'k CBLSPublicKey list \<times> 8 word list" where
  "refold_signers env pindex cbTx s signers algos =
     (let p = c_params env;
          (signers, algos, _) = FilterSealSigners (c_ops env) (c_mnLookup env) (g_hmp_commitments s) (g_hmp_privilege s) p
             (nHeight pindex) (nHMPSealTrailingDepth p) pindex signers algos
             (if cb_nVersion cbTx \<ge> HMP_REARM then Some (cb_vSealSignerVRFProofs cbTx) else None)
      in (signers, algos))"

definition refold_privilege ::
  "Params \<Rightarrow> entry \<Rightarrow> ('k::linorder, 's) CCbTx \<Rightarrow> 'k CBLSPublicKey list \<Rightarrow> 8 word list \<Rightarrow> ('k, 's) hmp_node \<Rightarrow> ('k, 's) hmp_node" where
  "refold_privilege p pindex cbTx filteredSigners filteredAlgos s =
     (let height = nHeight pindex;
          connected =
            (if GetHMPStage height p < 3 then BlockConnected height (entry_algo pindex) (cb_minerIdentity cbTx) [] [] (- 1)
             else if IsDeterministicSealActive p height
             then BlockConnected height (entry_algo pindex) (cb_minerIdentity cbTx) (cb_vSealSigners cbTx) (cb_vSealSignerAlgos cbTx)
                    (SealedAlgoOf pindex cbTx p)
             else BlockConnected height (entry_algo pindex) (cb_minerIdentity cbTx) filteredSigners filteredAlgos
                    (SealedAlgoOf pindex cbTx p))
      in s\<lparr>g_hmp_privilege := map_option connected (g_hmp_privilege s)\<rparr>)"

definition refold_session ::
  "('sk, 'k::linorder, 's) hmp_env \<Rightarrow> entry \<Rightarrow> ('k, 's) hmp_node \<Rightarrow> ('k, 's) hmp_node" where
  "refold_session env pindex s =
     (if GetHMPStage (nHeight pindex) (c_params env) \<ge> 3
      then s\<lparr>g_seal_manager :=
          map_option (OnNewBlock (c_now env) (entry_hash pindex) (nHeight pindex)
            (case pprev pindex of Some q \<Rightarrow> entry_hash q | None \<Rightarrow> null_hash)) (g_seal_manager s)\<rparr>
      else s)"

definition non_hmp_block ::
  "('sk, 'k::linorder, 's) hmp_env \<Rightarrow> entry \<Rightarrow> ('k, 's) hmp_node \<Rightarrow> ('k, 's) hmp_node" where
  "non_hmp_block env pindex s =
     s\<lparr>g_hmp_privilege := map_option (BlockConnected (nHeight pindex) (entry_algo pindex) (empty_pk (c_ops env)) [] [] (- 1))
         (g_hmp_privilege s)\<rparr>"

definition rebuild_hmp_block ::
  "('sk, 'k::linorder, 's) hmp_env \<Rightarrow> entry \<Rightarrow> ('k, 's) CCbTx \<Rightarrow> ('k, 's) hmp_node \<Rightarrow> ('k, 's) hmp_node" where
  "rebuild_hmp_block env pindex cbTx s =
     (let p = c_params env;
          s = refold_registry p pindex cbTx s;
          (filteredSigners, filteredAlgos) =
            (if IsValid (cb_sealForAncestor cbTx) \<and> \<not> IsNull (cb_sealBlockHash cbTx)
             then refold_signers env pindex cbTx s (cb_vSealSigners cbTx) (cb_vSealSignerAlgos cbTx)
             else ([], []))
      in refold_session env pindex (refold_privilege p pindex cbTx filteredSigners filteredAlgos s))"

definition rebuild_block ::
  "('sk, 'k::linorder, 's) hmp_env \<Rightarrow> entry \<Rightarrow> ('k, 's) hmp_block \<Rightarrow> ('k, 's) hmp_node \<Rightarrow> ('k, 's) hmp_node" where
  "rebuild_block env pindex block s =
     (case find is_cbtx (bl_vtx block) of
        Some tx \<Rightarrow>
          (case tx_payload tx of
             Some cbTx \<Rightarrow> if cb_nVersion cbTx \<ge> HMP_SEAL then rebuild_hmp_block env pindex cbTx s else s
           | None \<Rightarrow> s)
      | None \<Rightarrow> non_hmp_block env pindex s)"

fun rebuild_loop ::
  "('sk, 'k::linorder, 's) hmp_env \<Rightarrow> bool \<Rightarrow> entry \<Rightarrow> int list \<Rightarrow> ('k, 's) hmp_node \<Rightarrow> bool \<times> ('k, 's) hmp_node" where
  "rebuild_loop env fStrict tgt [] s = (True, s)"
| "rebuild_loop env fStrict tgt (height # hs) s =
     (case GetAncestor tgt height of
        None \<Rightarrow> rebuild_loop env fStrict tgt hs s
      | Some pindex \<Rightarrow>
          if GetHMPStage height (c_params env) = 1 then rebuild_loop env fStrict tgt hs s
          else (case ReadBlockFromDisk env pindex of
                  None \<Rightarrow> if fStrict then (False, s) else rebuild_loop env fStrict tgt hs s
                | Some block \<Rightarrow> rebuild_loop env fStrict tgt hs (rebuild_block env pindex block s)))"

definition RebuildHMPState ::
  "('sk, 'k::linorder, 's) hmp_env \<Rightarrow> entry \<Rightarrow> ('k, 's) hmp_node \<Rightarrow> bool \<times> ('k, 's) hmp_node" where
  "RebuildHMPState env tgt s =
     (let p = c_params env; fStrict = IsDeterministicSealActive p (nHeight tgt + 1)
      in if \<not> DeploymentActiveAt (nHeight tgt) (HMPHeight p) then (True, s)
         else
           let s = s\<lparr>g_hmp_privilege := map_option ClearTracker (g_hmp_privilege s)\<rparr>;
               (ok, s) = rebuild_loop env fStrict tgt [rebuild_start p tgt..nHeight tgt] s
           in if ok then (True, s\<lparr>m_hmp_state_anchor := entry_hash tgt\<rparr>) else (False, s))"

section \<open>Connecting a block\<close>

text \<open>The identity rules of stages 3 and later and of version 6; \<open>None\<close> is acceptance.\<close>

definition identity_checks ::
  "('sk, 'k, 's) hmp_env \<Rightarrow> nat \<Rightarrow> entry \<Rightarrow> ('k, 's) hmp_block \<Rightarrow> ('k, 's) hmp_tx \<Rightarrow> ('k, 's) CCbTx \<Rightarrow> string option" where
  "identity_checks env nHMPStage pindex block tx cbTx =
     (if nHMPStage \<ge> 3 \<and> \<not> IsValid (cb_minerIdentity cbTx) then Some ''bad-cbtx-no-miner-identity''
      else if IsHMPRearmActive (c_params env) (nHeight pindex) \<and> cb_nVersion cbTx \<ge> HMP_REARM \<and>
        (tx_scripts tx = [] \<or> \<not> IsValid (cb_minerIdentity cbTx) \<or> \<not> IsValid (cb_minerIdentitySig cbTx) \<or>
         \<not> bls_verify (c_ops env) (cb_minerIdentitySig cbTx) (cb_minerIdentity cbTx)
             (MinerIdentitySignatureHash (c_ops env) (cb_nHeight cbTx) (bl_hashPrevBlock block) (hd (tx_scripts tx))))
        then Some ''bad-cbtx-miner-identity-sig''
      else None)"

text \<open>The checks of an embedded seal: its ancestor, its aggregate signature, its VRF proofs.\<close>

definition vrf_checks :: "('sk, 'k, 's) hmp_env \<Rightarrow> entry \<Rightarrow> ('k, 's) CCbTx \<Rightarrow> string option" where
  "vrf_checks env pindex cbTx =
     (let p = c_params env; ops = c_ops env
      in if IsHMPRearmActive p (nHeight pindex) \<and> cb_nVersion cbTx \<ge> HMP_REARM then
           if length (cb_vSealSignerVRFProofs cbTx) \<noteq> length (cb_vSealSigners cbTx) then Some ''bad-seal-vrf-parity''
           else
             let vrfPrevSealHash =
                   (case GetAncestor pindex (nHeight pindex - nHMPSealTrailingDepth p) of
                      Some pSealed \<Rightarrow> (case pprev pSealed of Some q \<Rightarrow> entry_hash q | None \<Rightarrow> null_hash)
                    | None \<Rightarrow> null_hash)
             in if list_ex (\<lambda>i. \<not> VerifyVRF (hash256 ops) (bls_verify ops) (cb_vSealSigners cbTx ! i)
                                  (cb_sealBlockHash cbTx) vrfPrevSealHash (cb_vSealSignerVRFProofs cbTx ! i))
                     [0..<length (cb_vSealSigners cbTx)] then Some ''bad-seal-vrf''
                else None
         else None)"

definition seal_checks ::
  "('sk, 'k, 's) hmp_env \<Rightarrow> entry \<Rightarrow> ('k, 's) CCbTx \<Rightarrow> string + ('k CBLSPublicKey list \<times> 8 word list)" where
  "seal_checks env pindex cbTx =
     (let p = c_params env; targetHeight = nHeight pindex - nHMPSealTrailingDepth p
      in if IsValid (cb_sealForAncestor cbTx) \<and> \<not> IsNull (cb_sealBlockHash cbTx) then
           if targetHeight \<ge> 0 \<and> map_option entry_hash (GetAncestor pindex targetHeight) \<noteq> Some (cb_sealBlockHash cbTx)
           then Inl ''bad-seal-wrong-ancestor''
           else if length (cb_vSealSigners cbTx) \<noteq> length (cb_vSealSignerAlgos cbTx) then Inl ''bad-seal-signers-algos-mismatch''
           else if cb_vSealSigners cbTx = [] then Inr (cb_vSealSigners cbTx, cb_vSealSignerAlgos cbTx)
           else if \<not> seal_Verify (c_ops env)
             \<lparr>as_blockHash = cb_sealBlockHash cbTx, as_aggregatedSig = cb_sealForAncestor cbTx,
              as_signers = cb_vSealSigners cbTx, as_signerAlgos = cb_vSealSignerAlgos cbTx, as_vrfProofs = []\<rparr>
             then Inl ''bad-seal-signature''
           else (case vrf_checks env pindex cbTx of
                   Some e \<Rightarrow> Inl e
                 | None \<Rightarrow> Inr (cb_vSealSigners cbTx, cb_vSealSignerAlgos cbTx))
         else if IsDeterministicSealActive p (nHeight pindex) \<and> cb_vSealSigners cbTx \<noteq> [] then Inl ''bad-seal-signers-no-seal''
         else Inr ([], []))"

text \<open>Registering the block for sealing and signing it, when eligible.\<close>

definition prev_seal_hash :: "('sk, 'k, 's) hmp_env \<Rightarrow> ('k, 's) CSealManager \<Rightarrow> entry \<Rightarrow> uint256" where
  "prev_seal_hash env m pindex =
     (case pprev pindex of
        None \<Rightarrow> null_hash
      | Some q \<Rightarrow>
          if nPrevSealHashFixHeight (c_params env) > 0 \<and> nHeight pindex \<ge> nPrevSealHashFixHeight (c_params env)
          then entry_hash q
          else (case GetSeal m (entry_hash q) of
                  Some seal \<Rightarrow> hash256 (c_ops env) (ser_AssembledSeal (c_wire env) seal)
                | None \<Rightarrow> entry_hash q))"

definition tip_lookup :: "('sk, 'k, 's) hmp_env \<Rightarrow> ('k CBLSPublicKey \<Rightarrow> unit option \<Rightarrow> bool) option" where
  "tip_lookup env = map_option (\<lambda>f pk _. f pk None) (c_mnLookup env)"

definition start_sealing ::
  "('sk, 'k::linorder, 's) hmp_env \<Rightarrow> entry \<Rightarrow> ('k, 's) hmp_node \<Rightarrow> ('k, 's) CSealManager \<Rightarrow> ('k, 's) CSealManager" where
  "start_sealing env pindex s m =
     (let m = OnNewBlock (c_now env) (entry_hash pindex) (nHeight pindex) (prev_seal_hash env m pindex) m
      in if c_signing env then
           (case SignBlock (c_ops env) (c_zk env) (tip_lookup env) (g_hmp_privilege s) (g_hmp_commitments s) (c_identity env)
                   (c_now env) (entry_hash pindex) (entry_algo pindex) m of
              (None, m) \<Rightarrow> m
            | (Some share, m) \<Rightarrow>
                snd (AddSealShare (c_ops env) (c_zk env) (tip_lookup env) (g_hmp_privilege s) (g_hmp_commitments s) (c_now env) share m))
         else m)"

text \<open>Writing the weight and the work of the block.\<close>

definition set_work :: "nat \<Rightarrow> limbs option \<Rightarrow> entry \<Rightarrow> ('k, 's) hmp_node \<Rightarrow> ('k, 's) hmp_node" where
  "set_work weight work pindex s =
     (let f = m_index s (entry_hash pindex)
      in s\<lparr>m_index := (m_index s)(entry_hash pindex := f\<lparr>nSealWeight := weight,
             nChainSealWork := (case work of Some w \<Rightarrow> w | None \<Rightarrow> nChainSealWork f)\<rparr>)\<rparr>)"

definition set_miner :: "'k CBLSPublicKey \<Rightarrow> entry \<Rightarrow> ('k, 's) hmp_node \<Rightarrow> ('k, 's) hmp_node" where
  "set_miner pk pindex s =
     (if IsValid pk
      then s\<lparr>m_index := (m_index s)(entry_hash pindex := (m_index s (entry_hash pindex))\<lparr>hmpMinerPubKey := pk\<rparr>)\<rparr>
      else s)"

definition defer_commitments ::
  "('k, 's) hmp_node \<Rightarrow> entry \<Rightarrow> ('k, 's) CCbTx \<Rightarrow> 'k DeferredHMPMutation \<Rightarrow> 'k DeferredHMPMutation" where
  "defer_commitments s pindex cbTx d =
     (let d = (if g_hmp_commitments s \<noteq> None
               then d\<lparr>fDoCommitmentRegistry := True, nCommitHeight := nHeight pindex,
                      commitMinerIdentity := cb_minerIdentity cbTx, commitExplicit := cb_vCommitments cbTx\<rparr> else d)
      in if g_hmp_commit_pool s \<noteq> None
         then d\<lparr>fDoCommitPoolCleanup := True, poolCleanupMinerIdentity := cb_minerIdentity cbTx,
                poolCleanupKeys := cb_vCommitments cbTx\<rparr> else d)"

definition defer_privilege ::
  "('k, 's) hmp_node \<Rightarrow> entry \<Rightarrow> 'k CBLSPublicKey \<Rightarrow> 'k CBLSPublicKey list \<Rightarrow> 8 word list \<Rightarrow> int \<Rightarrow>
   'k DeferredHMPMutation \<Rightarrow> 'k DeferredHMPMutation" where
  "defer_privilege s pindex miner signers algos sealedAlgo d =
     (if g_hmp_privilege s \<noteq> None
      then d\<lparr>fDoPrivilege := True, nPrivHeight := nHeight pindex, nPrivAlgo := entry_algo pindex, nPrivSealedAlgo := sealedAlgo,
             privMinerIdentity := miner, privSigners := signers, privSignerAlgos := algos\<rparr>
      else d)"

text \<open>Stage 3 and later, after the identity checks.\<close>

definition connect_sealed ::
  "('sk, 'k::linorder, 's) hmp_env \<Rightarrow> bool \<Rightarrow> nat \<Rightarrow> entry \<Rightarrow> ('k, 's) CCbTx \<Rightarrow> ('k, 's) hmp_node \<Rightarrow> 'k DeferredHMPMutation \<Rightarrow>
   verdict \<times> ('k, 's) hmp_node \<times> 'k DeferredHMPMutation" where
  "connect_sealed env fJustCheck nHMPStage pindex cbTx s d =
     (case seal_checks env pindex cbTx of
        Inl e \<Rightarrow> (Invalid e, s, d)
      | Inr (signers, algos) \<Rightarrow>
          let p = c_params env;
              (signers, algos, _) = FilterSealSigners (c_ops env) (c_mnLookup env) (g_hmp_commitments s) (g_hmp_privilege s) p
                (nHeight pindex) (nHMPSealTrailingDepth p) pindex signers algos
                (if cb_nVersion cbTx \<ge> HMP_REARM then Some (cb_vSealSignerVRFProofs cbTx) else None);
              d = (if \<not> fJustCheck
                   then (if IsDeterministicSealActive p (nHeight pindex)
                         then defer_privilege s pindex (cb_minerIdentity cbTx) (cb_vSealSigners cbTx) (cb_vSealSignerAlgos cbTx)
                                (SealedAlgoOf pindex cbTx p) d
                         else defer_privilege s pindex (cb_minerIdentity cbTx) signers algos (SealedAlgoOf pindex cbTx p) d)
                   else d);
              weight = seal_weight env s nHMPStage pindex cbTx signers algos;
              work = weighted_work (parent_work s pindex) (ix_nBits (bdata pindex)) weight;
              s = set_work weight work pindex
                    (if \<not> fJustCheck then s\<lparr>setBlockIndexCandidates := setBlockIndexCandidates s - {entry_hash pindex}\<rparr> else s);
              s = (if \<not> fJustCheck
                   then s\<lparr>setBlockIndexCandidates := insert (entry_hash pindex) (setBlockIndexCandidates s),
                          g_seal_manager := map_option (start_sealing env pindex s) (g_seal_manager s)\<rparr>
                   else s)
          in (Connected, s, d))"

definition connect_cbtx ::
  "('sk, 'k::linorder, 's) hmp_env \<Rightarrow> bool \<Rightarrow> nat \<Rightarrow> entry \<Rightarrow> ('k, 's) hmp_block \<Rightarrow> ('k, 's) hmp_tx \<Rightarrow> ('k, 's) CCbTx \<Rightarrow>
   ('k, 's) hmp_node \<Rightarrow> verdict \<times> ('k, 's) hmp_node \<times> 'k DeferredHMPMutation" where
  "connect_cbtx env fJustCheck nHMPStage pindex block tx cbTx s =
     (case identity_checks env nHMPStage pindex block tx cbTx of
        Some e \<Rightarrow> (Invalid e, s, no_mutation (c_ops env))
      | None \<Rightarrow>
          let s = set_miner (cb_minerIdentity cbTx) pindex s;
              d = (if nHMPStage \<ge> 2 \<and> \<not> fJustCheck
                   then let d = defer_commitments s pindex cbTx (no_mutation (c_ops env))
                        in if nHMPStage < 3 then defer_privilege s pindex (cb_minerIdentity cbTx) [] [] (- 1) d else d
                   else no_mutation (c_ops env))
          in if length (cb_vCommitments cbTx) > MAX_COMMITMENTS_PER_BLOCK
             then (Invalid ''bad-cbtx-too-many-commitments'', s, no_mutation (c_ops env))
             else if nHMPStage \<ge> 3 then connect_sealed env fJustCheck nHMPStage pindex cbTx s d
             else (Connected, set_work 10000 (plain_work (parent_work s pindex) (ix_nBits (bdata pindex))) pindex s, d))"

text \<open>
  The whole HMP section: skipped before activation; on a \<^verbatim>\<open>VerifyDB\<close> reconnect only the work is
  recomputed from the stored weight; otherwise the tracker is cleared at activation,
  the state is rebuilt to the parent when it is not anchored there, and the block is processed
  by its stage.
\<close>

definition hmp_anchor ::
  "('sk, 'k::linorder, 's) hmp_env \<Rightarrow> bool \<Rightarrow> entry \<Rightarrow> ('k, 's) hmp_node \<Rightarrow> bool \<times> ('k, 's) hmp_node" where
  "hmp_anchor env fJustCheck pindex s =
     (let p = c_params env
      in case (if fJustCheck then None else pprev pindex) of
           None \<Rightarrow> (True, s)
         | Some q \<Rightarrow>
             let s = (if \<not> DeploymentActiveAt (nHeight q) (HMPHeight p)
                      then s\<lparr>g_hmp_privilege := map_option ClearTracker (g_hmp_privilege s)\<rparr> else s)
             in if IsDeterministicSealActive p (nHeight pindex) \<and> m_hmp_state_anchor s \<noteq> entry_hash q
                then RebuildHMPState env q s else (True, s))"

definition connect_non_hmp ::
  "('sk, 'k, 's) hmp_env \<Rightarrow> bool \<Rightarrow> entry \<Rightarrow> ('k, 's) hmp_node \<Rightarrow> verdict \<times> ('k, 's) hmp_node \<times> 'k DeferredHMPMutation" where
  "connect_non_hmp env fJustCheck pindex s =
     (let d = no_mutation (c_ops env)
      in (Connected, set_work 10000 (plain_work (parent_work s pindex) (ix_nBits (bdata pindex))) pindex s,
          if fJustCheck then d else defer_privilege s pindex (empty_pk (c_ops env)) [] [] (- 1) d))"

definition hmp_section ::
  "('sk, 'k::linorder, 's) hmp_env \<Rightarrow> bool \<Rightarrow> bool \<Rightarrow> entry \<Rightarrow> ('k, 's) hmp_block \<Rightarrow> ('k, 's) hmp_node \<Rightarrow>
   verdict \<times> ('k, 's) hmp_node \<times> 'k DeferredHMPMutation" where
  "hmp_section env fJustCheck fVerifyOnly pindex block s =
     (let p = c_params env; nBits = ix_nBits (bdata pindex); d = no_mutation (c_ops env)
      in if \<not> DeploymentActiveAt (nHeight pindex) (HMPHeight p) then (Connected, s, d)
         else if fVerifyOnly then
           let w = nSealWeight (m_index s (entry_hash pindex))
           in (Connected, set_work w (weighted_work (parent_work s pindex) nBits w) pindex s, d)
         else
           case hmp_anchor env fJustCheck pindex s of
             (False, s) \<Rightarrow> (AbortNode ''Failed to rebuild HMP seal state from disk (over-pruned or corrupt node)'', s, d)
           | (True, s) \<Rightarrow>
               let nHMPStage = GetHMPStage (nHeight pindex) p
               in if nHMPStage = 1 then (Connected, set_work 10000 (plain_work (parent_work s pindex) nBits) pindex s, d)
                  else (case bl_vtx block of
                          tx # _ \<Rightarrow>
                            if is_cbtx tx then
                              (case tx_payload tx of
                                 Some cbTx \<Rightarrow>
                                   if cb_nVersion cbTx \<ge> HMP_SEAL
                                   then connect_cbtx env fJustCheck nHMPStage pindex block tx cbTx s
                                   else (Connected, s, d)
                               | None \<Rightarrow> (Connected, s, d))
                            else connect_non_hmp env fJustCheck pindex s
                        | [] \<Rightarrow> connect_non_hmp env fJustCheck pindex s))"

text \<open>
  \<^verbatim>\<open>ConnectBlock\<close> around it: \<open>other\<close> is the verdict of the checks that follow the HMP section,
  \<open>None\<close> when all pass.  The deferred mutations are applied only then.
\<close>

definition ConnectBlock ::
  "('sk, 'k::linorder, 's) hmp_env \<Rightarrow> bool \<Rightarrow> bool \<Rightarrow> entry \<Rightarrow> ('k, 's) hmp_block \<Rightarrow> string option \<Rightarrow> ('k, 's) hmp_node \<Rightarrow>
   verdict \<times> ('k, 's) hmp_node" where
  "ConnectBlock env fJustCheck fVerifyOnly pindex block other s =
     (case hmp_section env fJustCheck fVerifyOnly pindex block s of
        (Connected, s, d) \<Rightarrow>
          (case other of
             Some e \<Rightarrow> (Invalid e, s)
           | None \<Rightarrow> (Connected, if fJustCheck then s else apply_deferred fVerifyOnly pindex d s))
      | (v, s, d) \<Rightarrow> (v, s))"

definition DisconnectTip :: "entry \<Rightarrow> ('k::linorder, 's) hmp_node \<Rightarrow> ('k, 's) hmp_node" where
  "DisconnectTip pindexDelete s =
     s\<lparr>g_hmp_commitments := map_option (registry_BlockDisconnected (nHeight pindexDelete)) (g_hmp_commitments s),
       g_hmp_privilege := map_option (BlockDisconnected (nHeight pindexDelete)) (g_hmp_privilege s),
       g_seal_manager := map_option (seal_BlockDisconnected (entry_hash pindexDelete) (nHeight pindexDelete)) (g_seal_manager s),
       m_hmp_state_anchor := null_hash\<rparr>"

section \<open>Crash recovery\<close>

text \<open>
  The HMP part of \<^verbatim>\<open>RollforwardBlock\<close> and of \<^verbatim>\<open>ReplayBlocks\<close>, which bring the trackers from the old
  tip of an interrupted flush to the new one.  The seal checks report corruption of the block
  files; the registry is already updated when they do.
\<close>

definition rollforward_seal ::
  "('sk, 'k, 's) hmp_env \<Rightarrow> entry \<Rightarrow> ('k, 's) CCbTx \<Rightarrow> ('k CBLSPublicKey list \<times> 8 word list) option" where
  "rollforward_seal env pindex cbTx =
     (let targetHeight = nHeight pindex - nHMPSealTrailingDepth (c_params env)
      in if IsValid (cb_sealForAncestor cbTx) \<and> \<not> IsNull (cb_sealBlockHash cbTx) then
           if targetHeight \<ge> 0 \<and> map_option entry_hash (GetAncestor pindex targetHeight) \<noteq> Some (cb_sealBlockHash cbTx) then None
           else if length (cb_vSealSigners cbTx) \<noteq> length (cb_vSealSignerAlgos cbTx) then None
           else if cb_vSealSigners cbTx \<noteq> [] \<and> \<not> seal_Verify (c_ops env)
             \<lparr>as_blockHash = cb_sealBlockHash cbTx, as_aggregatedSig = cb_sealForAncestor cbTx,
              as_signers = cb_vSealSigners cbTx, as_signerAlgos = cb_vSealSignerAlgos cbTx, as_vrfProofs = []\<rparr> then None
           else Some (cb_vSealSigners cbTx, cb_vSealSignerAlgos cbTx)
         else Some ([], []))"

definition rollforward_hmp_block ::
  "('sk, 'k::linorder, 's) hmp_env \<Rightarrow> entry \<Rightarrow> ('k, 's) CCbTx \<Rightarrow> ('k, 's) hmp_node \<Rightarrow> bool \<times> ('k, 's) hmp_node" where
  "rollforward_hmp_block env pindex cbTx s =
     (let p = c_params env
      in if GetHMPStage (nHeight pindex) p \<ge> 3 \<and> \<not> IsValid (cb_minerIdentity cbTx) then (False, s)
         else if length (cb_vCommitments cbTx) > MAX_COMMITMENTS_PER_BLOCK then (False, s)
         else
           let s = refold_registry p pindex cbTx s
           in case rollforward_seal env pindex cbTx of
                None \<Rightarrow> (False, s)
              | Some (signers, algos) \<Rightarrow>
                  let (filteredSigners, filteredAlgos) = refold_signers env pindex cbTx s signers algos
                  in (True, refold_session env pindex (refold_privilege p pindex cbTx filteredSigners filteredAlgos s)))"

definition RollforwardBlock ::
  "('sk, 'k::linorder, 's) hmp_env \<Rightarrow> entry \<Rightarrow> ('k, 's) hmp_node \<Rightarrow> bool \<times> ('k, 's) hmp_node" where
  "RollforwardBlock env pindex s =
     (case ReadBlockFromDisk env pindex of
        None \<Rightarrow> (False, s)
      | Some block \<Rightarrow>
          let p = c_params env
          in if \<not> RollforwardBlock_ok env pindex then (False, s)
             else if \<not> DeploymentActiveAt (nHeight pindex) (HMPHeight p) then (True, s)
             else
               let s = (case pprev pindex of
                          Some q \<Rightarrow> if \<not> DeploymentActiveAt (nHeight q) (HMPHeight p)
                                    then s\<lparr>g_hmp_privilege := map_option ClearTracker (g_hmp_privilege s)\<rparr> else s
                        | None \<Rightarrow> s)
               in if GetHMPStage (nHeight pindex) p = 1 then (True, s)
                  else (case find is_cbtx (bl_vtx block) of
                          Some tx \<Rightarrow>
                            (case tx_payload tx of
                               Some cbTx \<Rightarrow> if cb_nVersion cbTx \<ge> HMP_SEAL then rollforward_hmp_block env pindex cbTx s else (True, s)
                             | None \<Rightarrow> (True, s))
                        | None \<Rightarrow> (True, non_hmp_block env pindex s)))"

definition replay_disconnect :: "entry \<Rightarrow> ('k::linorder, 's) hmp_node \<Rightarrow> ('k, 's) hmp_node" where
  "replay_disconnect pindexOld s =
     (if nHeight pindexOld > 0
      then s\<lparr>g_hmp_commitments := map_option (registry_BlockDisconnected (nHeight pindexOld)) (g_hmp_commitments s),
             g_hmp_privilege := map_option (BlockDisconnected (nHeight pindexOld)) (g_hmp_privilege s),
             g_seal_manager := map_option (seal_BlockDisconnected (entry_hash pindexOld) (nHeight pindexOld)) (g_seal_manager s)\<rparr>
      else s)"

function rollback_walk ::
  "('sk, 'k::linorder, 's) hmp_env \<Rightarrow> entry option \<Rightarrow> entry option \<Rightarrow> ('k, 's) hmp_node \<Rightarrow> bool \<times> ('k, 's) hmp_node" where
  "rollback_walk env pindexFork None s = (True, s)"
| "rollback_walk env pindexFork (Some pindexOld) s =
     (if Some pindexOld = pindexFork then (True, s)
      else if nHeight pindexOld > 0 \<and> (ReadBlockFromDisk env pindexOld = None \<or> \<not> DisconnectBlock_ok env pindexOld) then (False, s)
      else rollback_walk env pindexFork (pprev pindexOld) (replay_disconnect pindexOld s))"
  by pat_completeness auto
termination
proof (relation "measure (\<lambda>(env, f, p, s). case p of None \<Rightarrow> 0 | Some a \<Rightarrow> Suc (size a))")
  fix env :: "('sk, 'k::linorder, 's) hmp_env" and f e and s :: "('k, 's) hmp_node"
  show "((env, f, pprev e, replay_disconnect e s), env, f, Some e, s)
    \<in> measure (\<lambda>(env, f, p, s). case p of None \<Rightarrow> 0 | Some a \<Rightarrow> Suc (size a))"
    using size_pprev [of e] by (auto split: option.split)
qed auto

fun rollforward_loop ::
  "('sk, 'k::linorder, 's) hmp_env \<Rightarrow> entry \<Rightarrow> int list \<Rightarrow> ('k, 's) hmp_node \<Rightarrow> bool \<times> ('k, 's) hmp_node" where
  "rollforward_loop env pindexNew [] s = (True, s)"
| "rollforward_loop env pindexNew (height # hs) s =
     (case GetAncestor pindexNew height of
        None \<Rightarrow> (False, s)
      | Some pindex \<Rightarrow>
          (case RollforwardBlock env pindex s of
             (False, s) \<Rightarrow> (False, s)
           | (True, s) \<Rightarrow> rollforward_loop env pindexNew hs s))"

text \<open>A failed \<^verbatim>\<open>assert(pindexFork != nullptr)\<close> is a failure too.\<close>

definition ReplayBlocks ::
  "('sk, 'k::linorder, 's) hmp_env \<Rightarrow> entry option \<Rightarrow> entry \<Rightarrow> ('k, 's) hmp_node \<Rightarrow> bool \<times> ('k, 's) hmp_node" where
  "ReplayBlocks env pindexOld pindexNew s =
     (let pindexFork = (case pindexOld of Some old \<Rightarrow> LastCommonAncestor old pindexNew | None \<Rightarrow> None)
      in if pindexOld \<noteq> None \<and> pindexFork = None then (False, s)
         else
           case rollback_walk env pindexFork pindexOld s of
             (False, s) \<Rightarrow> (False, s)
           | (True, s) \<Rightarrow>
               rollforward_loop env pindexNew
                 [(case pindexFork of Some f \<Rightarrow> nHeight f | None \<Rightarrow> 0) + 1..nHeight pindexNew] s)"

section \<open>Work of an index entry\<close>

text \<open>
  The seal work that \<^verbatim>\<open>AddToBlockIndex\<close> gives a new entry and \<^verbatim>\<open>LoadBlockIndex\<close> a stored one.
\<close>

definition index_work :: "entry \<Rightarrow> ('k, 's) hmp_node \<Rightarrow> ('k, 's) hmp_node" where
  "index_work pindex s =
     (let w = nSealWeight (m_index s (entry_hash pindex))
      in set_work w (weighted_work (parent_work s pindex) (ix_nBits (bdata pindex)) w) pindex s)"

end
