(* ===== verification/Hmp_Chain_State.thy ===== *)
theory Hmp_Chain_State
  imports Hmp_Connect
begin

text \<open>
  What the HMP part of block processing guarantees: which state a rejected or tested block leaves
  alone, that the privilege tracker is a function of the chain in the deterministic regime, which signers a
  seal is weighed by, the bounds of the weight ladder, and the exactness of the seal-weighted work.
\<close>

section \<open>What the processing of a block leaves alone\<close>

definition same_trackers :: "('k, 's) hmp_node \<Rightarrow> ('k, 's) hmp_node \<Rightarrow> bool" where
  "same_trackers s s' =
     (g_hmp_commitments s' = g_hmp_commitments s \<and> g_hmp_commit_pool s' = g_hmp_commit_pool s \<and>
      g_hmp_privilege s' = g_hmp_privilege s \<and> m_hmp_state_anchor s' = m_hmp_state_anchor s)"

lemma same_trackers_refl [simp]: "same_trackers s s"
  by (simp add: same_trackers_def)

lemma same_trackers_trans [trans]: "same_trackers a b \<Longrightarrow> same_trackers b c \<Longrightarrow> same_trackers a c"
  by (simp add: same_trackers_def)

lemma same_trackers_set_work [simp]: "same_trackers s (set_work w k e s') = same_trackers s s'"
  by (simp add: same_trackers_def set_work_def Let_def)

lemma same_trackers_set_miner [simp]: "same_trackers s (set_miner pk e s') = same_trackers s s'"
  by (simp add: same_trackers_def set_miner_def)

lemma same_trackers_updates [simp]:
  "same_trackers s (s'\<lparr>setBlockIndexCandidates := c\<rparr>) = same_trackers s s'"
  "same_trackers s (s'\<lparr>g_seal_manager := m\<rparr>) = same_trackers s s'"
  by (simp_all add: same_trackers_def)

lemma connect_sealed_keeps: "same_trackers s (fst (snd (connect_sealed env fj st e c s d)))"
  by (simp add: connect_sealed_def Let_def split: sum.split prod.split)

lemma connect_cbtx_keeps: "same_trackers s (fst (snd (connect_cbtx env fj st e b tx c s)))"
proof -
  have "same_trackers (set_miner (cb_minerIdentity c) e s) (fst (snd (connect_sealed env fj st e c (set_miner (cb_minerIdentity c) e s) d)))" for d
    by (rule connect_sealed_keeps)
  then have "same_trackers s (fst (snd (connect_sealed env fj st e c (set_miner (cb_minerIdentity c) e s) d)))" for d
    using same_trackers_trans [of s "set_miner (cb_minerIdentity c) e s"] by simp
  then show ?thesis by (simp add: connect_cbtx_def Let_def split: option.split)
qed

text \<open>
  Before the anchor step and after it: the section itself changes no tracker, it only
  collects the mutations.
\<close>

lemma hmp_section_keeps:
  assumes "DeploymentActiveAt (nHeight e) (HMPHeight (c_params env))" "\<not> fv"
    and "hmp_anchor env fj e s = (ok, s1)"
  shows "same_trackers s1 (fst (snd (hmp_section env fj fv e b s)))"
proof (cases ok)
  case True
  then show ?thesis
    using assms by (simp add: hmp_section_def connect_non_hmp_def Let_def connect_cbtx_keeps split: list.split option.split)
next
  case False
  then show ?thesis using assms by (simp add: hmp_section_def connect_non_hmp_def Let_def)
qed

lemma hmp_section_skips:
  "\<not> DeploymentActiveAt (nHeight e) (HMPHeight (c_params env)) \<or> fv \<Longrightarrow>
   same_trackers s (fst (snd (hmp_section env fj fv e b s))) \<and> snd (snd (hmp_section env fj fv e b s)) = no_mutation (c_ops env) \<and>
   fst (hmp_section env fj fv e b s) = Connected"
  by (simp add: hmp_section_def connect_non_hmp_def Let_def)

text \<open>The deferred mutations of a sealed block in the deterministic regime.\<close>

definition window_entry :: "Params \<Rightarrow> entry \<Rightarrow> ('k, 's) CCbTx \<Rightarrow> 'k CHMPWindowEntry" where
  "window_entry p e c =
     \<lparr>we_height = nHeight e, we_algo = entry_algo e, we_minerPubKey = cb_minerIdentity c, we_sealSigners = cb_vSealSigners c,
      we_signerAlgos = cb_vSealSignerAlgos c, we_sealedAlgo = SealedAlgoOf e c p\<rparr>"

lemma connect_window_entry:
  "connect_entry (window_entry p e c) =
   BlockConnected (nHeight e) (entry_algo e) (cb_minerIdentity c) (cb_vSealSigners c) (cb_vSealSignerAlgos c) (SealedAlgoOf e c p)"
  by (simp add: connect_entry_def window_entry_def)

definition hmp_payload :: "('k, 's) hmp_block \<Rightarrow> (('k, 's) CCbTx) option" where
  "hmp_payload b =
     (case bl_vtx b of
        tx # _ \<Rightarrow> if is_cbtx tx
                 then (case tx_payload tx of Some c \<Rightarrow> if cb_nVersion c \<ge> HMP_SEAL then Some c else None | None \<Rightarrow> None)
                 else None
      | [] \<Rightarrow> None)"

lemma hmp_payloadE:
  assumes "hmp_payload b = Some c"
  obtains tx txs where "bl_vtx b = tx # txs" "is_cbtx tx" "tx_payload tx = Some c" "cb_nVersion c \<ge> HMP_SEAL"
  using assms by (auto simp: hmp_payload_def split: list.splits option.splits if_splits)

lemma defer_commitments_privilege:
  "fDoPrivilege (defer_commitments s e c d) = fDoPrivilege d"
  by (simp add: defer_commitments_def Let_def)

definition defers_entry :: "('k, 's) hmp_node \<Rightarrow> 'k CHMPWindowEntry \<Rightarrow> 'k DeferredHMPMutation \<Rightarrow> bool" where
  "defers_entry s w d =
     (g_hmp_privilege s \<noteq> None \<longrightarrow>
      fDoPrivilege d \<and> nPrivHeight d = we_height w \<and> nPrivAlgo d = we_algo w \<and> privMinerIdentity d = we_minerPubKey w \<and>
      privSigners d = we_sealSigners w \<and> privSignerAlgos d = we_signerAlgos w \<and> nPrivSealedAlgo d = we_sealedAlgo w)"

lemma defers_entry_defer:
  "defers_entry s (window_entry p e c)
     (defer_privilege s e (cb_minerIdentity c) (cb_vSealSigners c) (cb_vSealSignerAlgos c) (SealedAlgoOf e c p) d)"
  by (simp add: defers_entry_def defer_privilege_def window_entry_def)

lemma defers_entry_same: "same_trackers s s' \<Longrightarrow> defers_entry s' w d = defers_entry s w d"
  by (simp add: defers_entry_def same_trackers_def)

lemma connect_sealed_defers:
  assumes "IsDeterministicSealActive (c_params env) (nHeight e)" "fst (connect_sealed env False st e c s d) = Connected"
  shows "defers_entry s (window_entry (c_params env) e c) (snd (snd (connect_sealed env False st e c s d)))"
  using assms by (auto simp: connect_sealed_def Let_def defers_entry_defer split: sum.splits prod.splits)

lemma connect_cbtx_defers:
  assumes "IsDeterministicSealActive (c_params env) (nHeight e)" "st \<ge> 3" "fst (connect_cbtx env False st e b tx c s) = Connected"
  shows "defers_entry s (window_entry (c_params env) e c) (snd (snd (connect_cbtx env False st e b tx c s)))"
proof -
  let ?s = "set_miner (cb_minerIdentity c) e s"
  have s: "same_trackers s ?s" by simp
  show ?thesis
    using assms connect_sealed_defers [of env e st c ?s] 
    by (auto simp: connect_cbtx_def Let_def defers_entry_same [OF s] split: option.splits if_splits)
qed

lemma apply_deferred_privilege:
  assumes "defers_entry s w d" 
  shows "g_hmp_privilege (apply_deferred False e d s) = map_option (connect_entry w) (g_hmp_privilege s)"
    and "m_hmp_state_anchor (apply_deferred False e d s) = entry_hash e"
  using assms by (cases "g_hmp_privilege s"; simp add: apply_deferred_def Let_def defers_entry_def connect_entry_def)+

section \<open>The tracker a chain determines\<close>

text \<open>\<open>m_lastTier\<close> only drives log messages; the view of a tracker forgets it.\<close>

definition tracker_view :: "'k CHMPPrivilegeTracker \<Rightarrow> 'k CHMPPrivilegeTracker" where
  "tracker_view t = t\<lparr>m_lastTier := []\<rparr>"

lemma BlockConnected_view:
  "BlockConnected h a mk sg sa sl (t\<lparr>m_lastTier := x\<rparr>) = (BlockConnected h a mk sg sa sl t)\<lparr>m_lastTier := x\<rparr>"
  by (simp add: BlockConnected_def Let_def RebuildFromWindow_def)

lemma view_connect_entry: "tracker_view (connect_entry e t) = connect_entry e (tracker_view t)"
  by (simp add: tracker_view_def connect_entry_def BlockConnected_view)

lemma view_fold: "tracker_view (fold connect_entry es t) = fold connect_entry es (tracker_view t)"
  by (induction es arbitrary: t) (simp_all add: view_connect_entry)

definition disk_payload :: "('sk, 'k, 's) hmp_env \<Rightarrow> entry \<Rightarrow> (('k, 's) CCbTx) option" where
  "disk_payload env e = (case ReadBlockFromDisk env e of None \<Rightarrow> None | Some b \<Rightarrow> hmp_payload b)"

definition entry_at :: "('sk, 'k, 's) hmp_env \<Rightarrow> entry \<Rightarrow> int \<Rightarrow> 'k CHMPWindowEntry" where
  "entry_at env e h = (let a = the (GetAncestor e h) in window_entry (c_params env) a (the (disk_payload env a)))"

definition chain_entries :: "('sk, 'k, 's) hmp_env \<Rightarrow> int \<Rightarrow> entry \<Rightarrow> 'k CHMPWindowEntry list" where
  "chain_entries env start e = map (entry_at env e) [start..nHeight e]"

definition chain_tracker :: "('sk, 'k::linorder, 's) hmp_env \<Rightarrow> entry \<Rightarrow> 'k CHMPPrivilegeTracker" where
  "chain_tracker env e =
     fold connect_entry (chain_entries env (rebuild_start (c_params env) e) e) (new_tracker (c_params env))"

text \<open>
  An entry whose whole replay range is in the deterministic regime and on disk, each block with
  an HMP payload that names its miner.
\<close>

definition sealed_at :: "('sk, 'k, 's) hmp_env \<Rightarrow> entry \<Rightarrow> bool" where
  "sealed_at env a = (case disk_payload env a of Some c \<Rightarrow> IsValid (cb_minerIdentity c) | None \<Rightarrow> False)"

definition sealed_history :: "('sk, 'k, 's) hmp_env \<Rightarrow> entry \<Rightarrow> bool" where
  "sealed_history env e =
     (let p = c_params env; start = rebuild_start p e
      in in_tree e \<and> start \<le> nHeight e \<and> IsDeterministicSealActive p start \<and> GetHMPStage start p \<ge> 3 \<and>
         (\<forall>h \<in> {start..nHeight e}. case GetAncestor e h of Some a \<Rightarrow> sealed_at env a | None \<Rightarrow> False))"

lemma GetHMPStage_mono: "h \<le> h' \<Longrightarrow> GetHMPStage h p \<ge> 3 \<Longrightarrow> GetHMPStage h' p \<ge> 3"
  by (auto simp: GetHMPStage_def split: if_splits)

lemma IsDeterministicSealActive_mono: "h \<le> h' \<Longrightarrow> IsDeterministicSealActive p h \<Longrightarrow> IsDeterministicSealActive p h'"
  by (auto simp: IsDeterministicSealActive_def)

lemma rebuild_start_bounds: "HMPHeight p \<le> rebuild_start p e" "0 \<le> rebuild_start p e"
  by (auto simp: rebuild_start_def)

lemma sealed_historyD:
  assumes "sealed_history env e" "rebuild_start (c_params env) e \<le> h" "h \<le> nHeight e"
  shows "\<exists>a b c. GetAncestor e h = Some a \<and> nHeight a = h \<and> ReadBlockFromDisk env a = Some b \<and> hmp_payload b = Some c \<and>
           disk_payload env a = Some c \<and> IsValid (cb_minerIdentity c) \<and>
           IsDeterministicSealActive (c_params env) h \<and> GetHMPStage h (c_params env) \<ge> 3"
proof -
  obtain a where a: "GetAncestor e h = Some a" "sealed_at env a"
    using assms by (force simp: sealed_history_def Let_def split: option.splits)
  have "nHeight a = h" using assms a by (auto simp: sealed_history_def Let_def dest: GetAncestor_height)
  moreover obtain b c where "ReadBlockFromDisk env a = Some b" "hmp_payload b = Some c" "IsValid (cb_minerIdentity c)"
    using a(2) by (auto simp: sealed_at_def disk_payload_def split: option.splits)
  moreover have "IsDeterministicSealActive (c_params env) h" "GetHMPStage h (c_params env) \<ge> 3"
    using assms by (auto simp: sealed_history_def Let_def intro: GetHMPStage_mono IsDeterministicSealActive_mono)
  ultimately show ?thesis using a(1) by (simp add: disk_payload_def)
qed

lemma rebuild_block_sealed:
  assumes "hmp_payload b = Some c" "IsDeterministicSealActive (c_params env) (nHeight a)" "GetHMPStage (nHeight a) (c_params env) \<ge> 3"
  shows "g_hmp_privilege (rebuild_block env a b s) =
           map_option (connect_entry (window_entry (c_params env) a c)) (g_hmp_privilege s)"
proof -
  obtain tx txs where "bl_vtx b = tx # txs" "is_cbtx tx" "tx_payload tx = Some c" "cb_nVersion c \<ge> HMP_SEAL"
    using assms(1) by (rule hmp_payloadE)
  then show ?thesis
    using assms(2,3)
    by (simp add: rebuild_block_def rebuild_hmp_block_def Let_def refold_session_def refold_privilege_def refold_registry_def
        connect_window_entry split: prod.split)
qed

lemma rebuild_loop_sealed:
  assumes "sealed_history env e" "set hs \<subseteq> {rebuild_start (c_params env) e..nHeight e}"
  shows "fst (rebuild_loop env f e hs s) \<and>
         g_hmp_privilege (snd (rebuild_loop env f e hs s)) =
           map_option (fold connect_entry (map (entry_at env e) hs)) (g_hmp_privilege s)"
  using assms(2)
proof (induction hs arbitrary: s)
  case (Cons h hs)
  obtain a b c where a: "GetAncestor e h = Some a" "nHeight a = h" "ReadBlockFromDisk env a = Some b" "hmp_payload b = Some c"
    "disk_payload env a = Some c" "IsDeterministicSealActive (c_params env) h" "GetHMPStage h (c_params env) \<ge> 3"
    using sealed_historyD [OF assms(1), of h] Cons.prems by auto
  then have "g_hmp_privilege (rebuild_block env a b s) = map_option (connect_entry (entry_at env e h)) (g_hmp_privilege s)"
    by (simp add: rebuild_block_sealed entry_at_def)
  then show ?case using Cons.IH [of "rebuild_block env a b s"] Cons.prems a
    by (simp add: option.map_comp comp_def)
qed (simp add: option.map_id0 id_def option.map_ident)

lemma RebuildHMPState_sealed:
  assumes "sealed_history env e"
  shows "fst (RebuildHMPState env e s)" 
    and "m_hmp_state_anchor (snd (RebuildHMPState env e s)) = entry_hash e"
    and "g_hmp_privilege (snd (RebuildHMPState env e s)) =
       map_option (\<lambda>t. fold connect_entry (chain_entries env (rebuild_start (c_params env) e) e) (ClearTracker t)) (g_hmp_privilege s)"
proof -
  have "DeploymentActiveAt (nHeight e) (HMPHeight (c_params env))"
    using assms rebuild_start_bounds(1) [of "c_params env" e] by (simp add: sealed_history_def Let_def DeploymentActiveAt_def)
  moreover obtain s' where "rebuild_loop env (IsDeterministicSealActive (c_params env) (nHeight e + 1)) e
      [rebuild_start (c_params env) e..nHeight e] (s\<lparr>g_hmp_privilege := map_option ClearTracker (g_hmp_privilege s)\<rparr>) = (True, s')"
    "g_hmp_privilege s' = map_option (fold connect_entry (map (entry_at env e) [rebuild_start (c_params env) e..nHeight e]))
       (map_option ClearTracker (g_hmp_privilege s))"
    using rebuild_loop_sealed [OF assms, of "[rebuild_start (c_params env) e..nHeight e]"
        "IsDeterministicSealActive (c_params env) (nHeight e + 1)" "s\<lparr>g_hmp_privilege := map_option ClearTracker (g_hmp_privilege s)\<rparr>"]
    by (auto simp: prod_eq_iff)
  ultimately show "fst (RebuildHMPState env e s)" "m_hmp_state_anchor (snd (RebuildHMPState env e s)) = entry_hash e"
    "g_hmp_privilege (snd (RebuildHMPState env e s)) =
       map_option (\<lambda>t. fold connect_entry (chain_entries env (rebuild_start (c_params env) e) e) (ClearTracker t)) (g_hmp_privilege s)"
    by (simp_all add: RebuildHMPState_def Let_def chain_entries_def option.map_comp comp_def)
qed

lemma ClearTracker_new [simp]: "ClearTracker (new_tracker p) = new_tracker p"
  by (simp add: ClearTracker_def new_tracker_def)

lemma upto_snoc: "a \<le> b + 1 \<Longrightarrow> [a..b + 1] = [a..b] @ [b + 1]" for a b :: int
  using upto_rec2 [of a "b + 1"] by simp

lemma upto_append:
  fixes a b c :: int
  assumes "a \<le> b" "b \<le> c + 1"
  shows "[a..c] = [a..b - 1] @ [b..c]"
proof (cases "b = a \<or> b = c + 1")
  case False
  then show ?thesis using upto_split2 [of a "b - 1" c] assms by (simp only: diff_add_cancel) linarith
next
  case True
  then show ?thesis
  proof
    assume "b = a"
    moreover have "[a..a - 1] = []" by (rule upto_empty) simp
    ultimately show ?thesis by (simp only: append_Nil)
  next
    assume "b = c + 1"
    moreover have "[c + 1..c] = []" by (rule upto_empty) simp
    ultimately show ?thesis by (simp only: append_Nil2 add_diff_cancel_right')
  qed
qed

lemma chain_entries_snoc:
  assumes "in_tree e" "pprev e = Some q" "start \<le> nHeight q + 1"
  shows "chain_entries env start e = chain_entries env start q @ [entry_at env e (nHeight e)]"
proof -
  have h: "nHeight e = nHeight q + 1" using assms by (auto elim: in_tree_cases)
  have "entry_at env e h = entry_at env q h" if "h \<in> set [start..nHeight q]" for h
    using GetAncestor_parent [OF assms(1,2), of h] that h by (simp add: entry_at_def)
  then show ?thesis using upto_snoc [OF assms(3)] h by (simp add: chain_entries_def)
qed

lemma chain_entries_heights:
  assumes "in_tree e" "0 \<le> start"
  shows "map we_height (chain_entries env start e) = [start..nHeight e]"
proof -
  have "we_height (entry_at env e h) = h" if h: "start \<le> h" "h \<le> nHeight e" for h
  proof -
    obtain a where "GetAncestor e h = Some a" "nHeight a = h"
      using GetAncestor_tree [OF assms(1), of h] h assms(2) by (metis order_trans)
    then show ?thesis by (simp add: entry_at_def window_entry_def)
  qed
  then show ?thesis unfolding chain_entries_def map_map comp_def by (intro map_idI) simp
qed

lemma chain_entries_miners:
  assumes "sealed_history env e" "rebuild_start (c_params env) e \<le> start" "w \<in> set (chain_entries env start e)"
  shows "IsValid (we_minerPubKey w)"
proof -
  obtain h where h: "start \<le> h" "h \<le> nHeight e" "w = entry_at env e h" using assms(3) by (auto simp: chain_entries_def)
  then show ?thesis using sealed_historyD [OF assms(1), of h] assms(2) by (auto simp: entry_at_def window_entry_def)
qed

definition lookback_covers :: "Params \<Rightarrow> bool" where
  "lookback_covers p = (0 \<le> nHMPPrivilegeWindow p \<and> 0 \<le> nHMPDominanceCatchMaxLookback p)"

lemma max_lookback_bounds:
  "lookback_covers p \<Longrightarrow> nHMPPrivilegeWindow p \<le> max_lookback p"
  "lookback_covers p \<Longrightarrow> nHMPDominanceCatchMaxLookback p \<le> max_lookback p"
  "400 \<le> max_lookback p"
  by (auto simp: max_lookback_def lookback_covers_def SEAL_LONG_WINDOW_def)

text \<open>Extending a chain by one block extends its tracker by one entry, although the replay range moves.\<close>

lemma chain_tracker_child:
  assumes q: "sealed_history env q" and e: "sealed_history env e" and qe: "pprev e = Some q"
    and c: "disk_payload env e = Some c" and p: "lookback_covers (c_params env)"
  shows "chain_tracker env e = connect_entry (window_entry (c_params env) e c) (chain_tracker env q)"
proof -
  let ?p = "c_params env" and ?t = "new_tracker (c_params env) :: 'b CHMPPrivilegeTracker"
  let ?r = "chain_entries env (rebuild_start ?p e) e" and ?all = "chain_entries env (rebuild_start ?p q) e"
  have tree: "in_tree e" "in_tree q" using e q by (auto simp: sealed_history_def Let_def)
  have h: "nHeight e = nHeight q + 1" using tree qe by (auto elim: in_tree_cases)
  have start: "rebuild_start ?p q \<le> rebuild_start ?p e" "rebuild_start ?p e \<le> nHeight e" "rebuild_start ?p q \<le> nHeight q"
    "0 \<le> rebuild_start ?p q"
    using h e q by (auto simp: rebuild_start_def sealed_history_def Let_def)
  define old where "old = map (entry_at env e) [rebuild_start ?p q..rebuild_start ?p e - 1]"
  have all: "?all = old @ ?r" using start upto_append [of "rebuild_start ?p q" "rebuild_start ?p e" "nHeight e"]
    by (simp add: chain_entries_def old_def)
  have "fold connect_entry (old @ ?r) ?t = fold connect_entry ?r ?t"
  proof (cases "rebuild_start ?p q = rebuild_start ?p e")
    case False
    then have len: "int (length ?r) = max_lookback ?p + 1"
      using start h max_lookback_bounds(3) [of ?p] by (simp add: chain_entries_def rebuild_start_def max_def split: if_splits)
    have valid: "filter (\<lambda>w. IsValid (we_minerPubKey w)) ?r = ?r"
      using chain_entries_miners [OF e, of "rebuild_start ?p e"] by simp
    have heights: "map we_height (old @ ?r) = [rebuild_start ?p q..nHeight e]"
      using chain_entries_heights [OF tree(1) start(4), of env] all by simp
    have "fold connect_entry (old @ ?r) (ClearTracker ?t) = fold connect_entry ?r (ClearTracker ?t)"
    proof (rule fold_connect_suffix)
      show "sorted (map we_height (old @ ?r))" unfolding heights by simp
      have "we_height w \<in> set [rebuild_start ?p q..nHeight e]" if "w \<in> set (old @ ?r)" for w
        using that heights by (metis image_eqI list.set_map)
      then show "\<forall>w \<in> set (old @ ?r). 0 \<le> we_height w" using start(4) by fastforce
    qed (use len max_lookback_bounds [of ?p] p in \<open>simp_all add: valid new_tracker_def\<close>)
    then show ?thesis by simp
  qed (simp add: old_def)
  moreover have "entry_at env e (nHeight e) = window_entry ?p e c"
    using c GetAncestor_self [OF tree(1)] by (simp add: entry_at_def)
  ultimately show ?thesis
    using chain_entries_snoc [OF tree(1) qe, of "rebuild_start ?p q" env] start h
    by (simp add: chain_tracker_def flip: all)
qed

section \<open>Runs of a node\<close>

text \<open>
  A set of index entries whose histories are sealed and whose hashes are distinct and not null.
\<close>

definition block_tree :: "('sk, 'k, 's) hmp_env \<Rightarrow> entry set \<Rightarrow> bool" where
  "block_tree env E =
     (lookback_covers (c_params env) \<and> (\<forall>e \<in> E. sealed_history env e) \<and> inj_on entry_hash E \<and> null_hash \<notin> entry_hash ` E)"

text \<open>The same parameters and block files; the clock, the identity, the lookups may differ from call to call.\<close>

definition same_chain :: "('sk, 'k, 's) hmp_env \<Rightarrow> ('sk, 'k, 's) hmp_env \<Rightarrow> bool" where
  "same_chain env env' = (c_params env' = c_params env \<and> ReadBlockFromDisk env' = ReadBlockFromDisk env)"

lemma same_chain_history: "same_chain env env' \<Longrightarrow> sealed_history env' e = sealed_history env e"
  by (simp add: same_chain_def sealed_history_def sealed_at_def disk_payload_def cong: option.case_cong)

lemma same_chain_tracker: "same_chain env env' \<Longrightarrow> chain_tracker env' e = chain_tracker env e"
  by (simp add: same_chain_def chain_tracker_def chain_entries_def entry_at_def [abs_def] disk_payload_def)

text \<open>
  Everything a running node does to its HMP state: it starts with a fresh tracker and no
  anchor, replays the blocks of an interrupted flush, rebuilds the trackers to a tip, connects blocks of the tree in any order, with any verdict but an abort, tests block
  templates, re-verifies blocks, disconnects tips, and handles messages and queries, which leave the
  tracker as it is.
\<close>

inductive hmp_run :: "('sk, 'k::linorder, 's) hmp_env \<Rightarrow> entry set \<Rightarrow> ('k, 's) hmp_node \<Rightarrow> bool" for env E where
  start: "g_hmp_privilege s = Some (new_tracker (c_params env)) \<Longrightarrow> m_hmp_state_anchor s = null_hash \<Longrightarrow> hmp_run env E s"
| replay: "hmp_run env E s \<Longrightarrow> same_chain env env' \<Longrightarrow> m_hmp_state_anchor s = null_hash \<Longrightarrow> ReplayBlocks env' old new s = (True, s') \<Longrightarrow> hmp_run env E s'"
| rebuild: "hmp_run env E s \<Longrightarrow> same_chain env env' \<Longrightarrow> e \<in> E \<Longrightarrow> RebuildHMPState env' e s = (True, s') \<Longrightarrow> hmp_run env E s'"
| connect: "hmp_run env E s \<Longrightarrow> same_chain env env' \<Longrightarrow> e \<in> E \<Longrightarrow> q \<in> E \<Longrightarrow> pprev e = Some q \<Longrightarrow>
    ReadBlockFromDisk env e = Some b \<Longrightarrow> ConnectBlock env' False False e b other s = (v, s') \<Longrightarrow> (\<And>m. v \<noteq> AbortNode m) \<Longrightarrow>
    hmp_run env E s'"
| test: "hmp_run env E s \<Longrightarrow> same_chain env env' \<Longrightarrow> hmp_run env E (snd (ConnectBlock env' True fv e b other s))"
| verify: "hmp_run env E s \<Longrightarrow> same_chain env env' \<Longrightarrow> hmp_run env E (snd (ConnectBlock env' False True e b other s))"
| disconnect: "hmp_run env E s \<Longrightarrow> hmp_run env E (DisconnectTip e s)"
| others: "hmp_run env E s \<Longrightarrow> m_hmp_state_anchor s' = m_hmp_state_anchor s \<Longrightarrow>
    map_option tracker_view (g_hmp_privilege s') = map_option tracker_view (g_hmp_privilege s) \<Longrightarrow> hmp_run env E s'"

definition anchored :: "('sk, 'k::linorder, 's) hmp_env \<Rightarrow> entry \<Rightarrow> ('k, 's) hmp_node \<Rightarrow> bool" where
  "anchored env e s = (map_option tracker_view (g_hmp_privilege s) = Some (tracker_view (chain_tracker env e)))"

definition node_inv :: "('sk, 'k::linorder, 's) hmp_env \<Rightarrow> entry set \<Rightarrow> ('k, 's) hmp_node \<Rightarrow> bool" where
  "node_inv env E s =
     (map_option ClearTracker (g_hmp_privilege s) = Some (new_tracker (c_params env)) \<and>
      (\<forall>e \<in> E. m_hmp_state_anchor s = entry_hash e \<longrightarrow> anchored env e s))"

lemma ClearTracker_view: "ClearTracker (tracker_view t) = ClearTracker t"
  by (simp add: ClearTracker_def tracker_view_def)

lemma view_eq_Clear: "tracker_view t = tracker_view u \<Longrightarrow> ClearTracker t = ClearTracker u"
  using ClearTracker_view by metis

lemma ClearTracker_connected [simp]: "ClearTracker (BlockConnected h a mk sg sa sl t) = ClearTracker t"
  by (simp add: BlockConnected_def ClearTracker_def Let_def RebuildFromWindow_def)

lemma ClearTracker_disconnected [simp]: "ClearTracker (BlockDisconnected h t) = ClearTracker t"
  by (simp add: BlockDisconnected_def ClearTracker_def RebuildFromWindow_def)

lemma ClearTracker_connect_entry [simp]: "ClearTracker (connect_entry e t) = ClearTracker t"
  by (simp add: connect_entry_def)

lemma ClearTracker_fold [simp]: "ClearTracker (fold connect_entry es t) = ClearTracker t"
  by (induction es arbitrary: t) simp_all

lemma ClearTracker_chain [simp]: "ClearTracker (chain_tracker env e) = new_tracker (c_params env)"
  by (simp add: chain_tracker_def)

lemma node_inv_anchored:
  assumes "block_tree env E" "e \<in> E" "m_hmp_state_anchor s = entry_hash e" "anchored env e s"
  shows "node_inv env E s"
proof -
  obtain t where t: "g_hmp_privilege s = Some t" "tracker_view t = tracker_view (chain_tracker env e)"
    using assms(4) by (auto simp: anchored_def)
  then have "ClearTracker t = new_tracker (c_params env)" using view_eq_Clear [OF t(2)] by simp
  moreover have "e' = e" if "e' \<in> E" "entry_hash e' = entry_hash e" for e'
    using assms(1,2) that by (auto simp: block_tree_def dest: inj_onD)
  ultimately show ?thesis using assms(3,4) t(1) by (auto simp: node_inv_def)
qed

lemma node_inv_cong:
  assumes "m_hmp_state_anchor s' = m_hmp_state_anchor s"
    "map_option tracker_view (g_hmp_privilege s') = map_option tracker_view (g_hmp_privilege s)" "node_inv env E s"
  shows "node_inv env E s'"
proof -
  have "map_option ClearTracker (g_hmp_privilege s') = map_option ClearTracker (g_hmp_privilege s)"
    using assms(2) by (cases "g_hmp_privilege s"; cases "g_hmp_privilege s'") (auto dest: view_eq_Clear)
  then show ?thesis using assms by (simp add: node_inv_def anchored_def)
qed

lemma node_inv_same: "same_trackers s s' \<Longrightarrow> node_inv env E s \<Longrightarrow> node_inv env E s'"
  by (erule node_inv_cong [rotated 2]) (simp_all add: same_trackers_def)

text \<open>After the anchor step the tracker is that of the parent.\<close>

lemma hmp_anchor_sealed:
  assumes "sealed_history env q" "sealed_history env e" "pprev e = Some q" "node_inv env E s" "q \<in> E"
  shows "\<exists>s1. hmp_anchor env False e s = (True, s1) \<and> m_hmp_state_anchor s1 = entry_hash q \<and> anchored env q s1"
proof -
  have "DeploymentActiveAt (nHeight q) (HMPHeight (c_params env))"
    using assms(1) rebuild_start_bounds(1) [of "c_params env" q] by (simp add: sealed_history_def Let_def DeploymentActiveAt_def)
  moreover have "IsDeterministicSealActive (c_params env) (nHeight e)"
    using assms(2) by (auto simp: sealed_history_def Let_def intro: IsDeterministicSealActive_mono)
  moreover have "anchored env q (snd (RebuildHMPState env q s))"
    using RebuildHMPState_sealed(3) [OF assms(1), of s] assms(4)
    by (auto simp: anchored_def node_inv_def chain_tracker_def option.map_comp comp_def)
  ultimately show ?thesis
    using assms RebuildHMPState_sealed(1,2) [OF assms(1), of s]
    by (cases "RebuildHMPState env q s") (auto simp: hmp_anchor_def Let_def node_inv_def)
qed

lemma ConnectBlock_sealed:
  assumes tree: "block_tree env E" and inE: "e \<in> E" "q \<in> E" and qe: "pprev e = Some q"
    and b: "ReadBlockFromDisk env e = Some b" and inv: "node_inv env E s"
    and conn: "ConnectBlock env False False e b other s = (v, s')"
  shows "if v = Connected then m_hmp_state_anchor s' = entry_hash e \<and> anchored env e s'
         else m_hmp_state_anchor s' = entry_hash q \<and> anchored env q s'"
proof -
  let ?p = "c_params env"
  have hist: "sealed_history env q" "sealed_history env e" and p: "lookback_covers ?p"
    using tree inE by (auto simp: block_tree_def)
  obtain s1 where s1: "hmp_anchor env False e s = (True, s1)" "m_hmp_state_anchor s1 = entry_hash q" "anchored env q s1"
    using hmp_anchor_sealed [OF hist qe inv inE(2)] by blast
  have e: "in_tree e" "rebuild_start ?p e \<le> nHeight e" using hist(2) by (auto simp: sealed_history_def Let_def)
  obtain c where c: "hmp_payload b = Some c" "disk_payload env e = Some c"
    and act: "IsDeterministicSealActive ?p (nHeight e)" "GetHMPStage (nHeight e) ?p \<ge> 3"
    using sealed_historyD [OF hist(2) e(2) order_refl] GetAncestor_self [OF e(1)] b by auto
  obtain tx txs where tx: "bl_vtx b = tx # txs" "is_cbtx tx" "tx_payload tx = Some c" "cb_nVersion c \<ge> HMP_SEAL"
    using c(1) by (rule hmp_payloadE)
  have dep: "DeploymentActiveAt (nHeight e) (HMPHeight ?p)"
    using e(2) rebuild_start_bounds(1) [of ?p e] by (simp add: DeploymentActiveAt_def)
  have sec: "hmp_section env False False e b s = connect_cbtx env False (GetHMPStage (nHeight e) ?p) e b tx c s1"
    using s1(1) act dep tx by (auto simp: hmp_section_def connect_non_hmp_def Let_def)
  obtain v2 s2 d where r: "hmp_section env False False e b s = (v2, s2, d)" by (metis prod_cases3)
  have keeps: "same_trackers s1 s2" using connect_cbtx_keeps [of s1] r sec by (metis fst_conv snd_conv)
  then have s2: "m_hmp_state_anchor s2 = entry_hash q" "anchored env q s2" using s1 by (simp_all add: same_trackers_def anchored_def)
  have "anchored env e (apply_deferred False e d s2) \<and> m_hmp_state_anchor (apply_deferred False e d s2) = entry_hash e"
    if v2: "v2 = Connected"
  proof -
    have "defers_entry s1 (window_entry ?p e c) d"
      using connect_cbtx_defers [OF act(1,2), of b tx c s1] r sec v2 by simp
    then have "defers_entry s2 (window_entry ?p e c) d" using defers_entry_same [OF keeps] by simp
    note d = apply_deferred_privilege [OF this, of e]
    show ?thesis
      using s2(2) d chain_tracker_child [OF hist qe c(2) p]
      by (auto simp: anchored_def view_connect_entry)
  qed
  then show ?thesis
    using conn s2 r by (cases v2) (auto simp: ConnectBlock_def split: option.splits)
qed

definition at_parent :: "('sk, 'k, 's) hmp_env \<Rightarrow> entry \<Rightarrow> ('k, 's) hmp_node \<Rightarrow> bool" where
  "at_parent env e s =
     (case pprev e of
        None \<Rightarrow> True
      | Some q \<Rightarrow> DeploymentActiveAt (nHeight q) (HMPHeight (c_params env)) \<and>
                 (IsDeterministicSealActive (c_params env) (nHeight e) \<longrightarrow> m_hmp_state_anchor s = entry_hash q))"

lemma hmp_anchor_idle: "fj \<or> at_parent env e s \<Longrightarrow> hmp_anchor env fj e s = (True, s)"
  by (auto simp: hmp_anchor_def at_parent_def Let_def split: option.splits)

lemma hmp_section_trackers:
  assumes "fj \<or> fv \<or> at_parent env e s"
  shows "same_trackers s (fst (snd (hmp_section env fj fv e b s)))"
proof (cases "DeploymentActiveAt (nHeight e) (HMPHeight (c_params env)) \<and> \<not> fv")
  case True
  then show ?thesis using assms hmp_section_keeps [of e env fv fj s True s b] hmp_anchor_idle [of fj env e s] by auto
next
  case False
  then show ?thesis using hmp_section_skips [of e env fv s fj b] by blast
qed

lemma ConnectBlock_trackers:
  assumes "fj \<or> fv \<or> at_parent env e s" "ConnectBlock env fj fv e b other s = (v, s')" "fj \<or> v \<noteq> Connected"
  shows "same_trackers s s'"
proof -
  obtain v1 s1 d where r: "hmp_section env fj fv e b s = (v1, s1, d)" by (metis prod_cases3)
  then have "same_trackers s s1" using hmp_section_trackers [OF assms(1), of b] by simp
  then show ?thesis using assms(2,3) r by (cases v1) (auto simp: ConnectBlock_def split: option.splits if_splits)
qed

lemma ConnectBlock_verify: "same_trackers s (snd (ConnectBlock env fj True e b other s))"
proof -
  obtain v1 s1 d where r: "hmp_section env fj True e b s = (v1, s1, d)" by (metis prod_cases3)
  then have "same_trackers s s1" "d = no_mutation (c_ops env)" using hmp_section_skips [of e env True s fj b] by auto
  then show ?thesis using r by (cases v1) (auto simp: ConnectBlock_def apply_deferred_def no_mutation_def split: option.split)
qed

text \<open>Crash recovery keeps the anchor and the parameters of the tracker.\<close>

definition param_view :: "('k, 's) hmp_node \<Rightarrow> uint256 \<times> ('k CHMPPrivilegeTracker) option" where
  "param_view s = (m_hmp_state_anchor s, map_option ClearTracker (g_hmp_privilege s))"

lemma ClearTracker_idem [simp]: "ClearTracker (ClearTracker t) = ClearTracker t"
  by (simp add: ClearTracker_def)

lemma param_view_privilege:
  "(\<And>t. ClearTracker (f t) = ClearTracker t) \<Longrightarrow> param_view (s\<lparr>g_hmp_privilege := map_option f (g_hmp_privilege s)\<rparr>) = param_view s"
  by (simp add: param_view_def option.map_comp comp_def)

lemma param_view_others [simp]:
  "param_view (s\<lparr>g_hmp_commitments := r\<rparr>) = param_view s" "param_view (s\<lparr>g_seal_manager := m\<rparr>) = param_view s"
  by (simp_all add: param_view_def)

lemma param_view_refold [simp]:
  "param_view (refold_registry p e c s) = param_view s" "param_view (refold_session env e s) = param_view s"
  "param_view (refold_privilege p e c sg al s) = param_view s" "param_view (non_hmp_block env e s) = param_view s"
  "param_view (s\<lparr>g_hmp_privilege := map_option ClearTracker (g_hmp_privilege s)\<rparr>) = param_view s"
  by (simp_all add: refold_registry_def refold_session_def refold_privilege_def non_hmp_block_def Let_def param_view_privilege)

lemma param_view_disconnect [simp]: "param_view (replay_disconnect e s) = param_view s"
  by (simp add: replay_disconnect_def param_view_def option.map_comp comp_def)

lemma RollforwardBlock_params [simp]: "param_view (snd (RollforwardBlock env e s)) = param_view s"
proof -
  have "param_view (snd (rollforward_hmp_block env e c s)) = param_view s" for c s
    by (simp add: rollforward_hmp_block_def Let_def split: option.split prod.split)
  then show ?thesis by (simp add: RollforwardBlock_def Let_def split: option.split)
qed

lemma rollback_params: "param_view (snd (rollback_walk env f e s)) = param_view s"
  by (induction env f e s rule: rollback_walk.induct) simp_all

lemma rollforward_params: "param_view (snd (rollforward_loop env new hs s)) = param_view s"
proof (induction hs arbitrary: s)
  case (Cons h hs)
  have "param_view s' = param_view s" if "RollforwardBlock env a s = (ok, s')" for a ok s'
    using RollforwardBlock_params [of env a s] that by simp
  then show ?case using Cons.IH by (simp split: option.split prod.split bool.split)
qed simp

lemma ReplayBlocks_params: "param_view (snd (ReplayBlocks env old new s)) = param_view s"
proof -
  define f where "f = (case old of Some o' \<Rightarrow> LastCommonAncestor o' new | None \<Rightarrow> None)"
  obtain ok s' where r: "rollback_walk env f old s = (ok, s')" by (cases "rollback_walk env f old s")
  then have "param_view s' = param_view s" using rollback_params [of env f old s] by simp
  then show ?thesis using r rollforward_params [of env new _ s']
    by (cases ok) (simp_all add: ReplayBlocks_def f_def [symmetric] Let_def)
qed

lemma same_chain_inv:
  assumes "same_chain env env'"
  shows "block_tree env' E = block_tree env E" "node_inv env' E s = node_inv env E s" "ReadBlockFromDisk env' = ReadBlockFromDisk env"
  using assms same_chain_history [OF assms] same_chain_tracker [OF assms]
  by (simp_all add: block_tree_def node_inv_def anchored_def same_chain_def)

lemma hmp_run_inv:
  assumes "hmp_run env E s" "block_tree env E"
  shows "node_inv env E s"
proof -
  have no_entry: "\<forall>e \<in> E. null_hash \<noteq> entry_hash e" using assms(2) by (auto simp: block_tree_def)
  from assms(1) show ?thesis
  proof induction
    case (start s)
    then show ?case using no_entry by (simp add: node_inv_def)
  next
    case (replay s env' old new s')
    have "param_view s' = param_view s" using ReplayBlocks_params [of env' old new s] replay(4) by simp
    then show ?case using replay.IH replay(3) no_entry by (simp add: node_inv_def param_view_def)
  next
    case (rebuild s env' e s')
    note same = same_chain_inv [OF rebuild(2)]
    have tree: "block_tree env' E" and inv: "node_inv env' E s" unfolding same by (fact assms(2), fact rebuild.IH)
    have hist: "sealed_history env' e" using tree rebuild(3) by (simp add: block_tree_def)
    have "anchored env' e s'"
      using RebuildHMPState_sealed(3) [OF hist, of s] inv rebuild(4)
      by (auto simp: anchored_def node_inv_def chain_tracker_def option.map_comp comp_def)
    then have "node_inv env' E s'"
      using RebuildHMPState_sealed(2) [OF hist, of s] rebuild(4) by (intro node_inv_anchored [OF tree rebuild(3)]) simp_all
    then show ?case unfolding same .
  next
    case (connect s env' e q b other v s')
    note same = same_chain_inv [OF connect(2)]
    have tree: "block_tree env' E" and inv: "node_inv env' E s" and b: "ReadBlockFromDisk env' e = Some b"
      unfolding same by (fact assms(2), fact connect.IH, fact connect(6))
    note r = ConnectBlock_sealed [OF tree connect(3,4,5) b inv connect(7)]
    have "node_inv env' E s'"
    proof (cases "v = Connected")
      case True
      with r show ?thesis by (intro node_inv_anchored [OF tree connect(3)]) simp_all
    next
      case False
      with r show ?thesis by (intro node_inv_anchored [OF tree connect(4)]) simp_all
    qed
    then show ?case unfolding same .
  next
    case (test s env' fv e b other)
    have "same_trackers s (snd (ConnectBlock env' True fv e b other s))" 
      by (rule ConnectBlock_trackers [OF _ prod.collapse [symmetric]]) simp_all
    then show ?case using test.IH by (rule node_inv_same)
  next
    case (verify s env' e b other)
    show ?case using ConnectBlock_verify verify.IH by (rule node_inv_same)
  next
    case (disconnect s e)
    then show ?case using no_entry by (simp add: node_inv_def DisconnectTip_def option.map_comp comp_def)
  next
    case (others s s')
    show ?case by (rule node_inv_cong [OF others(2,3) others.IH])
  qed
qed

text \<open>
  C1: in the deterministic regime the privilege tracker is a function of the chain: whatever
  blocks a node connected, rejected, tested, re-verified and disconnected since it started, in
  whatever order, when the state is anchored at a block, the tracker is the one obtained by
  crediting the raw signers of the last blocks of that block's chain to an empty tracker.
\<close>

theorem tracker_determined_by_chain:
  assumes "hmp_run env E s" "block_tree env E" "e \<in> E" "m_hmp_state_anchor s = entry_hash e"
  shows "map_option tracker_view (g_hmp_privilege s) = Some (tracker_view (chain_tracker env e))"
  using hmp_run_inv [OF assms(1,2)] assms(3,4) by (simp add: node_inv_def anchored_def)

text \<open>A toy node with two blocks above genesis, at heights where every rule is active.\<close>

definition toy_wire :: "(nat, nat \<times> uint256) wire_ops" where
  "toy_wire = \<lparr>pk_ops = \<lparr>FromBytes = (\<lambda>l b. if length b = 1 then Some (unat (hd b)) else None), ImplSerialize = (\<lambda>l i. [of_nat i]),
       ImplDefault = 0, SerSize = 1, IsGroupElement = True\<rparr>,
     sig_ops = \<lparr>FromBytes = (\<lambda>l b. if length b = 33 then Some (unat (hd b), tl b) else None),
       ImplSerialize = (\<lambda>l i. of_nat (fst i) # snd i), ImplDefault = (0, replicate 32 0), SerSize = 33, IsGroupElement = True\<rparr>,
     bls_legacy_scheme = False\<rparr>"

definition toy_params :: Params where
  "toy_params = (mainnet [] [] [] [] [] [])\<lparr>HMPHeight := 1, nHMPStage2Height := 1, nHMPStage3Height := 1, nHMPStage4Height := 1,
     nHMPDeterministicSealHeight := 1, nHMPRearmHeight := 0\<rparr>"

definition toy_cbtx :: "(nat, nat \<times> uint256) CCbTx" where
  "toy_cbtx = (empty_cbtx (empty_pk toy_ops) (empty_sig toy_ops))\<lparr>cb_nVersion := HMP_COMMITMENT, cb_minerIdentity := CBLSWrapper True 3\<rparr>"

definition toy_block :: "(nat, nat \<times> uint256) hmp_block" where
  "toy_block = \<lparr>bl_hashPrevBlock = replicate 32 1,
     bl_vtx = [\<lparr>tx_nVersion = 3, tx_nType = 5, tx_payload = Some toy_cbtx, tx_scripts = []\<rparr>]\<rparr>"

definition toy_env :: "(nat, nat, nat \<times> uint256) hmp_env" where
  "toy_env = \<lparr>c_ops = toy_ops, c_zk = zk_ex, c_wire = toy_wire, c_params = toy_params, c_mnLookup = None, c_identity = Some ident_ex,
     ReadBlockFromDisk = (\<lambda>e. Some toy_block), c_now = 1000, c_signing = True,
     DisconnectBlock_ok = (\<lambda>e. True), RollforwardBlock_ok = (\<lambda>e. True)\<rparr>"

definition toy_data :: "nat \<Rightarrow> index_data" where
  "toy_data n = \<lparr>ix_hash = replicate 32 (of_nat n), ix_nVersion = 0, ix_nBits = 0x170ffff0\<rparr>"

definition toy_entry1 :: entry where
  "toy_entry1 = BuildSkip (toy_data 2) (genesis_entry (toy_data 1))"

definition toy_entry2 :: entry where
  "toy_entry2 = BuildSkip (toy_data 3) toy_entry1"

definition toy_node :: "(nat, nat \<times> uint256) hmp_node" where
  "toy_node = \<lparr>g_hmp_commitments = None, g_hmp_commit_pool = None, g_hmp_privilege = Some (new_tracker toy_params),
     g_seal_manager = Some seal_start, m_hmp_state_anchor = null_hash,
     m_index = (\<lambda>h. \<lparr>nSealWeight = 10000, nChainSealWork = of_uint64 0, hmpMinerPubKey = CBLSWrapper False 0\<rparr>),
     setBlockIndexCandidates = {}\<rparr>"

lemma toy_params_simps [simp]:
  "HMPHeight toy_params = 1" "GetHMPStage h toy_params = (if h < 1 then 1 else 4)"
  "IsDeterministicSealActive toy_params h = (1 \<le> h)" "\<not> IsHMPRearmActive toy_params h" "lookback_covers toy_params"
  by (simp_all add: toy_params_def mainnet_def GetHMPStage_def IsDeterministicSealActive_def IsHMPRearmActive_def lookback_covers_def)

lemma toy_entry_tree [simp]: "in_tree toy_entry1" "in_tree toy_entry2"
  by (simp_all add: toy_entry1_def toy_entry2_def in_tree.intros)

lemma toy_entry_simps [simp]:
  "nHeight toy_entry1 = 1" "nHeight toy_entry2 = 2" "pprev toy_entry2 = Some toy_entry1"
  "entry_hash toy_entry1 = replicate 32 2" "entry_hash toy_entry2 = replicate 32 3"
  by (simp_all add: toy_entry1_def toy_entry2_def BuildSkip_def genesis_entry_def entry_hash_def toy_data_def)

lemma toy_start: "nHeight e \<le> 400 \<Longrightarrow> rebuild_start toy_params e = 1"
  using max_lookback_bounds(3) [of toy_params] by (simp add: rebuild_start_def)

lemma toy_payload: "disk_payload toy_env a = Some toy_cbtx" "hmp_payload toy_block = Some toy_cbtx"
  "IsValid (cb_minerIdentity toy_cbtx)"
  by (simp_all add: disk_payload_def hmp_payload_def toy_env_def toy_block_def toy_cbtx_def is_cbtx_def TRANSACTION_COINBASE_def
      version_defs IsValid_def)

lemma toy_history: "in_tree e \<Longrightarrow> 1 \<le> nHeight e \<Longrightarrow> nHeight e \<le> 400 \<Longrightarrow> sealed_history toy_env e"
proof -
  assume e: "in_tree e" "1 \<le> nHeight e" "nHeight e \<le> 400"
  have c: "c_params toy_env = toy_params" by (simp add: toy_env_def)
  have "GetAncestor e h \<noteq> None" if h: "1 \<le> h" "h \<le> nHeight e" for h
    using GetAncestor_tree [OF e(1), of h] h by (metis option.distinct(1) order_trans zero_le_one)
  then show ?thesis
    using e toy_start [of e] toy_payload by (auto simp: sealed_history_def c sealed_at_def split: option.split)
qed

lemma toy_tree: "block_tree toy_env {toy_entry1, toy_entry2}"
proof -
  have c: "c_params toy_env = toy_params" by (simp add: toy_env_def)
  show ?thesis by (simp add: block_tree_def c toy_history inj_on_def null_hash_def)
qed

lemma toy_seal_checks: "seal_checks toy_env e toy_cbtx = Inr ([], [])"
  by (simp add: seal_checks_def toy_cbtx_def empty_cbtx_def toy_ops_def empty_sig_def IsValid_def Let_def)

lemma toy_connects:
  assumes "pprev e = Some q" "sealed_history toy_env q" "1 \<le> nHeight e"
  shows "fst (ConnectBlock toy_env False False e toy_block None s) = Connected"
proof -
  obtain s1 where s1: "hmp_anchor toy_env False e s = (True, s1)"
  proof (cases "hmp_anchor toy_env False e s")
    case (Pair ok s1)
    have "ok" using Pair assms(1) RebuildHMPState_sealed(1) [OF assms(2)]
      by (auto simp: hmp_anchor_def Let_def split: if_splits) (metis fst_conv)+
    then show ?thesis using that Pair by simp
  qed
  have c: "c_params toy_env = toy_params" by (simp add: toy_env_def)
  have "fst (connect_sealed toy_env False 4 e toy_cbtx s' d) = Connected" for s' d
    by (simp add: connect_sealed_def toy_seal_checks Let_def split: prod.split)
  then have "fst (connect_cbtx toy_env False 4 e toy_block tx toy_cbtx s') = Connected" for tx s'
    using toy_payload(3) by (simp add: connect_cbtx_def identity_checks_def c Let_def toy_cbtx_def empty_cbtx_def MAX_COMMITMENTS_PER_BLOCK_def)
  then have "fst (hmp_section toy_env False False e toy_block s) = Connected"
    using s1 assms(3) by (simp add: hmp_section_def c Let_def DeploymentActiveAt_def toy_block_def is_cbtx_def TRANSACTION_COINBASE_def
        toy_cbtx_def version_defs)
  then show ?thesis by (cases "hmp_section toy_env False False e toy_block s") (simp add: ConnectBlock_def)
qed

theorem tracker_determined_by_chain_witness:
  "map_option tracker_view (g_hmp_privilege (snd (ConnectBlock toy_env False False toy_entry2 toy_block None toy_node))) =
   Some (tracker_view (chain_tracker toy_env toy_entry2))"
proof (rule tracker_determined_by_chain [OF _ toy_tree])
  let ?s = "snd (ConnectBlock toy_env False False toy_entry2 toy_block None toy_node)"
  have v: "ConnectBlock toy_env False False toy_entry2 toy_block None toy_node = (Connected, ?s)"
    using toy_connects [of toy_entry2 toy_entry1 toy_node] toy_history [of toy_entry1] by (simp add: prod_eq_iff)
  have r: "hmp_run toy_env {toy_entry1, toy_entry2} toy_node"
    by (rule hmp_run.start) (simp_all add: toy_node_def toy_env_def)
  show "hmp_run toy_env {toy_entry1, toy_entry2} ?s"
    by (rule hmp_run.connect [OF r _ _ _ _ _ v, where q = toy_entry1]) (simp_all add: same_chain_def, simp add: toy_env_def)
  show "m_hmp_state_anchor ?s = entry_hash toy_entry2"
    using ConnectBlock_sealed [OF toy_tree _ _ _ _ hmp_run_inv [OF r toy_tree] v, of toy_entry1] by (simp add: toy_env_def)
qed simp

section \<open>Signers that count\<close>

lemma map_nth_filter: "map ((!) zs) (filter (\<lambda>i. Q (zs ! i)) [0..<length zs]) = filter Q zs"
proof -
  have "filter Q (map ((!) zs) [0..<length zs]) = map ((!) zs) (filter (Q \<circ> (!) zs) [0..<length zs])"
    by (rule filter_map)
  then show ?thesis by (simp add: map_nth comp_def)
qed

lemma keep_at_map:
  assumes "\<And>i. i < length zs \<Longrightarrow> P i = Q (zs ! i)"
  shows "keep_at (filter P [0..<length zs]) (map f zs) = map f (filter Q zs)"
proof -
  have P: "filter P [0..<length zs] = filter (\<lambda>i. Q (zs ! i)) [0..<length zs]"
    using assms by (intro filter_cong) auto
  have "filter (\<lambda>i. i < length zs) (filter P [0..<length zs]) = filter P [0..<length zs]"
    unfolding filter_filter by (rule filter_cong) auto
  then have "keep_at (filter P [0..<length zs]) (map f zs) = map (\<lambda>i. f (zs ! i)) (filter P [0..<length zs])"
    by (simp add: keep_at_def)
  also have "\<dots> = map f (map ((!) zs) (filter (\<lambda>i. Q (zs ! i)) [0..<length zs]))" by (simp add: P)
  finally show ?thesis by (simp only: map_nth_filter)
qed

text \<open>When a signer counts, with the algorithm it signed for and its VRF proof.\<close>

definition signer_committed :: "('k CHMPCommitmentRegistry) option \<Rightarrow> int \<Rightarrow> 'k::linorder CBLSPublicKey \<Rightarrow> bool" where
  "signer_committed registry sealedHeight k =
     (case registry of None \<Rightarrow> True | Some r \<Rightarrow> \<not> IsEnabled r \<or> IsCommitted r k (max 0 sealedHeight))"

definition signer_selected ::
  "('sk, 'k::linorder, 's) bls_ops \<Rightarrow> ('k CBLSPublicKey \<Rightarrow> entry option \<Rightarrow> bool) option \<Rightarrow> ('k CHMPPrivilegeTracker) option \<Rightarrow>
   bool \<Rightarrow> entry \<Rightarrow> 'k CBLSPublicKey \<Rightarrow> 8 word \<Rightarrow> 's CBLSSignature \<Rightarrow> bool" where
  "signer_selected ops mnLookup privilege vrf pindex k a v =
     (case privilege of
        None \<Rightarrow> True
      | Some t \<Rightarrow>
          let tier = GetTier mnLookup t k (uint a) (Some pindex)
          in tier \<noteq> UNKNOWN \<and>
             (\<not> vrf \<or> IsVRFSelected (VRFOutputHash (hash256 ops) (ser_sig ops) v) (GetVRFTierMultiplier tier) HMP_VRF_BASE_THRESHOLD))"

lemma filter_committed_zip:
  fixes zs :: "('k::linorder CBLSPublicKey \<times> 8 word \<times> 's CBLSSignature) list" and r :: "('k CHMPCommitmentRegistry) option" and h :: int
  defines "ys \<equiv> filter (\<lambda>(k, a, v). signer_committed r h k) zs"
  shows "filter_committed r h (map fst zs) (map (fst \<circ> snd) zs) (if b then Some (map (snd \<circ> snd) zs) else None) =
     (map fst ys, map (fst \<circ> snd) ys, if b then Some (map (snd \<circ> snd) ys) else None)"
proof (cases r)
  case None
  then show ?thesis by (simp add: filter_committed_def ys_def signer_committed_def)
next
  case (Some reg)
  show ?thesis
  proof (cases "IsEnabled reg \<and> zs \<noteq> []")
    case False
    then have "ys = zs" using Some by (auto simp: ys_def signer_committed_def)
    then show ?thesis using False Some by (auto simp: filter_committed_def)
  next
    case True
    have h: "(if h < 0 then 0 else h) = max 0 h" by simp
    have "IsCommitted reg (map fst zs ! i) (max 0 h) = (case zs ! i of (k, a, v) \<Rightarrow> signer_committed r h k)" if "i < length zs" for i
      using that True Some by (auto simp: signer_committed_def split: prod.split)
    note k = keep_at_map [where Q = "\<lambda>(k, a, v). signer_committed r h k" and zs = zs, OF this, folded ys_def]
    show ?thesis using True Some by (simp add: filter_committed_def h Let_def k)
  qed
qed

lemma filter_privileged_zip:
  fixes zs :: "('k::linorder CBLSPublicKey \<times> 8 word \<times> 's CBLSSignature) list" and t :: "('k CHMPPrivilegeTracker) option" and p :: Params and h :: int
    and ops :: "('sk, 'k, 's) bls_ops" and l :: "('k CBLSPublicKey \<Rightarrow> entry option \<Rightarrow> bool) option" and b :: bool and e :: entry
  defines "ys \<equiv> filter (\<lambda>(k, a, v). signer_selected ops l t (b \<and> IsHMPRearmActive p h) e k a v) zs"
  shows "filter_privileged ops l t p h e (map fst zs) (map (fst \<circ> snd) zs) (if b then Some (map (snd \<circ> snd) zs) else None) =
     (map fst ys, map (fst \<circ> snd) ys, if b then Some (map (snd \<circ> snd) ys) else None)"
proof (cases t)
  case None
  then show ?thesis by (simp add: filter_privileged_def ys_def signer_selected_def)
next
  case (Some tr)
  show ?thesis
  proof (cases "zs = []")
    case False
    define P where "P = privileged_at ops l tr p h e (map fst zs) (map (fst \<circ> snd) zs) (if b then Some (map (snd \<circ> snd) zs) else None)"
    have "P i = (case zs ! i of (k, a, v) \<Rightarrow> signer_selected ops l t (b \<and> IsHMPRearmActive p h) e k a v)" if "i < length zs" for i
      using that Some by (auto simp: P_def privileged_at_def signer_selected_def Let_def split: prod.split)
    note k = keep_at_map [where Q = "\<lambda>(k, a, v). signer_selected ops l t (b \<and> IsHMPRearmActive p h) e k a v" and zs = zs,
        OF this, folded ys_def]
    show ?thesis using False Some by (simp only: filter_privileged_def P_def [symmetric] option.case) (simp add: Let_def k)
  qed (simp add: filter_privileged_def ys_def Some)
qed

text \<open>
  C12: the filter keeps the signers, their algorithms and their proofs in parallel: the three
  vectors that come out are those of the signers that were committed to the chain at the height of the
  sealed block, have a known tier for their algorithm, and, after the rearm height, whose
  proof wins the selection lottery at that tier.  No other entry is kept, and none of these is dropped.
\<close>

theorem filter_seal_signers_exact:
  "FilterSealSigners ops l r t p h depth e (map fst zs) (map (fst \<circ> snd) zs) (if b then Some (map (snd \<circ> snd) zs) else None) =
     (let ys = filter (\<lambda>(k, a, v). signer_committed r (h - depth) k \<and>
                                   signer_selected ops l t (b \<and> IsHMPRearmActive p h) e k a v) zs
      in (map fst ys, map (fst \<circ> snd) ys, if b then Some (map (snd \<circ> snd) ys) else None))"
proof -
  define xs where "xs = filter (\<lambda>(k, a, v). signer_committed r (h - depth) k) zs"
  have ys: "filter (\<lambda>(k, a, v). signer_committed r (h - depth) k \<and>
        signer_selected ops l t (b \<and> IsHMPRearmActive p h) e k a v) zs =
      filter (\<lambda>(k, a, v). signer_selected ops l t (b \<and> IsHMPRearmActive p h) e k a v) xs"
    by (simp add: xs_def case_prod_unfold conj_commute)
  have "FilterSealSigners ops l r t p h depth e (map fst zs) (map (fst \<circ> snd) zs) (if b then Some (map (snd \<circ> snd) zs) else None) =
     filter_privileged ops l t p h e (map fst xs) (map (fst \<circ> snd) xs) (if b then Some (map (snd \<circ> snd) xs) else None)"
    unfolding FilterSealSigners_def filter_committed_zip by (simp add: xs_def)
  then show ?thesis unfolding filter_privileged_zip by (simp only: ys Let_def)
qed

section \<open>The weight ladder after the rearm height\<close>

lemma ComputeSealMultiplier_ge: "10000 \<le> ComputeSealMultiplier l ks as a t i"
proof (cases t)
  case (Some u)
  then show ?thesis using base_multiplier_bounds [OF sealing_on_pos [of u a]] by (simp add: ComputeSealMultiplier_eq trans_le_add1)
qed (simp add: ComputeSealMultiplier_def)

lemma EvaluateMannequinPenalty_range: "EvaluateMannequinPenalty raw t \<in> {1000, 10000}"
  by (simp add: EvaluateMannequinPenalty_def split: option.split)

text \<open>
  C14: the weights after the rearm height: at most 1.5x, and at most 1.2x while the penalty is not armed;
  exactly 0.6667x or 1.0x without a counted signer; a seal is never weighed below an unsealed block and
  never below 1.0x, unless two or more signers count and most of the raw signers are unknown, in which case the weight is
  between 0.1x and 0.15x.
\<close>

theorem rearm_ladder_bounds:
  "let w = rearm_weight l t a e sg al raw; armed = (case t of Some u \<Rightarrow> IsPenaltyArmed u a | None \<Rightarrow> False)
   in w \<le> (if armed then 15000 else 12000) \<and>
      (sg = [] \<longrightarrow> w = (if armed then 6667 else 10000)) \<and>
      (sg \<noteq> [] \<longrightarrow> length sg < 2 \<or> EvaluateMannequinPenalty raw t = 10000 \<longrightarrow>
         10000 \<le> w \<and> rearm_weight l t a e [] [] raw \<le> w) \<and>
      (2 \<le> length sg \<longrightarrow> EvaluateMannequinPenalty raw t \<noteq> 10000 \<longrightarrow> 1000 \<le> w \<and> w \<le> 1500)"
  using ComputeSealMultiplier_ge [of l sg al a t "Some e"] EvaluateMannequinPenalty_range [of raw t]
  by (auto simp: rearm_weight_def Let_def min_def)

theorem rearm_ladder_bounds_witness:
  "10000 \<le> rearm_weight None (Some seal_tracker) 0 toy_entry2 seal_signers [0, 0, 1, 2, 3] seal_signers \<and>
   rearm_weight None (Some seal_tracker) 0 toy_entry2 [] [] seal_signers \<le>
   rearm_weight None (Some seal_tracker) 0 toy_entry2 seal_signers [0, 0, 1, 2, 3] seal_signers"
proof -
  have "EvaluateMannequinPenalty seal_signers (Some seal_tracker) = 10000" by code_simp
  then show ?thesis
    using rearm_ladder_bounds [of None "Some seal_tracker" 0 toy_entry2 seal_signers "[0, 0, 1, 2, 3]" seal_signers]
    by (simp add: Let_def seal_signers_def)
qed

section \<open>Rejected and tested blocks\<close>

lemma m_index_set_work: "h \<noteq> entry_hash e \<Longrightarrow> m_index (set_work w k e s) h = m_index s h"
  by (simp add: set_work_def Let_def)

lemma m_index_set_miner: "h \<noteq> entry_hash e \<Longrightarrow> m_index (set_miner pk e s) h = m_index s h"
  by (simp add: set_miner_def)

lemma fields_set_work [simp]:
  "g_seal_manager (set_work w k e s) = g_seal_manager s" "setBlockIndexCandidates (set_work w k e s) = setBlockIndexCandidates s"
  "g_seal_manager (set_miner pk e s) = g_seal_manager s" "setBlockIndexCandidates (set_miner pk e s) = setBlockIndexCandidates s"
  by (simp_all add: set_work_def set_miner_def Let_def)

definition local_to :: "bool \<Rightarrow> entry \<Rightarrow> ('k, 's) hmp_node \<Rightarrow> ('k, 's) hmp_node \<Rightarrow> bool" where
  "local_to fj e s s' =
     ((\<forall>h. h \<noteq> entry_hash e \<longrightarrow> m_index s' h = m_index s h) \<and>
      (fj \<longrightarrow> g_seal_manager s' = g_seal_manager s \<and> setBlockIndexCandidates s' = setBlockIndexCandidates s))"

lemma local_to_refl [simp]: "local_to fj e s s"
  by (simp add: local_to_def)

lemma local_to_set [simp]:
  "local_to fj e s (set_work w k e s') = local_to fj e s s'" "local_to fj e s (set_miner pk e s') = local_to fj e s s'"
  by (simp_all add: local_to_def m_index_set_work m_index_set_miner cong: conj_cong imp_cong)

lemma local_to_set_miner: "local_to fj e (set_miner pk e s) s' = local_to fj e s s'"
  by (simp add: local_to_def m_index_set_miner cong: imp_cong)

lemma connect_sealed_local: "local_to fj e s (fst (snd (connect_sealed env fj st e c s d)))"
  by (cases fj) (simp_all add: connect_sealed_def Let_def split: sum.split prod.split, simp add: local_to_def m_index_set_work)

lemma connect_cbtx_local: "local_to fj e s (fst (snd (connect_cbtx env fj st e b tx c s)))"
  using connect_sealed_local [of fj e "set_miner (cb_minerIdentity c) e s" env st c]
  by (simp add: connect_cbtx_def Let_def local_to_set_miner split: option.split)

lemma hmp_section_local:
  assumes "fj \<or> fv \<or> at_parent env e s"
  shows "local_to fj e s (fst (snd (hmp_section env fj fv e b s)))"
  using assms hmp_anchor_idle [of fj env e s]
  by (cases fv) (auto simp: hmp_section_def connect_non_hmp_def Let_def connect_cbtx_local split: list.split option.split)


text \<open>
  The seal manager is not among them: the block is registered and signed before the later
  checks run, and a rejection does not undo it.
\<close>

lemma rejection_keeps_signature:
  assumes "fst (hmp_section env False False e b s) = Connected"
  shows "fst (ConnectBlock env False False e b (Some r) s) = Invalid r"
    and "g_seal_manager (snd (ConnectBlock env False False e b (Some r) s)) = g_seal_manager (snd (ConnectBlock env False False e b None s))"
  using assms by (cases "hmp_section env False False e b s"; simp add: ConnectBlock_def apply_deferred_def Let_def)+

section \<open>Seal-weighted work\<close>

lemma weighted_work_spec:
  assumes "good_bits nBits" "20000 \<le> target nBits" "target nBits < 2 ^ 256 - 1" "wf256 parent"
    and "val parent + 2 * (2 ^ 256 div (target nBits + 1)) < 2 ^ 256"
  obtains r where "weighted_work parent nBits w = Some r" "wf256 r"
    "val r = val parent + 2 ^ 256 div (target nBits + 1) * min w 20000 div 10000"
proof -
  let ?proof = "2 ^ 256 div (target nBits + 1)"
  obtain q where q: "GetBlockProof nBits = Some q" "wf256 q" "val q = ?proof" using GetBlockProof_spec [OF assms(1,3)] .
  have w: "val (of_uint64 (of_nat (clamped_weight w))) = min w 20000"
    by (simp add: val_of_uint64 clamped_weight_def unat_of_nat)
  have "?proof * (target nBits + 1) \<le> 2 ^ 256" by (rule div_times_less_eq_dividend)
  then have "?proof * 20001 \<le> 2 ^ 256" using assms(2) mult_le_mono2 [of 20001 "target nBits + 1" ?proof] by linarith
  moreover have "?proof * min w 20000 \<le> ?proof * 20000" by simp
  moreover have "0 < ?proof" using assms(3) by (simp add: div_greater_zero_iff)
  ultimately have small: "?proof * min w 20000 < 2 ^ 256" by linarith
  have m: "val (uint_mul q (of_uint64 (of_nat (clamped_weight w)))) = ?proof * min w 20000"
    "wf256 (uint_mul q (of_uint64 (of_nat (clamped_weight w))))"
    using val_uint_mul [OF q(2) wf256_of_uint64] small by (simp_all add: q(3) w)
  obtain d where d: "uint_div (uint_mul q (of_uint64 (of_nat (clamped_weight w)))) (of_uint64 10000) = Some d" "wf256 d"
    "val d = ?proof * min w 20000 div 10000"
    using uint_div_spec [OF m(2) wf256_of_uint64, of 10000] m(1) by (auto simp: val_of_uint64)
  have "?proof * min w 20000 div 10000 \<le> ?proof * 20000 div 10000" by (intro div_le_mono mult_le_mono2) simp
  then have "val d \<le> 2 * ?proof" by (simp add: d(3))
  then have "val (uint_add parent d) = val parent + val d" "wf256 (uint_add parent d)"
    using assms(4,5) d(2) by (simp_all add: val_uint_add256)
  then show ?thesis using that q(1) d by (simp add: weighted_work_def)
qed



lemma bits_170ffff0:
  "20000 \<le> target 0x170ffff0" "target 0x170ffff0 < 2 ^ 256 - 1" "val (of_uint64 5) + 2 * (2 ^ 256 div (target 0x170ffff0 + 1)) < 2 ^ 256"
proof -
  have t: "target 0x170ffff0 = 1048560 * 256 ^ 20" by (rule target_170ffff0)
  show "20000 \<le> target 0x170ffff0" "target 0x170ffff0 < 2 ^ 256 - 1" unfolding t by simp_all
  have "(2 :: nat) ^ 256 div (target 0x170ffff0 + 1) \<le> 2 ^ 256 div 4"
    unfolding t by (intro div_le_mono2) simp_all
  then show "val (of_uint64 5) + 2 * (2 ^ 256 div (target 0x170ffff0 + 1)) < 2 ^ 256" by (simp add: val_of_uint64)
qed


lemma plain_work_weighted:
  assumes "good_bits nBits" "20000 \<le> target nBits" "target nBits < 2 ^ 256 - 1" "wf256 parent"
    and "val parent + 2 * (2 ^ 256 div (target nBits + 1)) < 2 ^ 256"
  shows "plain_work parent nBits = weighted_work parent nBits 10000"
proof -
  obtain q where q: "GetBlockProof nBits = Some q" "wf256 q" "val q = 2 ^ 256 div (target nBits + 1)"
    using GetBlockProof_spec [OF assms(1,3)] .
  obtain r where r: "weighted_work parent nBits 10000 = Some r" "wf256 r"
    "val r = val parent + 2 ^ 256 div (target nBits + 1) * min 10000 20000 div 10000"
    using weighted_work_spec [OF assms] .
  have "val (uint_add parent q) = val parent + val q" "wf256 (uint_add parent q)"
    using assms(4,5) q by (simp_all add: val_uint_add256)
  then have "uint_add parent q = r" using r q by (intro val_inj) (simp_all add: wf256_def)
  then show ?thesis using q(1) r(1) by (simp add: plain_work_def)
qed

section \<open>Work after a restart\<close>

definition work_current :: "entry \<Rightarrow> ('k, 's) hmp_node \<Rightarrow> bool" where
  "work_current e s =
     (weighted_work (parent_work s e) (ix_nBits (bdata e)) (nSealWeight (m_index s (entry_hash e))) =
      Some (nChainSealWork (m_index s (entry_hash e))))"

definition has_parent :: "entry \<Rightarrow> bool" where
  "has_parent e = (case pprev e of None \<Rightarrow> True | Some q \<Rightarrow> entry_hash q \<noteq> entry_hash e)"

text \<open>A target and a parent for which the 256-bit arithmetic is exact.\<close>

definition work_exact :: "entry \<Rightarrow> ('k, 's) hmp_node \<Rightarrow> bool" where
  "work_exact e s =
     (let nBits = ix_nBits (bdata e)
      in good_bits nBits \<and> 20000 \<le> target nBits \<and> target nBits < 2 ^ 256 - 1 \<and> wf256 (parent_work s e) \<and>
         val (parent_work s e) + 2 * (2 ^ 256 div (target nBits + 1)) < 2 ^ 256)"

lemma parent_work_set [simp]:
  "has_parent e \<Longrightarrow> parent_work (set_work w k e s) e = parent_work s e"
  "has_parent e \<Longrightarrow> parent_work (set_miner pk e s) e = parent_work s e"
  by (auto simp: parent_work_def has_parent_def m_index_set_work m_index_set_miner split: option.splits)

lemma parent_work_fields [simp]:
  "parent_work (s\<lparr>setBlockIndexCandidates := c\<rparr>) e = parent_work s e" "parent_work (s\<lparr>g_seal_manager := m\<rparr>) e = parent_work s e"
  by (simp_all add: parent_work_def split: option.split)

lemma work_current_fields [simp]:
  "work_current e (s\<lparr>setBlockIndexCandidates := c\<rparr>) = work_current e s" "work_current e (s\<lparr>g_seal_manager := m\<rparr>) = work_current e s"
  by (simp_all add: work_current_def)

lemma work_current_weighted:
  assumes "has_parent e" "work_exact e s"
  shows "work_current e (set_work w (weighted_work (parent_work s e) (ix_nBits (bdata e)) w) e s)"
proof -
  obtain r where "weighted_work (parent_work s e) (ix_nBits (bdata e)) w = Some r"
    using weighted_work_spec [of "ix_nBits (bdata e)" "parent_work s e" w] assms(2) by (auto simp: work_exact_def Let_def)
  then show ?thesis using assms(1) by (simp add: work_current_def) (simp add: set_work_def)
qed

lemma work_current_plain:
  assumes "has_parent e" "work_exact e s"
  shows "work_current e (set_work 10000 (plain_work (parent_work s e) (ix_nBits (bdata e))) e s)"
  using work_current_weighted [OF assms, of 10000] plain_work_weighted [of "ix_nBits (bdata e)" "parent_work s e"] assms(2)
  by (simp add: work_exact_def Let_def)

lemma work_exact_fields [simp]:
  "work_exact e (s\<lparr>setBlockIndexCandidates := c\<rparr>) = work_exact e s"
  "has_parent e \<Longrightarrow> work_exact e (set_miner pk e s) = work_exact e s"
  by (simp_all add: work_exact_def)

lemma connect_sealed_work:
  assumes "has_parent e" "work_exact e s" "fst (connect_sealed env fj st e c s d) = Connected"
  shows "work_current e (fst (snd (connect_sealed env fj st e c s d)))"
  using assms work_current_weighted [OF assms(1), of "s\<lparr>setBlockIndexCandidates := setBlockIndexCandidates s - {entry_hash e}\<rparr>"]
    work_current_weighted [OF assms(1,2)]
  by (auto simp: connect_sealed_def Let_def split: sum.splits prod.splits)

lemma connect_cbtx_work:
  assumes "has_parent e" "work_exact e s" "fst (connect_cbtx env fj st e b tx c s) = Connected"
  shows "work_current e (fst (snd (connect_cbtx env fj st e b tx c s)))"
proof -
  let ?s = "set_miner (cb_minerIdentity c) e s"
  have x: "work_exact e ?s" using assms by simp
  show ?thesis
    using assms(3) connect_sealed_work [OF assms(1) x] work_current_plain [OF assms(1) x]
    by (auto simp: connect_cbtx_def Let_def split: option.splits if_splits)
qed

text \<open>A block whose weight and work the section sets: all but an HMP coinbase without a payload of version 4 or later.\<close>

definition sets_work :: "('sk, 'k, 's) hmp_env \<Rightarrow> bool \<Rightarrow> entry \<Rightarrow> ('k, 's) hmp_block \<Rightarrow> bool" where
  "sets_work env fv e b =
     (DeploymentActiveAt (nHeight e) (HMPHeight (c_params env)) \<and>
      (fv \<or> GetHMPStage (nHeight e) (c_params env) = 1 \<or> hmp_payload b \<noteq> None \<or>
       (case bl_vtx b of [] \<Rightarrow> True | tx # _ \<Rightarrow> \<not> is_cbtx tx)))"

lemma hmp_section_work:
  assumes "has_parent e" "work_exact e s" "sets_work env fv e b" "fj \<or> fv \<or> at_parent env e s"
    and "fst (hmp_section env fj fv e b s) = Connected"
  shows "work_current e (fst (snd (hmp_section env fj fv e b s)))"
proof (cases fv)
  case True
  then show ?thesis using assms(3) work_current_weighted [OF assms(1,2)] by (simp add: hmp_section_def connect_non_hmp_def Let_def sets_work_def)
next
  case False
  then have a: "hmp_anchor env fj e s = (True, s)" using assms(4) hmp_anchor_idle by blast
  show ?thesis
    using False a assms(3,5) work_current_plain [OF assms(1,2)] connect_cbtx_work [OF assms(1,2)]
    by (auto simp: hmp_section_def connect_non_hmp_def Let_def sets_work_def hmp_payload_def split: list.splits option.splits if_splits)
qed

lemma index_work_current: "work_current e s \<Longrightarrow> m_index (index_work e s) = m_index s"
  by (simp add: work_current_def index_work_def set_work_def Let_def fun_eq_iff)

lemma work_current_apply [simp]: "work_current e (apply_deferred fv e' d s) = work_current e s"
proof -
  have "m_index (apply_deferred fv e' d s) = m_index s" by (simp add: apply_deferred_def Let_def)
  then show ?thesis by (simp add: work_current_def parent_work_def cong: option.case_cong)
qed

text \<open>
  C15: the seal-weighted work that connecting a block stores in its index entry is the work that
  loading the block index after a restart computes from the stored weight: the
  recomputation changes nothing, whichever branch of the HMP section set the weight.
\<close>

theorem restart_reproduces_work:
  assumes "ConnectBlock env fj fv e b other s = (Connected, s')" "sets_work env fv e b" "has_parent e" "work_exact e s"
    and "fj \<or> fv \<or> at_parent env e s"
  shows "m_index (index_work e s') = m_index s'"
proof -
  obtain v1 s1 d where r: "hmp_section env fj fv e b s = (v1, s1, d)" by (metis prod_cases3)
  have v1: "v1 = Connected" using assms(1) r by (cases v1) (simp_all add: ConnectBlock_def)
  then have "work_current e s1" using hmp_section_work [OF assms(3,4,2,5)] r by simp
  moreover have "s' = s1 \<or> s' = apply_deferred fv e d s1"
    using assms(1) r v1 by (auto simp: ConnectBlock_def split: option.splits if_splits)
  ultimately have "work_current e s'" by auto
  then show ?thesis by (rule index_work_current)
qed

theorem restart_reproduces_work_witness:
  "let s' = snd (ConnectBlock toy_env False False toy_entry2 toy_block None (toy_node\<lparr>m_hmp_state_anchor := entry_hash toy_entry1\<rparr>))
   in m_index (index_work toy_entry2 s') = m_index s'"
proof -
  let ?s = "toy_node\<lparr>m_hmp_state_anchor := entry_hash toy_entry1\<rparr>"
  let ?r = "ConnectBlock toy_env False False toy_entry2 toy_block None ?s"
  have "fst ?r = Connected"
    using toy_history [of toy_entry1] by (intro toy_connects [where q = toy_entry1]) simp_all
  then have v: "?r = (Connected, snd ?r)" by (simp add: prod_eq_iff)
  have p: "at_parent toy_env toy_entry2 ?s"
    by (simp add: at_parent_def DeploymentActiveAt_def toy_env_def)
  have w: "sets_work toy_env False toy_entry2 toy_block"
    using toy_payload(2) by (simp add: sets_work_def toy_env_def DeploymentActiveAt_def)
  have h: "has_parent toy_entry2" by (simp add: has_parent_def)
  have b: "ix_nBits (bdata toy_entry2) = 0x170ffff0" by (simp add: toy_entry2_def BuildSkip_def toy_data_def)
  have q: "parent_work ?s toy_entry2 = of_uint64 0" by (simp add: parent_work_def toy_node_def)
  have "val (of_uint64 0) + 2 * (2 ^ 256 div (target 0x170ffff0 + 1)) < 2 ^ 256"
    using bits_170ffff0(3) by (simp add: val_of_uint64)
  then have x: "work_exact toy_entry2 ?s"
    using good_bits_170ffff0 bits_170ffff0(1,2) wf256_of_uint64 [of 0] by (simp only: work_exact_def b q Let_def simp_thms)
  show ?thesis using restart_reproduces_work [OF v w h x] p by (simp add: Let_def)
qed

end
