(* ===== verification/Drone_Wire.thy ===== *)
theory Drone_Wire
  imports Serialize Consensus_Params
begin

text \<open>
  The data of the drone registry and its encoding: \<^verbatim>\<open>COutPoint\<close> (\<^verbatim>\<open>primitives/transaction.h\<close>),
  \<^verbatim>\<open>CDroneEntry\<close> (\<^verbatim>\<open>evo/dronelist.h\<close>), the registration payload \<^verbatim>\<open>CDroneRegTx\<close> and the rule on
  payout scripts (\<^verbatim>\<open>evo/inference_wire.h\<close>, \<^verbatim>\<open>evo/inference_wire.cpp\<close>), and \<^verbatim>\<open>GetTxPayload\<close>
  (\<^verbatim>\<open>evo/specialtx.h\<close>).
\<close>

section \<open>Entries\<close>

type_synonym uint160 = "8 word list"

datatype COutPoint = COutPoint (op_hash: uint256) (op_n: "32 word")

instantiation COutPoint :: linorder
begin

definition less_eq_COutPoint :: "COutPoint \<Rightarrow> COutPoint \<Rightarrow> bool" where
  "less_eq_COutPoint a b = (op_hash a < op_hash b \<or> op_hash a = op_hash b \<and> op_n a \<le> op_n b)"

definition less_COutPoint :: "COutPoint \<Rightarrow> COutPoint \<Rightarrow> bool" where
  "less_COutPoint a b = (op_hash a < op_hash b \<or> op_hash a = op_hash b \<and> op_n a < op_n b)"

instance
  by standard (auto simp: less_eq_COutPoint_def less_COutPoint_def COutPoint.expand)

end

record CDroneEntry =
  de_blsPubKeyHash :: uint160
  de_payoutScript :: script
  de_collateralOutpoint :: COutPoint
  de_irohNodeId :: uint256
  de_nHardwareClass :: "8 word"
  de_nModelTier :: "8 word"
  de_nRegisteredHeight :: int
  de_nLastSeenHeight :: int
  de_nLastPaidHeight :: int

record CDroneRegTx =
  dr_nVersion :: "16 word"
  dr_blsPubKeyHash :: uint160
  dr_vchBlsPubKey :: bytes
  dr_irohNodeId :: uint256
  dr_nHardwareClass :: "8 word"
  dr_nModelTier :: "8 word"
  dr_nCollateralIndex :: "32 word"
  dr_scriptPayout :: script
  dr_inputsHash :: uint256
  dr_vchSig :: bytes

definition TRANSACTION_DRONE_REGISTER :: nat where
  "TRANSACTION_DRONE_REGISTER = 11"

definition DRONE_REG_VERSION :: "16 word" where
  "DRONE_REG_VERSION = 1"

definition BLS_PUBKEY_SIZE :: nat where
  "BLS_PUBKEY_SIZE = 96"

definition BLS_SIGNATURE_SIZE :: nat where
  "BLS_SIGNATURE_SIZE = 48"

definition MAX_MODEL_TIER :: "8 word" where
  "MAX_MODEL_TIER = 3"

definition OP_RETURN :: "8 word" where
  "OP_RETURN = 0x6a"

definition IsValidDronePayoutScript :: "script \<Rightarrow> bool" where
  "IsValidDronePayoutScript s =
     (if length s = 0 \<or> length s > 40 then False else if s ! 0 = OP_RETURN then False else True)"

section \<open>Encodings\<close>

definition unser_uint160 :: "uint160 reader" where
  "unser_uint160 s = read_span 20 s"

definition ser_COutPoint :: "COutPoint \<Rightarrow> bytes" where
  "ser_COutPoint out = op_hash out @ ser_writedata32 (op_n out)"

definition unser_COutPoint :: "COutPoint reader" where
  "unser_COutPoint s = do { (h, s) \<leftarrow> unser_uint256 s; (n, s) \<leftarrow> ser_readdata32 s; Some (COutPoint h n, s) }"

text \<open>A script is a byte vector with no limit of its own: the compact size bounds it.\<close>

definition ser_CScript :: "script \<Rightarrow> bytes" where
  "ser_CScript s = ser_limited_bytes s"

definition unser_CScript :: "script reader" where
  "unser_CScript s = unser_limited_bytes (unat MAX_SIZE) s"

definition ser_CDroneEntry :: "CDroneEntry \<Rightarrow> bytes" where
  "ser_CDroneEntry e =
     de_blsPubKeyHash e @ ser_CScript (de_payoutScript e) @ ser_COutPoint (de_collateralOutpoint e) @ de_irohNodeId e @
     ser_writedata8 (de_nHardwareClass e) @ ser_writedata8 (de_nModelTier e) @
     ser_int32 (de_nRegisteredHeight e) @ ser_int32 (de_nLastSeenHeight e) @ ser_int32 (de_nLastPaidHeight e)"

definition unser_CDroneEntry :: "CDroneEntry reader" where
  "unser_CDroneEntry s =
     do {
       (blsPubKeyHash, s) \<leftarrow> unser_uint160 s;
       (payoutScript, s) \<leftarrow> unser_CScript s;
       (collateralOutpoint, s) \<leftarrow> unser_COutPoint s;
       (irohNodeId, s) \<leftarrow> unser_uint256 s;
       (nHardwareClass, s) \<leftarrow> ser_readdata8 s;
       (nModelTier, s) \<leftarrow> ser_readdata8 s;
       (nRegisteredHeight, s) \<leftarrow> unser_int32 s;
       (nLastSeenHeight, s) \<leftarrow> unser_int32 s;
       (nLastPaidHeight, s) \<leftarrow> unser_int32 s;
       Some (\<lparr>de_blsPubKeyHash = blsPubKeyHash, de_payoutScript = payoutScript, de_collateralOutpoint = collateralOutpoint,
              de_irohNodeId = irohNodeId, de_nHardwareClass = nHardwareClass, de_nModelTier = nModelTier,
              de_nRegisteredHeight = nRegisteredHeight, de_nLastSeenHeight = nLastSeenHeight, de_nLastPaidHeight = nLastPaidHeight\<rparr>, s)
     }"

text \<open>The part of the payload its signature covers, and the whole payload.\<close>

definition ser_reg_gethash :: "CDroneRegTx \<Rightarrow> bytes" where
  "ser_reg_gethash r =
     ser_writedata16 (dr_nVersion r) @
     (if dr_nVersion r = 0 \<or> dr_nVersion r > DRONE_REG_VERSION then []
      else dr_blsPubKeyHash r @ ser_limited_bytes (dr_vchBlsPubKey r) @ dr_irohNodeId r @
           ser_writedata8 (dr_nHardwareClass r) @ ser_writedata8 (dr_nModelTier r) @
           ser_writedata32 (dr_nCollateralIndex r) @ ser_CScript (dr_scriptPayout r) @ dr_inputsHash r)"

definition ser_CDroneRegTx :: "CDroneRegTx \<Rightarrow> bytes" where
  "ser_CDroneRegTx r =
     ser_reg_gethash r @
     (if dr_nVersion r = 0 \<or> dr_nVersion r > DRONE_REG_VERSION then [] else ser_limited_bytes (dr_vchSig r))"

definition default_reg :: CDroneRegTx where
  "default_reg = \<lparr>dr_nVersion = DRONE_REG_VERSION, dr_blsPubKeyHash = replicate 20 0, dr_vchBlsPubKey = [], dr_irohNodeId = replicate 32 0,
     dr_nHardwareClass = 0, dr_nModelTier = 0, dr_nCollateralIndex = 0, dr_scriptPayout = [], dr_inputsHash = replicate 32 0, dr_vchSig = []\<rparr>"

definition unser_CDroneRegTx :: "CDroneRegTx reader" where
  "unser_CDroneRegTx s =
     do {
       (nVersion, s) \<leftarrow> ser_readdata16 s;
       if nVersion = 0 \<or> nVersion > DRONE_REG_VERSION then Some (default_reg\<lparr>dr_nVersion := nVersion\<rparr>, s)
       else do {
         (blsPubKeyHash, s) \<leftarrow> unser_uint160 s;
         (vchBlsPubKey, s) \<leftarrow> unser_limited_bytes BLS_PUBKEY_SIZE s;
         (irohNodeId, s) \<leftarrow> unser_uint256 s;
         (nHardwareClass, s) \<leftarrow> ser_readdata8 s;
         (nModelTier, s) \<leftarrow> ser_readdata8 s;
         (nCollateralIndex, s) \<leftarrow> ser_readdata32 s;
         (scriptPayout, s) \<leftarrow> unser_CScript s;
         (inputsHash, s) \<leftarrow> unser_uint256 s;
         (vchSig, s) \<leftarrow> unser_limited_bytes BLS_SIGNATURE_SIZE s;
         Some (\<lparr>dr_nVersion = nVersion, dr_blsPubKeyHash = blsPubKeyHash, dr_vchBlsPubKey = vchBlsPubKey, dr_irohNodeId = irohNodeId,
                dr_nHardwareClass = nHardwareClass, dr_nModelTier = nModelTier, dr_nCollateralIndex = nCollateralIndex,
                dr_scriptPayout = scriptPayout, dr_inputsHash = inputsHash, dr_vchSig = vchSig\<rparr>, s)
       }
     }"

definition GetTxPayload :: "'a reader \<Rightarrow> bytes \<Rightarrow> 'a option" where
  "GetTxPayload rd payload = (case rd payload of Some (obj, []) \<Rightarrow> Some obj | _ \<Rightarrow> None)"

section \<open>Round trips\<close>

interpretation h160: canonical_format "\<lambda>h. h" unser_uint160 "\<lambda>h. length h = 20"
  by unfold_locales (auto simp: unser_uint160_def read_span_append read_span_iff)

lemma scripts_format: "canonical_format ser_CScript unser_CScript (\<lambda>v. length v \<le> 0x02000000)"
proof -
  have "unat MAX_SIZE = 0x02000000" by (simp add: MAX_SIZE_def)
  then have "ser_CScript = ser_limited_bytes" "unser_CScript = unser_limited_bytes 0x02000000"
    by (simp_all add: fun_eq_iff ser_CScript_def unser_CScript_def)
  then show ?thesis using limited_bytes_format [OF order_refl] by simp
qed

interpretation cscript: canonical_format ser_CScript unser_CScript "\<lambda>v. length v \<le> 0x02000000"
  by (rule scripts_format)

interpretation pubkey_bytes: canonical_format ser_limited_bytes "unser_limited_bytes BLS_PUBKEY_SIZE" "\<lambda>v. length v \<le> BLS_PUBKEY_SIZE"
  by (rule limited_bytes_format) (simp add: BLS_PUBKEY_SIZE_def)

interpretation sig_bytes: canonical_format ser_limited_bytes "unser_limited_bytes BLS_SIGNATURE_SIZE" "\<lambda>v. length v \<le> BLS_SIGNATURE_SIZE"
  by (rule limited_bytes_format) (simp add: BLS_SIGNATURE_SIZE_def)

definition outpoint_ok :: "COutPoint \<Rightarrow> bool" where
  "outpoint_ok out = (length (op_hash out) = 32)"

interpretation outpoint: canonical_format ser_COutPoint unser_COutPoint outpoint_ok
  by unfold_locales
    (auto simp: ser_COutPoint_def unser_COutPoint_def outpoint_ok_def h256.roundtrip u32.roundtrip h256.unser_iff u32.unser_iff
      split: bind_splits)

definition entry_ok :: "CDroneEntry \<Rightarrow> bool" where
  "entry_ok e =
     (length (de_blsPubKeyHash e) = 20 \<and> length (de_payoutScript e) \<le> 0x02000000 \<and> outpoint_ok (de_collateralOutpoint e) \<and>
      length (de_irohNodeId e) = 32 \<and> int32_ok (de_nRegisteredHeight e) \<and> int32_ok (de_nLastSeenHeight e) \<and> int32_ok (de_nLastPaidHeight e))"

lemmas drone_field_roundtrips = h160.roundtrip h256.roundtrip u8.roundtrip u16.roundtrip u32.roundtrip i32.roundtrip
  cscript.roundtrip outpoint.roundtrip pubkey_bytes.roundtrip sig_bytes.roundtrip

lemmas drone_field_iffs = h160.unser_iff h256.unser_iff u8.unser_iff u16.unser_iff u32.unser_iff i32.unser_iff
  cscript.unser_iff outpoint.unser_iff pubkey_bytes.unser_iff sig_bytes.unser_iff

interpretation drone_entry: canonical_format ser_CDroneEntry unser_CDroneEntry entry_ok
  by unfold_locales
    (auto simp: ser_CDroneEntry_def unser_CDroneEntry_def entry_ok_def drone_field_roundtrips drone_field_iffs split: bind_splits)

definition reg_ok :: "CDroneRegTx \<Rightarrow> bool" where
  "reg_ok r =
     (if dr_nVersion r = 0 \<or> dr_nVersion r > DRONE_REG_VERSION then r = default_reg\<lparr>dr_nVersion := dr_nVersion r\<rparr>
      else length (dr_blsPubKeyHash r) = 20 \<and> length (dr_vchBlsPubKey r) \<le> BLS_PUBKEY_SIZE \<and> length (dr_irohNodeId r) = 32 \<and>
           length (dr_scriptPayout r) \<le> 0x02000000 \<and> length (dr_inputsHash r) = 32 \<and> length (dr_vchSig r) \<le> BLS_SIGNATURE_SIZE)"

lemma reg_roundtrip: "reg_ok r \<Longrightarrow> unser_CDroneRegTx (ser_CDroneRegTx r @ rest) = Some (r, rest)"
  by (auto simp: reg_ok_def ser_CDroneRegTx_def ser_reg_gethash_def unser_CDroneRegTx_def drone_field_roundtrips split: if_splits)

lemma reg_canonical: "unser_CDroneRegTx s = Some (r, rest) \<Longrightarrow> reg_ok r \<and> s = ser_CDroneRegTx r @ rest"
  by (auto simp: reg_ok_def ser_CDroneRegTx_def ser_reg_gethash_def unser_CDroneRegTx_def drone_field_iffs split: if_splits bind_splits)

interpretation drone_reg: canonical_format ser_CDroneRegTx unser_CDroneRegTx reg_ok
  by unfold_locales (simp_all add: reg_roundtrip reg_canonical)

lemma GetTxPayload_ser: "reg_ok r \<Longrightarrow> GetTxPayload unser_CDroneRegTx (ser_CDroneRegTx r) = Some r"
  using drone_reg.roundtrip [of r "[]"] by (simp add: GetTxPayload_def)

end
