(* ===== verification/Drone_List.thy ===== *)
theory Drone_List
  imports Drone_Wire Ordered_Map Consensus_Params "HOL-Library.Product_Lexorder"
begin

text \<open>
  \<^verbatim>\<open>evo/dronelist.h\<close> and \<^verbatim>\<open>evo/dronelist.cpp\<close>: the deterministic list of inference drones, its
  transition by a block, the selection of the drone a block pays, and the diffs between two
  lists.  A \<^verbatim>\<open>std::runtime_error\<close> is a value of the error type.
\<close>

section \<open>Exceptions\<close>

datatype drone_error = DuplicateDrone | DuplicateCollateral | NoSuchDrone | ImmutableFields | BadPayload | NullParent | WrongType | OutOfRange

type_synonym 'a result = "drone_error + 'a"

definition bindE :: "'a result \<Rightarrow> ('a \<Rightarrow> 'b result) \<Rightarrow> 'b result" where
  "bindE m f = (case m of Inl e \<Rightarrow> Inl e | Inr x \<Rightarrow> f x)"

fun foldE :: "('x \<Rightarrow> 'a \<Rightarrow> 'a result) \<Rightarrow> 'x list \<Rightarrow> 'a \<Rightarrow> 'a result" where
  "foldE f [] a = Inr a"
| "foldE f (x # xs) a = bindE (f x a) (foldE f xs)"

section \<open>The list\<close>

record CDroneList =
  dl_blockHash :: uint256
  dl_nHeight :: int
  droneMap :: "(uint160, CDroneEntry) omap"
  collateralIndex :: "(COutPoint, uint160) omap"

definition new_drone_list :: "uint256 \<Rightarrow> int \<Rightarrow> CDroneList" where
  "new_drone_list blockHash height = \<lparr>dl_blockHash = blockHash, dl_nHeight = height, droneMap = [], collateralIndex = []\<rparr>"

definition GetDrone :: "CDroneList \<Rightarrow> uint160 \<Rightarrow> CDroneEntry option" where
  "GetDrone l pubKeyHash = om_find (droneMap l) pubKeyHash"

definition GetDroneByCollateral :: "CDroneList \<Rightarrow> COutPoint \<Rightarrow> CDroneEntry option" where
  "GetDroneByCollateral l outpoint =
     (case om_find (collateralIndex l) outpoint of Some pkh \<Rightarrow> GetDrone l pkh | None \<Rightarrow> None)"

definition AddDrone :: "CDroneEntry \<Rightarrow> CDroneList \<Rightarrow> CDroneList result" where
  "AddDrone entry l =
     (if om_find (droneMap l) (de_blsPubKeyHash entry) \<noteq> None then Inl DuplicateDrone
      else if om_find (collateralIndex l) (de_collateralOutpoint entry) \<noteq> None then Inl DuplicateCollateral
      else Inr (l\<lparr>droneMap := om_set (de_blsPubKeyHash entry) entry (droneMap l),
                  collateralIndex := om_set (de_collateralOutpoint entry) (de_blsPubKeyHash entry) (collateralIndex l)\<rparr>))"

definition UpdateDrone :: "CDroneEntry \<Rightarrow> CDroneList \<Rightarrow> CDroneList result" where
  "UpdateDrone entry l =
     (case om_find (droneMap l) (de_blsPubKeyHash entry) of
        None \<Rightarrow> Inl NoSuchDrone
      | Some old \<Rightarrow>
          if de_collateralOutpoint old \<noteq> de_collateralOutpoint entry \<or> de_payoutScript old \<noteq> de_payoutScript entry
          then Inl ImmutableFields
          else Inr (l\<lparr>droneMap := om_set (de_blsPubKeyHash entry) entry (droneMap l)\<rparr>))"

definition RemoveDrone :: "uint160 \<Rightarrow> CDroneList \<Rightarrow> CDroneList result" where
  "RemoveDrone pubKeyHash l =
     (case om_find (droneMap l) pubKeyHash of
        None \<Rightarrow> Inl NoSuchDrone
      | Some old \<Rightarrow> Inr (l\<lparr>droneMap := om_erase pubKeyHash (droneMap l),
                           collateralIndex := om_erase (de_collateralOutpoint old) (collateralIndex l)\<rparr>))"

section \<open>Selection of the payee\<close>

definition IsEligible :: "CDroneEntry \<Rightarrow> int \<Rightarrow> Params \<Rightarrow> bool" where
  "IsEligible entry nBlockHeight p =
     (\<not> (nDroneMaxAge p > 0 \<and> nBlockHeight - de_nLastSeenHeight entry > nDroneMaxAge p))"

definition EffectiveLastPaidHeight :: "CDroneEntry \<Rightarrow> int" where
  "EffectiveLastPaidHeight entry =
     (if de_nLastPaidHeight entry = 0 then de_nRegisteredHeight entry else de_nLastPaidHeight entry)"

definition CompareDronesByLastPaid :: "CDroneEntry \<Rightarrow> CDroneEntry \<Rightarrow> bool" where
  "CompareDronesByLastPaid a b =
     (let ah = EffectiveLastPaidHeight a; bh = EffectiveLastPaidHeight b
      in if ah = bh then de_blsPubKeyHash a < de_blsPubKeyHash b else ah < bh)"

definition better_payee :: "int \<Rightarrow> Params \<Rightarrow> CDroneEntry \<Rightarrow> CDroneEntry option \<Rightarrow> CDroneEntry option" where
  "better_payee nBlockHeight p entry best =
     (if \<not> IsEligible entry nBlockHeight p then best
      else case best of
             None \<Rightarrow> Some entry
           | Some b \<Rightarrow> if CompareDronesByLastPaid entry b then Some entry else best)"

definition GetPayee :: "CDroneList \<Rightarrow> int \<Rightarrow> Params \<Rightarrow> CDroneEntry option" where
  "GetPayee l nBlockHeight p = fold (\<lambda>(pkh, entry). better_payee nBlockHeight p entry) (droneMap l) None"

text \<open>\<^verbatim>\<open>std::sort\<close> by the comparison, which is total on entries with different keys.\<close>

fun insert_drone :: "CDroneEntry \<Rightarrow> CDroneEntry list \<Rightarrow> CDroneEntry list" where
  "insert_drone e [] = [e]"
| "insert_drone e (x # xs) = (if CompareDronesByLastPaid e x then e # x # xs else x # insert_drone e xs)"

definition GetProjectedPayees :: "CDroneList \<Rightarrow> int \<Rightarrow> Params \<Rightarrow> nat \<Rightarrow> CDroneEntry list" where
  "GetProjectedPayees l nBlockHeight p nCount =
     take nCount (foldr insert_drone (filter (\<lambda>e. IsEligible e nBlockHeight p) (map snd (droneMap l))) [])"

section \<open>Diffs\<close>

record CDroneListDiff =
  df_nHeight :: int
  addedDrones :: "CDroneEntry list"
  updatedDrones :: "(uint160, CDroneEntry) omap"
  removedDrones :: "(uint160, unit) omap"

definition empty_diff :: CDroneListDiff where
  "empty_diff = \<lparr>df_nHeight = - 1, addedDrones = [], updatedDrones = [], removedDrones = []\<rparr>"

definition diff_entry :: "CDroneList \<Rightarrow> uint160 \<times> CDroneEntry \<Rightarrow> CDroneListDiff \<Rightarrow> CDroneListDiff" where
  "diff_entry from kv diff =
     (let (pkh, toEntry) = kv
      in case om_find (droneMap from) pkh of
           None \<Rightarrow> diff\<lparr>addedDrones := addedDrones diff @ [toEntry]\<rparr>
         | Some old \<Rightarrow>
             if old = toEntry then diff
             else if de_collateralOutpoint old \<noteq> de_collateralOutpoint toEntry \<or> de_payoutScript old \<noteq> de_payoutScript toEntry
             then diff\<lparr>removedDrones := om_set pkh () (removedDrones diff), addedDrones := addedDrones diff @ [toEntry]\<rparr>
             else diff\<lparr>updatedDrones := om_set pkh toEntry (updatedDrones diff)\<rparr>)"

definition BuildDiff :: "CDroneList \<Rightarrow> CDroneList \<Rightarrow> CDroneListDiff" where
  "BuildDiff from to =
     fold (\<lambda>(pkh, fromEntry) diff.
             if om_find (droneMap to) pkh = None then diff\<lparr>removedDrones := om_set pkh () (removedDrones diff)\<rparr> else diff)
       (droneMap from) (fold (diff_entry from) (droneMap to) empty_diff)"

definition ApplyDiff :: "uint256 \<Rightarrow> int \<Rightarrow> CDroneListDiff \<Rightarrow> CDroneList \<Rightarrow> CDroneList result" where
  "ApplyDiff hash height diff l =
     bindE (foldE RemoveDrone (map fst (removedDrones diff)) (l\<lparr>dl_blockHash := hash, dl_nHeight := height\<rparr>)) (\<lambda>l.
     bindE (foldE UpdateDrone (map snd (updatedDrones diff)) l)
       (foldE AddDrone (addedDrones diff)))"

section \<open>The transition by a block\<close>

record drone_tx =
  dt_hash :: uint256
  dt_IsCoinBase :: bool
  dt_prevouts :: "COutPoint list"
  dt_vout :: "(CAmount \<times> script) list"
  dt_IsSpecialTxVersion :: bool
  dt_nType :: nat
  dt_vExtraPayload :: bytes

definition drone_payload :: "drone_tx \<Rightarrow> CDroneRegTx option" where
  "drone_payload tx = (if dt_nType tx \<noteq> TRANSACTION_DRONE_REGISTER then None else GetTxPayload unser_CDroneRegTx (dt_vExtraPayload tx))"

definition spend_collateral :: "COutPoint \<Rightarrow> CDroneList \<Rightarrow> CDroneList result" where
  "spend_collateral prevout l =
     (case GetDroneByCollateral l prevout of
        Some spent \<Rightarrow> RemoveDrone (de_blsPubKeyHash spent) l
      | None \<Rightarrow> Inr l)"

definition new_drone :: "drone_tx \<Rightarrow> CDroneRegTx \<Rightarrow> int \<Rightarrow> CDroneEntry" where
  "new_drone tx reg height =
     \<lparr>de_blsPubKeyHash = dr_blsPubKeyHash reg, de_payoutScript = dr_scriptPayout reg,
      de_collateralOutpoint = COutPoint (dt_hash tx) (dr_nCollateralIndex reg), de_irohNodeId = dr_irohNodeId reg,
      de_nHardwareClass = dr_nHardwareClass reg, de_nModelTier = dr_nModelTier reg,
      de_nRegisteredHeight = height, de_nLastSeenHeight = height, de_nLastPaidHeight = 0\<rparr>"

definition register_drone :: "Params \<Rightarrow> int \<Rightarrow> drone_tx \<Rightarrow> CDroneRegTx \<Rightarrow> CDroneList \<Rightarrow> CDroneList result" where
  "register_drone p height tx reg l =
     (case GetDrone l (dr_blsPubKeyHash reg) of
        Some existing \<Rightarrow> UpdateDrone (existing\<lparr>de_nLastSeenHeight := height\<rparr>) l
      | None \<Rightarrow>
          if nDroneCollateralAmount p \<le> 0 then Inr l
          else if unat (dr_nCollateralIndex reg) \<ge> length (dt_vout tx) then Inr l
          else if fst (dt_vout tx ! unat (dr_nCollateralIndex reg)) \<noteq> nDroneCollateralAmount p then Inr l
          else if \<not> IsValidDronePayoutScript (dr_scriptPayout reg) then Inr l
          else AddDrone (new_drone tx reg height) l)"

definition apply_tx :: "Params \<Rightarrow> int \<Rightarrow> drone_tx \<Rightarrow> CDroneList \<Rightarrow> CDroneList result" where
  "apply_tx p height tx l =
     (if dt_IsCoinBase tx then Inr l
      else bindE (foldE spend_collateral (dt_prevouts tx) l) (\<lambda>l.
             if \<not> dt_IsSpecialTxVersion tx \<or> dt_nType tx \<noteq> TRANSACTION_DRONE_REGISTER then Inr l
             else case drone_payload tx of
                    None \<Rightarrow> Inl BadPayload
                  | Some reg \<Rightarrow> register_drone p height tx reg l))"

definition BuildListFromBlock :: "Params \<Rightarrow> drone_tx list \<Rightarrow> int \<Rightarrow> CDroneList \<Rightarrow> CDroneList result" where
  "BuildListFromBlock p vtx height prevList =
     (let newList = prevList\<lparr>dl_blockHash := replicate 32 0, dl_nHeight := height\<rparr>
      in bindE (case GetPayee prevList height p of
                  Some payee \<Rightarrow> UpdateDrone (payee\<lparr>de_nLastPaidHeight := height\<rparr>) newList
                | None \<Rightarrow> Inr newList)
           (foldE (apply_tx p height) vtx))"

definition IsDronePayoutEffective :: "Params \<Rightarrow> bool \<Rightarrow> int \<Rightarrow> bool" where
  "IsDronePayoutEffective p sporkActive height = (if \<not> IsDronePayoutActive p height then False else sporkActive)"

section \<open>Well-formed lists\<close>

definition drone_list_wf :: "CDroneList \<Rightarrow> bool" where
  "drone_list_wf l =
     (om_wf (droneMap l) \<and> om_wf (collateralIndex l) \<and>
      (\<forall>k e. om_find (droneMap l) k = Some e \<longrightarrow>
             de_blsPubKeyHash e = k \<and> om_find (collateralIndex l) (de_collateralOutpoint e) = Some k) \<and>
      (\<forall>c k. om_find (collateralIndex l) c = Some k \<longrightarrow>
             (\<exists>e. om_find (droneMap l) k = Some e \<and> de_collateralOutpoint e = c)))"

lemma drone_list_wfD:
  assumes "drone_list_wf l"
  shows "om_wf (droneMap l)" "om_wf (collateralIndex l)"
    and "om_find (droneMap l) k = Some e \<Longrightarrow> de_blsPubKeyHash e = k"
    and "om_find (droneMap l) k = Some e \<Longrightarrow> om_find (collateralIndex l) (de_collateralOutpoint e) = Some k"
  using assms by (auto simp: drone_list_wf_def)

lemma drone_list_wf_index:
  "drone_list_wf l \<Longrightarrow>
   om_find (collateralIndex l) c = Some k \<longleftrightarrow> (\<exists>e. om_find (droneMap l) k = Some e \<and> de_collateralOutpoint e = c)"
  by (auto simp: drone_list_wf_def)

lemma same_collateral:
  "drone_list_wf l \<Longrightarrow> om_find (droneMap l) k = Some e \<Longrightarrow> om_find (droneMap l) k' = Some e' \<Longrightarrow>
   de_collateralOutpoint e = de_collateralOutpoint e' \<Longrightarrow> k = k'"
  by (metis drone_list_wfD(4) option.inject)

lemma drone_list_wf_new [simp, intro]: "drone_list_wf (new_drone_list h n)"
  by (simp add: drone_list_wf_def new_drone_list_def)

lemma drone_list_wf_header [simp]: "drone_list_wf (l\<lparr>dl_blockHash := h\<rparr>) = drone_list_wf l" "drone_list_wf (l\<lparr>dl_nHeight := n\<rparr>) = drone_list_wf l"
  by (simp_all add: drone_list_wf_def)

text \<open>The map of drones determines the collateral index.\<close>

lemma drone_list_eqI:
  assumes "drone_list_wf l" "drone_list_wf l'"
    and "dl_blockHash l = dl_blockHash l'" "dl_nHeight l = dl_nHeight l'" "om_find (droneMap l) = om_find (droneMap l')"
  shows "l = (l' :: CDroneList)"
proof -
  have "droneMap l = droneMap l'" using assms drone_list_wfD(1) by (blast intro: om_ext)
  moreover have "om_find (collateralIndex l) c = om_find (collateralIndex l') c" for c
    using drone_list_wf_index [OF assms(1)] drone_list_wf_index [OF assms(2)] assms(5)
    by (metis option.exhaust)
  then have "collateralIndex l = collateralIndex l'"
    using assms(1,2) drone_list_wfD(2) by (blast intro: om_ext)
  ultimately show ?thesis using assms(3,4) by simp
qed

lemma AddDrone_wf:
  assumes wf: "drone_list_wf l" and add: "AddDrone e l = Inr l'"
  shows "drone_list_wf l'" and "om_find (droneMap l') = (om_find (droneMap l))(de_blsPubKeyHash e \<mapsto> e)"
    and "dl_blockHash l' = dl_blockHash l" "dl_nHeight l' = dl_nHeight l"
    and "om_find (droneMap l) (de_blsPubKeyHash e) = None"
    and "om_find (collateralIndex l) (de_collateralOutpoint e) = None"
proof -
  have k: "om_find (droneMap l) (de_blsPubKeyHash e) = None" and c: "om_find (collateralIndex l) (de_collateralOutpoint e) = None"
    and l': "l' = l\<lparr>droneMap := om_set (de_blsPubKeyHash e) e (droneMap l),
                  collateralIndex := om_set (de_collateralOutpoint e) (de_blsPubKeyHash e) (collateralIndex l)\<rparr>"
    using add by (auto simp: AddDrone_def split: if_splits)
  note D = drone_list_wfD [OF wf]
  show "om_find (droneMap l') = (om_find (droneMap l))(de_blsPubKeyHash e \<mapsto> e)"
    using D(1) by (simp add: l' om_find_set)
  have ne: "om_find (droneMap l) j = Some x \<Longrightarrow> de_collateralOutpoint x \<noteq> de_collateralOutpoint e" for j x
    using D(4) [of j x] c by auto
  show "drone_list_wf l'" unfolding drone_list_wf_def
  proof (intro conjI allI impI)
    fix k' e' assume "om_find (droneMap l') k' = Some e'"
    then show "de_blsPubKeyHash e' = k'" and "om_find (collateralIndex l') (de_collateralOutpoint e') = Some k'"
      using D ne by (auto simp: l' om_find_set split: if_splits)
  next
    fix c' k' assume "om_find (collateralIndex l') c' = Some k'"
    then show "\<exists>e. om_find (droneMap l') k' = Some e \<and> de_collateralOutpoint e = c'"
      using D k wf drone_list_wf_index [OF wf] by (auto simp: l' om_find_set split: if_splits)
  qed (use D in \<open>simp_all add: l'\<close>)
  show "om_find (droneMap l) (de_blsPubKeyHash e) = None" "om_find (collateralIndex l) (de_collateralOutpoint e) = None" by fact+
qed (use add in \<open>auto simp: AddDrone_def split: if_splits\<close>)

lemma UpdateDrone_wf:
  assumes wf: "drone_list_wf l" and upd: "UpdateDrone e l = Inr l'"
  shows "drone_list_wf l'" and "om_find (droneMap l') = (om_find (droneMap l))(de_blsPubKeyHash e \<mapsto> e)"
    and "dl_blockHash l' = dl_blockHash l" "dl_nHeight l' = dl_nHeight l"
    and "\<exists>old. om_find (droneMap l) (de_blsPubKeyHash e) = Some old \<and>
           de_collateralOutpoint old = de_collateralOutpoint e \<and> de_payoutScript old = de_payoutScript e"
proof -
  obtain old where old: "om_find (droneMap l) (de_blsPubKeyHash e) = Some old"
      "de_collateralOutpoint old = de_collateralOutpoint e" "de_payoutScript old = de_payoutScript e"
    and l': "l' = l\<lparr>droneMap := om_set (de_blsPubKeyHash e) e (droneMap l)\<rparr>"
    using upd by (auto simp: UpdateDrone_def split: option.splits if_splits)
  note D = drone_list_wfD [OF wf]
  show m: "om_find (droneMap l') = (om_find (droneMap l))(de_blsPubKeyHash e \<mapsto> e)"
    using D(1) by (simp add: l' om_find_set)
  show "drone_list_wf l'" unfolding drone_list_wf_def m
    using D(1,2) D(3,4) D(4) [OF old(1)] old(2) wf by (auto simp: l' drone_list_wf_index [OF wf] old)
  show "\<exists>old. om_find (droneMap l) (de_blsPubKeyHash e) = Some old \<and>
           de_collateralOutpoint old = de_collateralOutpoint e \<and> de_payoutScript old = de_payoutScript e"
    using old by blast
qed (use upd in \<open>auto simp: UpdateDrone_def split: option.splits if_splits\<close>)

lemma RemoveDrone_wf:
  assumes wf: "drone_list_wf l" and rem: "RemoveDrone k l = Inr l'"
  shows "drone_list_wf l'" and "om_find (droneMap l') = (om_find (droneMap l))(k := None)"
    and "dl_blockHash l' = dl_blockHash l" "dl_nHeight l' = dl_nHeight l"
    and "om_find (droneMap l) k \<noteq> None"
proof -
  obtain old where old: "om_find (droneMap l) k = Some old"
    and l': "l' = l\<lparr>droneMap := om_erase k (droneMap l), collateralIndex := om_erase (de_collateralOutpoint old) (collateralIndex l)\<rparr>"
    using rem by (auto simp: RemoveDrone_def split: option.splits)
  note D = drone_list_wfD [OF wf]
  show m: "om_find (droneMap l') = (om_find (droneMap l))(k := None)"
    by (simp add: l' om_find_erase)
  have c: "om_find (collateralIndex l') = (om_find (collateralIndex l))(de_collateralOutpoint old := None)"
    by (simp add: l' om_find_erase)
  show "drone_list_wf l'" unfolding drone_list_wf_def m c
    using D(1,2,3,4) D(4) [OF old] same_collateral [OF wf old] by (auto simp: l' drone_list_wf_index [OF wf] old)
  show "om_find (droneMap l) k \<noteq> None" using old by simp
qed (use rem in \<open>auto simp: RemoveDrone_def split: option.splits\<close>)

lemma RemoveDrone_Inr: "om_find (droneMap l) k \<noteq> None \<Longrightarrow> \<exists>l'. RemoveDrone k l = Inr l'"
  by (auto simp: RemoveDrone_def)

lemma UpdateDrone_Inr:
  "om_find (droneMap l) (de_blsPubKeyHash e) = Some old \<Longrightarrow>
   de_collateralOutpoint old = de_collateralOutpoint e \<Longrightarrow> de_payoutScript old = de_payoutScript e \<Longrightarrow>
   \<exists>l'. UpdateDrone e l = Inr l'"
  by (auto simp: UpdateDrone_def)

lemma AddDrone_Inr:
  "om_find (droneMap l) (de_blsPubKeyHash e) = None \<Longrightarrow> om_find (collateralIndex l) (de_collateralOutpoint e) = None \<Longrightarrow>
   \<exists>l'. AddDrone e l = Inr l'"
  by (auto simp: AddDrone_def)

section \<open>Diffs\<close>

definition same_immutables :: "CDroneEntry \<Rightarrow> CDroneEntry \<Rightarrow> bool" where
  "same_immutables a b = (de_collateralOutpoint a = de_collateralOutpoint b \<and> de_payoutScript a = de_payoutScript b)"

definition keeps_entry :: "CDroneList \<Rightarrow> uint160 \<times> CDroneEntry \<Rightarrow> bool" where
  "keeps_entry from kv = (case om_find (droneMap from) (fst kv) of None \<Rightarrow> False | Some old \<Rightarrow> same_immutables old (snd kv))"

lemma fold_om_set:
  "om_wf m \<Longrightarrow> distinct (map fst xs) \<Longrightarrow>
   om_wf (fold (\<lambda>(k, v). om_set k v) xs m) \<and>
   om_find (fold (\<lambda>(k, v). om_set k v) xs m) k = (case map_of xs k of None \<Rightarrow> om_find m k | Some v \<Rightarrow> Some v)"
proof (induction xs arbitrary: m)
  case (Cons a xs)
  obtain j v where a: "a = (j, v)" by (cases a)
  have "map_of xs j = None" using Cons.prems a by (simp add: map_of_eq_None_iff)
  then show ?case using Cons a by (auto simp: om_find_set split: option.split)
qed simp

lemma diff_entry_fields:
  "addedDrones (diff_entry from kv d) = addedDrones d @ (if keeps_entry from kv then [] else [snd kv])"
  "df_nHeight (diff_entry from kv d) = df_nHeight d"
  "om_wf (removedDrones d) \<Longrightarrow> om_wf (removedDrones (diff_entry from kv d))"
  "om_wf (updatedDrones d) \<Longrightarrow> om_wf (updatedDrones (diff_entry from kv d))"
  "om_wf (removedDrones d) \<Longrightarrow> om_find (removedDrones (diff_entry from kv d)) k =
     (if k = fst kv \<and> om_find (droneMap from) k \<noteq> None \<and> \<not> keeps_entry from kv then Some () else om_find (removedDrones d) k)"
  "om_wf (updatedDrones d) \<Longrightarrow> om_find (updatedDrones (diff_entry from kv d)) k =
     (if k = fst kv \<and> keeps_entry from kv \<and> om_find (droneMap from) k \<noteq> Some (snd kv) then Some (snd kv) else om_find (updatedDrones d) k)"
  by (auto simp: diff_entry_def keeps_entry_def same_immutables_def om_find_set split: prod.splits option.splits if_splits)

lemma fold_diff_entry:
  fixes "from" :: CDroneList
  assumes "om_wf (removedDrones d)" "om_wf (updatedDrones d)" "distinct (map fst xs)"
  defines "r \<equiv> fold (diff_entry from) xs d"
  shows "om_wf (removedDrones r) \<and> om_wf (updatedDrones r) \<and>
         addedDrones r = addedDrones d @ map snd (filter (\<lambda>kv. \<not> keeps_entry from kv) xs) \<and>
         (\<forall>k. om_find (removedDrones r) k =
            (case map_of xs k of
               Some e \<Rightarrow> if om_find (droneMap from) k \<noteq> None \<and> \<not> keeps_entry from (k, e) then Some () else om_find (removedDrones d) k
             | None \<Rightarrow> om_find (removedDrones d) k)) \<and>
         (\<forall>k. om_find (updatedDrones r) k =
            (case map_of xs k of
               Some e \<Rightarrow> if keeps_entry from (k, e) \<and> om_find (droneMap from) k \<noteq> Some e then Some e else om_find (updatedDrones d) k
             | None \<Rightarrow> om_find (updatedDrones d) k))"
  using assms(1-3) unfolding r_def
proof (induction xs arbitrary: d)
  case (Cons a xs)
  obtain j v where a: "a = (j, v)" by (cases a)
  have j: "map_of xs j = None" using Cons.prems a by (simp add: map_of_eq_None_iff)
  have "om_wf (removedDrones (diff_entry from a d))" "om_wf (updatedDrones (diff_entry from a d))" "distinct (map fst xs)"
    using Cons.prems diff_entry_fields(3,4) by auto
  note IH = Cons.IH [OF this]
  show ?case using IH j Cons.prems(1,2) a by (auto simp: diff_entry_fields split: option.split)
qed simp

lemma BuildDiff_fields:
  assumes "drone_list_wf from" "drone_list_wf to"
  defines "d \<equiv> BuildDiff from to"
  shows "om_wf (removedDrones d)" "om_wf (updatedDrones d)"
    and "addedDrones d = map snd (filter (\<lambda>kv. \<not> keeps_entry from kv) (droneMap to))"
    and "om_find (removedDrones d) k \<noteq> None \<longleftrightarrow>
           om_find (droneMap from) k \<noteq> None \<and>
           (case om_find (droneMap to) k of None \<Rightarrow> True | Some e \<Rightarrow> \<not> keeps_entry from (k, e))"
    and "om_find (updatedDrones d) k =
           (case om_find (droneMap to) k of
              Some e \<Rightarrow> if keeps_entry from (k, e) \<and> om_find (droneMap from) k \<noteq> Some e then Some e else None
            | None \<Rightarrow> None)"
    and "df_nHeight d = - 1"
proof -
  define m where "m = fold (diff_entry from) (droneMap to) empty_diff"
  have nh: "df_nHeight (fold (diff_entry from) xs e) = df_nHeight e" for xs e
    by (induction xs arbitrary: e) (simp_all add: diff_entry_fields)
  have dist: "distinct (map fst (droneMap to))" using assms(2) drone_list_wfD(1) om_wf_distinct by blast
  have em: "removedDrones empty_diff = []" "updatedDrones empty_diff = []" "addedDrones empty_diff = []" "df_nHeight empty_diff = - 1"
    by (simp_all add: empty_diff_def)
  note M = fold_diff_entry [of empty_diff "droneMap to" "from", folded m_def, unfolded em, simplified, OF dist]
  let ?g = "\<lambda>(pkh, fromEntry :: CDroneEntry) diff.
      if om_find (droneMap to) pkh = None then diff\<lparr>removedDrones := om_set pkh () (removedDrones diff)\<rparr> else diff"
  have rem: "om_wf (removedDrones x) \<Longrightarrow>
      addedDrones (fold ?g xs x) = addedDrones x \<and> updatedDrones (fold ?g xs x) = updatedDrones x \<and>
      df_nHeight (fold ?g xs x) = df_nHeight x \<and> om_wf (removedDrones (fold ?g xs x)) \<and>
      (om_find (removedDrones (fold ?g xs x)) k \<noteq> None \<longleftrightarrow>
         om_find (removedDrones x) k \<noteq> None \<or> k \<in> fst ` set xs \<and> om_find (droneMap to) k = None)" for xs :: "(uint160 \<times> CDroneEntry) list" and x :: CDroneListDiff and k
  proof (induction xs arbitrary: x)
    case (Cons a xs)
    then show ?case by (cases a) (auto simp: om_find_set)
  qed simp
  have d: "d = fold ?g (droneMap from) m" by (simp add: d_def BuildDiff_def m_def)
  have keys: "k \<in> fst ` set (droneMap from) \<longleftrightarrow> om_find (droneMap from) k \<noteq> None" for k
    by (simp add: om_find_None_iff)
  note R = rem [of m "droneMap from"]
  show "om_wf (removedDrones d)" "om_wf (updatedDrones d)" using R M unfolding d by simp_all
  show "addedDrones d = map snd (filter (\<lambda>kv. \<not> keeps_entry from kv) (droneMap to))" using R M unfolding d by simp
  show "om_find (removedDrones d) k \<noteq> None \<longleftrightarrow>
      om_find (droneMap from) k \<noteq> None \<and> (case om_find (droneMap to) k of None \<Rightarrow> True | Some e \<Rightarrow> \<not> keeps_entry from (k, e))"
    using R M unfolding d by (auto simp: keys simp flip: om_find_def split: option.splits)
  show "om_find (updatedDrones d) k =
      (case om_find (droneMap to) k of
         Some e \<Rightarrow> if keeps_entry from (k, e) \<and> om_find (droneMap from) k \<noteq> Some e then Some e else None | None \<Rightarrow> None)"
    using R M unfolding d by (auto simp flip: om_find_def split: option.splits)
  show "df_nHeight d = - 1" using R M nh em unfolding d m_def by simp
qed


lemma bindE_Inr [simp]: "bindE (Inr x) f = f x" "bindE (Inl e) f = Inl e"
  by (simp_all add: bindE_def)

lemma bindE_eq_Inr: "bindE m f = Inr y \<longleftrightarrow> (\<exists>x. m = Inr x \<and> f x = Inr y)"
  by (cases m) auto

definition same_header :: "CDroneList \<Rightarrow> CDroneList \<Rightarrow> bool" where
  "same_header l l' = (dl_blockHash l' = dl_blockHash l \<and> dl_nHeight l' = dl_nHeight l)"

lemma foldE_RemoveDrone:
  "drone_list_wf l \<Longrightarrow> distinct ks \<Longrightarrow> \<forall>k \<in> set ks. om_find (droneMap l) k \<noteq> None \<Longrightarrow>
   \<exists>l'. foldE RemoveDrone ks l = Inr l' \<and> drone_list_wf l' \<and> same_header l l' \<and>
        om_find (droneMap l') = (\<lambda>k. if k \<in> set ks then None else om_find (droneMap l) k)"
proof (induction ks arbitrary: l)
  case (Cons k ks)
  obtain l1 where l1: "RemoveDrone k l = Inr l1" using RemoveDrone_Inr Cons.prems(3) by fastforce
  note R = RemoveDrone_wf [OF Cons.prems(1) l1]
  have "\<forall>j \<in> set ks. om_find (droneMap l1) j \<noteq> None" using Cons.prems(2,3) R(2) by auto
  then obtain l' where "foldE RemoveDrone ks l1 = Inr l'" "drone_list_wf l'" "same_header l1 l'"
      "om_find (droneMap l') = (\<lambda>k. if k \<in> set ks then None else om_find (droneMap l1) k)"
    using Cons.IH [OF R(1)] Cons.prems(2) by auto
  then show ?case using l1 R by (auto simp: same_header_def fun_eq_iff)
qed (simp add: same_header_def)

lemma foldE_UpdateDrone:
  "drone_list_wf l \<Longrightarrow> distinct (map de_blsPubKeyHash es) \<Longrightarrow>
   \<forall>e \<in> set es. \<exists>old. om_find (droneMap l) (de_blsPubKeyHash e) = Some old \<and> same_immutables old e \<Longrightarrow>
   \<exists>l'. foldE UpdateDrone es l = Inr l' \<and> drone_list_wf l' \<and> same_header l l' \<and>
        om_find (droneMap l') = (\<lambda>k. case map_of (map (\<lambda>e. (de_blsPubKeyHash e, e)) es) k of None \<Rightarrow> om_find (droneMap l) k | Some e \<Rightarrow> Some e)"
proof (induction es arbitrary: l)
  case (Cons e es)
  let ?m = "map (\<lambda>e. (de_blsPubKeyHash e, e))"
  obtain l1 where l1: "UpdateDrone e l = Inr l1"
    using UpdateDrone_Inr Cons.prems(3) unfolding same_immutables_def by fastforce
  note U = UpdateDrone_wf [OF Cons.prems(1) l1]
  have "\<forall>x \<in> set es. \<exists>old. om_find (droneMap l1) (de_blsPubKeyHash x) = Some old \<and> same_immutables old x"
    using Cons.prems(2,3) U(2) by (auto simp: image_iff)
  then obtain l' where l': "foldE UpdateDrone es l1 = Inr l'" "drone_list_wf l'" "same_header l1 l'"
      "om_find (droneMap l') = (\<lambda>k. case map_of (?m es) k of None \<Rightarrow> om_find (droneMap l1) k | Some e \<Rightarrow> Some e)"
    using Cons.IH [OF U(1)] Cons.prems(2) by auto
  have "map_of (?m es) (de_blsPubKeyHash e) = None"
    using Cons.prems(2) by (auto simp: map_of_eq_None_iff image_iff)
  then show ?case using l1 U l' by (auto simp: same_header_def fun_eq_iff split: option.split)
qed (simp add: same_header_def)

lemma foldE_AddDrone:
  "drone_list_wf l \<Longrightarrow> distinct (map de_blsPubKeyHash es) \<Longrightarrow> distinct (map de_collateralOutpoint es) \<Longrightarrow>
   \<forall>e \<in> set es. om_find (droneMap l) (de_blsPubKeyHash e) = None \<and> om_find (collateralIndex l) (de_collateralOutpoint e) = None \<Longrightarrow>
   \<exists>l'. foldE AddDrone es l = Inr l' \<and> drone_list_wf l' \<and> same_header l l' \<and>
        om_find (droneMap l') = (\<lambda>k. case map_of (map (\<lambda>e. (de_blsPubKeyHash e, e)) es) k of None \<Rightarrow> om_find (droneMap l) k | Some e \<Rightarrow> Some e)"
proof (induction es arbitrary: l)
  case (Cons e es)
  let ?m = "map (\<lambda>e. (de_blsPubKeyHash e, e))"
  obtain l1 where l1: "AddDrone e l = Inr l1" using AddDrone_Inr Cons.prems(4) by fastforce
  note U = AddDrone_wf [OF Cons.prems(1) l1]
  have c: "collateralIndex l1 = om_set (de_collateralOutpoint e) (de_blsPubKeyHash e) (collateralIndex l)"
    using l1 by (auto simp: AddDrone_def split: if_splits)
  have "\<forall>x \<in> set es. om_find (droneMap l1) (de_blsPubKeyHash x) = None \<and> om_find (collateralIndex l1) (de_collateralOutpoint x) = None"
    using Cons.prems(2-4) U(2) drone_list_wfD(2) [OF Cons.prems(1)] by (auto simp: image_iff c om_find_set)
  then obtain l' where l': "foldE AddDrone es l1 = Inr l'" "drone_list_wf l'" "same_header l1 l'"
      "om_find (droneMap l') = (\<lambda>k. case map_of (?m es) k of None \<Rightarrow> om_find (droneMap l1) k | Some e \<Rightarrow> Some e)"
    using Cons.IH [OF U(1)] Cons.prems(2,3) by auto
  have "map_of (?m es) (de_blsPubKeyHash e) = None"
    using Cons.prems(2) by (auto simp: map_of_eq_None_iff image_iff)
  then show ?case using l1 U l' by (auto simp: same_header_def fun_eq_iff split: option.split)
qed (simp add: same_header_def)

lemma om_keyed_values:
  assumes "om_wf m" and "\<And>k e. om_find m k = Some e \<Longrightarrow> key e = k"
  shows "map (\<lambda>e. (key e, e)) (map snd m) = m"
  using assms by (auto intro!: map_idI simp: om_find_iff)

definition survivors :: "CDroneList \<Rightarrow> CDroneList \<Rightarrow> uint160 \<Rightarrow> CDroneEntry option" where
  "survivors from to k =
     (case om_find (droneMap to) k of Some e \<Rightarrow> if keeps_entry from (k, e) then Some e else None | None \<Rightarrow> None)"

text \<open>The removals and updates of a diff leave the entries the new list keeps.\<close>

lemma diff_removals:
  assumes wf: "drone_list_wf from" "drone_list_wf to"
  defines "d \<equiv> BuildDiff from to"
  defines "l0 \<equiv> from\<lparr>dl_blockHash := dl_blockHash to, dl_nHeight := dl_nHeight to\<rparr>"
  shows "\<exists>l1. foldE RemoveDrone (map fst (removedDrones d)) l0 = Inr l1 \<and> drone_list_wf l1 \<and> same_header to l1 \<and>
           om_find (droneMap l1) = (\<lambda>k. if survivors from to k = None then None else om_find (droneMap from) k)"
proof -
  note B = BuildDiff_fields [OF wf, folded d_def]
  have rk: "k \<in> set (map fst (removedDrones d)) \<longleftrightarrow> om_find (removedDrones d) k \<noteq> None" for k
    by (auto simp: om_find_None_iff)
  have m0: "om_find (droneMap l0) = om_find (droneMap from)" "drone_list_wf l0" using wf(1) by (simp_all add: l0_def)
  have "\<forall>k \<in> set (map fst (removedDrones d)). om_find (droneMap l0) k \<noteq> None"
    using B(4) unfolding rk [symmetric, simplified] m0 by (auto simp: om_find_None_iff)
  then obtain l1 where l1: "foldE RemoveDrone (map fst (removedDrones d)) l0 = Inr l1" "drone_list_wf l1" "same_header l0 l1"
      "om_find (droneMap l1) = (\<lambda>k. if om_find (removedDrones d) k \<noteq> None then None else om_find (droneMap from) k)"
    using foldE_RemoveDrone [OF m0(2), of "map fst (removedDrones d)"] om_wf_distinct [OF B(1)] unfolding rk m0 by auto
  have "(if om_find (removedDrones d) k \<noteq> None then None else om_find (droneMap from) k)
      = (if survivors from to k = None then None else om_find (droneMap from) k)" for k
    using B(4) [of k] by (auto simp: survivors_def keeps_entry_def split: option.splits)
  then show ?thesis using l1 by (auto simp: same_header_def l0_def fun_eq_iff)
qed

lemma diff_survivors:
  assumes wf: "drone_list_wf from" "drone_list_wf to"
  defines "d \<equiv> BuildDiff from to"
  defines "l0 \<equiv> from\<lparr>dl_blockHash := dl_blockHash to, dl_nHeight := dl_nHeight to\<rparr>"
  shows "\<exists>l2. bindE (foldE RemoveDrone (map fst (removedDrones d)) l0) (foldE UpdateDrone (map snd (updatedDrones d))) = Inr l2 \<and>
           drone_list_wf l2 \<and> same_header to l2 \<and> om_find (droneMap l2) = survivors from to"
proof -
  note B = BuildDiff_fields [OF wf, folded d_def] and T = drone_list_wfD [OF wf(2)]
  let ?m = "map (\<lambda>e. (de_blsPubKeyHash e, e))"
  obtain l1 where l1: "foldE RemoveDrone (map fst (removedDrones d)) l0 = Inr l1" "drone_list_wf l1" "same_header to l1"
      "om_find (droneMap l1) = (\<lambda>k. if survivors from to k = None then None else om_find (droneMap from) k)"
    using diff_removals [OF wf] unfolding d_def l0_def by blast
  have um: "?m (map snd (updatedDrones d)) = updatedDrones d"
    using B(2) B(5) T(3) by (intro om_keyed_values) (auto split: option.splits if_splits)
  have uk: "map de_blsPubKeyHash (map snd (updatedDrones d)) = map fst (updatedDrones d)"
    using arg_cong [OF um, of "map fst"] by (simp add: comp_def)
  have "\<forall>e \<in> set (map snd (updatedDrones d)). \<exists>old. om_find (droneMap l1) (de_blsPubKeyHash e) = Some old \<and> same_immutables old e"
  proof
    fix e assume "e \<in> set (map snd (updatedDrones d))"
    then obtain k where "om_find (updatedDrones d) k = Some e" using B(2) by (auto simp: om_find_iff)
    then have k: "om_find (droneMap to) k = Some e" "keeps_entry from (k, e)"
      using B(5) [of k] by (auto split: option.splits if_splits)
    then obtain old where "om_find (droneMap from) k = Some old" "same_immutables old e"
      by (auto simp: keeps_entry_def split: option.splits)
    then show "\<exists>old. om_find (droneMap l1) (de_blsPubKeyHash e) = Some old \<and> same_immutables old e"
      using T(3) [OF k(1)] k by (auto simp: l1(4) survivors_def)
  qed
  then obtain l2 where l2: "foldE UpdateDrone (map snd (updatedDrones d)) l1 = Inr l2" "drone_list_wf l2" "same_header l1 l2"
      "om_find (droneMap l2) = (\<lambda>k. case om_find (updatedDrones d) k of None \<Rightarrow> om_find (droneMap l1) k | Some e \<Rightarrow> Some e)"
    using foldE_UpdateDrone [OF l1(2), of "map snd (updatedDrones d)"] om_wf_distinct [OF B(2)] unfolding um uk by (auto simp: om_find_def)
  have "om_find (droneMap l2) k = survivors from to k" for k
    using B(5) [of k] by (auto simp: l2(4) l1(4) survivors_def split: option.splits)
  then show ?thesis using l1 l2 by (auto simp: same_header_def fun_eq_iff)
qed

lemma diff_additions:
  assumes wf: "drone_list_wf from" "drone_list_wf to" "drone_list_wf l2" and l2: "om_find (droneMap l2) = survivors from to"
  defines "d \<equiv> BuildDiff from to"
  shows "\<exists>l3. foldE AddDrone (addedDrones d) l2 = Inr l3 \<and> drone_list_wf l3 \<and> same_header l2 l3 \<and>
           om_find (droneMap l3) = om_find (droneMap to)"
proof -
  note B = BuildDiff_fields [OF wf(1,2), folded d_def] and T = drone_list_wfD [OF wf(2)]
  let ?A = "filter (\<lambda>kv. \<not> keeps_entry from kv) (droneMap to)" and ?m = "map (\<lambda>e. (de_blsPubKeyHash e, e))"
  have wfA: "om_wf ?A" using T(1) by (simp add: om_wf_def sorted_wrt_map_filter)
  have fA: "om_find ?A k = (case om_find (droneMap to) k of Some e \<Rightarrow> if keeps_entry from (k, e) then None else Some e | None \<Rightarrow> None)" for k
  proof -
    have "om_find ?A k = Some e \<longleftrightarrow> om_find (droneMap to) k = Some e \<and> \<not> keeps_entry from (k, e)" for e
      using wfA T(1) by (auto simp: om_find_iff)
    then show ?thesis by (intro option_ext) (auto split: option.split)
  qed
  have am: "?m (addedDrones d) = ?A"
    unfolding B(3) using wfA T(3) by (intro om_keyed_values) (auto simp: fA split: option.splits if_splits)
  have ak: "map de_blsPubKeyHash (addedDrones d) = map fst ?A"
    using arg_cong [OF am, of "map fst"] by (simp add: comp_def)
  have inA: "e \<in> set (addedDrones d) \<Longrightarrow> om_find (droneMap to) (de_blsPubKeyHash e) = Some e \<and> \<not> keeps_entry from (de_blsPubKeyHash e, e)" for e
    using T(1,3) by (auto simp: B(3) om_find_iff)
  have dc: "distinct (map de_collateralOutpoint (addedDrones d))"
    unfolding distinct_map
  proof (intro conjI inj_onI)
    show "distinct (addedDrones d)" using om_wf_distinct [OF wfA] ak by (metis distinct_map)
    fix x y assume "x \<in> set (addedDrones d)" "y \<in> set (addedDrones d)" "de_collateralOutpoint x = de_collateralOutpoint y"
    then show "x = y" using same_collateral [OF wf(2)] inA by (metis option.inject)
  qed
  have "om_find (droneMap l2) (de_blsPubKeyHash e) = None \<and> om_find (collateralIndex l2) (de_collateralOutpoint e) = None"
    if e: "e \<in> set (addedDrones d)" for e
  proof
    note i = inA [OF e]
    show n: "om_find (droneMap l2) (de_blsPubKeyHash e) = None" using i by (simp add: l2 survivors_def)
    have own: "om_find (droneMap l2) k = Some x \<Longrightarrow> de_collateralOutpoint x = de_collateralOutpoint e \<Longrightarrow> k = de_blsPubKeyHash e" for k x
    proof (rule same_collateral [OF wf(2)])
      assume "om_find (droneMap l2) k = Some x"
      then show "om_find (droneMap to) k = Some x" by (simp add: l2 survivors_def split: option.splits if_splits)
      show "om_find (droneMap to) (de_blsPubKeyHash e) = Some e" using i by simp
    qed
    show "om_find (collateralIndex l2) (de_collateralOutpoint e) = None"
    proof (cases "om_find (collateralIndex l2) (de_collateralOutpoint e)")
      case (Some k)
      then obtain x where "om_find (droneMap l2) k = Some x" "de_collateralOutpoint x = de_collateralOutpoint e"
        using drone_list_wf_index [OF wf(3)] by blast
      then show ?thesis using own n by fastforce
    qed
  qed
  then obtain l3 where l3: "foldE AddDrone (addedDrones d) l2 = Inr l3" "drone_list_wf l3" "same_header l2 l3"
      "om_find (droneMap l3) = (\<lambda>k. case om_find ?A k of None \<Rightarrow> om_find (droneMap l2) k | Some e \<Rightarrow> Some e)"
    using foldE_AddDrone [OF wf(3) _ dc] om_wf_distinct [OF wfA] unfolding am ak by (auto simp: om_find_def)
  moreover have "om_find (droneMap l3) k = om_find (droneMap to) k" for k
    by (auto simp: l3(4) l2 fA survivors_def split: option.split)
  ultimately show ?thesis by (auto simp: fun_eq_iff)
qed

lemma ApplyDiff_BuildDiff:
  assumes wf: "drone_list_wf from" "drone_list_wf to"
  shows "ApplyDiff (dl_blockHash to) (dl_nHeight to) ((BuildDiff from to)\<lparr>df_nHeight := n\<rparr>) from = Inr to"
proof -
  obtain l2 where l2: "bindE (foldE RemoveDrone (map fst (removedDrones (BuildDiff from to)))
        (from\<lparr>dl_blockHash := dl_blockHash to, dl_nHeight := dl_nHeight to\<rparr>)) (foldE UpdateDrone (map snd (updatedDrones (BuildDiff from to)))) = Inr l2"
      "drone_list_wf l2" "same_header to l2" "om_find (droneMap l2) = survivors from to"
    using diff_survivors [OF wf] by blast
  obtain l3 where l3: "foldE AddDrone (addedDrones (BuildDiff from to)) l2 = Inr l3" "drone_list_wf l3" "same_header l2 l3"
      "om_find (droneMap l3) = om_find (droneMap to)"
    using diff_additions [OF wf l2(2,4)] by blast
  have "l3 = to" using l2(3) l3 wf(2) by (intro drone_list_eqI) (auto simp: same_header_def)
  then show ?thesis using l2(1) l3(1) by (auto simp: ApplyDiff_def bindE_eq_Inr)
qed

section \<open>The transition as a map update\<close>

type_synonym drones = "uint160 \<Rightarrow> CDroneEntry option"

definition drone_view :: "CDroneList \<Rightarrow> drones" where
  "drone_view l = om_find (droneMap l)"

definition spends :: "drone_tx \<Rightarrow> COutPoint \<Rightarrow> bool" where
  "spends tx c = (\<not> dt_IsCoinBase tx \<and> c \<in> set (dt_prevouts tx))"

definition registration :: "drone_tx \<Rightarrow> CDroneRegTx option" where
  "registration tx =
     (if \<not> dt_IsCoinBase tx \<and> dt_IsSpecialTxVersion tx \<and> dt_nType tx = TRANSACTION_DRONE_REGISTER then drone_payload tx else None)"

definition bonded :: "Params \<Rightarrow> drone_tx \<Rightarrow> CDroneRegTx \<Rightarrow> bool" where
  "bonded p tx reg =
     (nDroneCollateralAmount p > 0 \<and> unat (dr_nCollateralIndex reg) < length (dt_vout tx) \<and>
      fst (dt_vout tx ! unat (dr_nCollateralIndex reg)) = nDroneCollateralAmount p \<and> IsValidDronePayoutScript (dr_scriptPayout reg))"

definition unspent :: "drone_tx \<Rightarrow> drones \<Rightarrow> drones" where
  "unspent tx m k = (case m k of Some e \<Rightarrow> if spends tx (de_collateralOutpoint e) then None else Some e | None \<Rightarrow> None)"

definition register_spec :: "Params \<Rightarrow> int \<Rightarrow> drone_tx \<Rightarrow> CDroneRegTx \<Rightarrow> drones \<Rightarrow> drones" where
  "register_spec p h tx reg m =
     (let k = dr_blsPubKeyHash reg
      in case m k of
           Some e \<Rightarrow> m(k \<mapsto> e\<lparr>de_nLastSeenHeight := h\<rparr>)
         | None \<Rightarrow> if bonded p tx reg then m(k \<mapsto> new_drone tx reg h) else m)"

definition tx_spec :: "Params \<Rightarrow> int \<Rightarrow> drone_tx \<Rightarrow> drones \<Rightarrow> drones" where
  "tx_spec p h tx m =
     (case registration tx of None \<Rightarrow> unspent tx m | Some reg \<Rightarrow> register_spec p h tx reg (unspent tx m))"

definition block_spec :: "Params \<Rightarrow> drone_tx list \<Rightarrow> int \<Rightarrow> CDroneList \<Rightarrow> drones" where
  "block_spec p vtx h l =
     fold (tx_spec p h) vtx
       (case GetPayee l h p of
          Some payee \<Rightarrow> (drone_view l)(de_blsPubKeyHash payee \<mapsto> payee\<lparr>de_nLastPaidHeight := h\<rparr>)
        | None \<Rightarrow> drone_view l)"

lemma spend_collateral_spec:
  assumes wf: "drone_list_wf l"
  shows "\<exists>l'. spend_collateral c l = Inr l' \<and> drone_list_wf l' \<and> same_header l l' \<and>
           drone_view l' = (\<lambda>k. case drone_view l k of Some e \<Rightarrow> if de_collateralOutpoint e = c then None else Some e | None \<Rightarrow> None)"
proof (cases "om_find (collateralIndex l) c")
  case None
  then have "de_collateralOutpoint e \<noteq> c" if "om_find (droneMap l) k = Some e" for k e
    using drone_list_wfD(4) [OF wf that] by auto
  then have "drone_view l = (\<lambda>k. case drone_view l k of Some e \<Rightarrow> if de_collateralOutpoint e = c then None else Some e | None \<Rightarrow> None)"
    by (simp add: drone_view_def fun_eq_iff split: option.split)
  then show ?thesis using None wf by (simp add: spend_collateral_def GetDroneByCollateral_def same_header_def)
next
  case (Some k)
  then obtain e where e: "om_find (droneMap l) k = Some e" "de_collateralOutpoint e = c"
    using drone_list_wf_index [OF wf] by blast
  obtain l' where l': "RemoveDrone k l = Inr l'" using RemoveDrone_Inr e by fastforce
  note R = RemoveDrone_wf [OF wf l']
  have "spend_collateral c l = Inr l'"
    using Some e drone_list_wfD(3) [OF wf e(1)] l' by (simp add: spend_collateral_def GetDroneByCollateral_def GetDrone_def)
  moreover have "drone_view l' j = (case drone_view l j of Some e \<Rightarrow> if de_collateralOutpoint e = c then None else Some e | None \<Rightarrow> None)" for j
  proof (cases "j = k")
    case True
    then show ?thesis using R(2) e by (simp add: drone_view_def)
  next
    case False
    then have "om_find (droneMap l) j = Some x \<Longrightarrow> de_collateralOutpoint x \<noteq> c" for x
      using same_collateral [OF wf e(1), of j x] e(2) by metis
    then show ?thesis using R(2) False by (simp add: drone_view_def split: option.split)
  qed
  ultimately show ?thesis using R by (auto simp: same_header_def fun_eq_iff)
qed

lemma foldE_spend_collateral:
  "drone_list_wf l \<Longrightarrow>
   \<exists>l'. foldE spend_collateral cs l = Inr l' \<and> drone_list_wf l' \<and> same_header l l' \<and>
        drone_view l' = (\<lambda>k. case drone_view l k of Some e \<Rightarrow> if de_collateralOutpoint e \<in> set cs then None else Some e | None \<Rightarrow> None)"
proof (induction cs arbitrary: l)
  case (Cons c cs)
  obtain l1 where l1: "spend_collateral c l = Inr l1" "drone_list_wf l1" "same_header l l1"
      "drone_view l1 = (\<lambda>k. case drone_view l k of Some e \<Rightarrow> if de_collateralOutpoint e = c then None else Some e | None \<Rightarrow> None)"
    using spend_collateral_spec [OF Cons.prems] by blast
  obtain l' where l': "foldE spend_collateral cs l1 = Inr l'" "drone_list_wf l'" "same_header l1 l'"
      "drone_view l' = (\<lambda>k. case drone_view l1 k of Some e \<Rightarrow> if de_collateralOutpoint e \<in> set cs then None else Some e | None \<Rightarrow> None)"
    using Cons.IH [OF l1(2)] by blast
  have "drone_view l' k = (case drone_view l k of Some e \<Rightarrow> if de_collateralOutpoint e \<in> set (c # cs) then None else Some e | None \<Rightarrow> None)" for k
    by (auto simp: l'(4) l1(4) split: option.split)
  then show ?case using l1 l' by (auto simp: same_header_def fun_eq_iff)
qed (auto simp: same_header_def fun_eq_iff split: option.split)

text \<open>An update of an entry that keeps its key and its immutable fields goes through.\<close>

lemma UpdateDrone_entry:
  assumes wf: "drone_list_wf l" and e: "drone_view l k = Some e" and "de_blsPubKeyHash e' = k" and "same_immutables e e'"
  shows "\<exists>l'. UpdateDrone e' l = Inr l' \<and> drone_list_wf l' \<and> same_header l l' \<and> drone_view l' = (drone_view l)(k \<mapsto> e')"
proof -
  obtain l' where l': "UpdateDrone e' l = Inr l'"
    using UpdateDrone_Inr [of l e' e] assms by (auto simp: same_immutables_def drone_view_def)
  then show ?thesis using UpdateDrone_wf [OF wf l'] assms(3) by (auto simp: same_header_def drone_view_def)
qed

definition fresh_hash :: "drone_tx \<Rightarrow> drones \<Rightarrow> bool" where
  "fresh_hash tx m = (\<forall>k e. m k = Some e \<longrightarrow> op_hash (de_collateralOutpoint e) \<noteq> dt_hash tx)"

lemma register_drone_spec:
  assumes wf: "drone_list_wf l"
  shows "register_drone p h tx reg l = Inr l' \<Longrightarrow> drone_list_wf l' \<and> same_header l l' \<and> drone_view l' = register_spec p h tx reg (drone_view l)"
    and "fresh_hash tx (drone_view l) \<Longrightarrow> \<exists>l'. register_drone p h tx reg l = Inr l'"
proof -
  let ?k = "dr_blsPubKeyHash reg"
  have "(register_drone p h tx reg l = Inr l' \<longrightarrow> drone_list_wf l' \<and> same_header l l' \<and> drone_view l' = register_spec p h tx reg (drone_view l)) \<and>
        (fresh_hash tx (drone_view l) \<longrightarrow> (\<exists>l'. register_drone p h tx reg l = Inr l'))"
  proof (cases "drone_view l ?k")
    case (Some e)
    have "de_blsPubKeyHash e = ?k" using drone_list_wfD(3) [OF wf] Some by (simp add: drone_view_def)
    then obtain l1 where "UpdateDrone (e\<lparr>de_nLastSeenHeight := h\<rparr>) l = Inr l1" "drone_list_wf l1" "same_header l l1"
        "drone_view l1 = (drone_view l)(?k \<mapsto> e\<lparr>de_nLastSeenHeight := h\<rparr>)"
      using UpdateDrone_entry [OF wf Some, of "e\<lparr>de_nLastSeenHeight := h\<rparr>"] by (auto simp: same_immutables_def)
    then show ?thesis using Some by (auto simp: register_drone_def GetDrone_def drone_view_def register_spec_def Let_def)
  next
    case None
    show ?thesis
    proof (cases "bonded p tx reg")
      case False
      then have "register_drone p h tx reg l = Inr l"
        using None by (auto simp: register_drone_def GetDrone_def drone_view_def bonded_def not_le)
      then show ?thesis using None False wf by (auto simp: register_spec_def Let_def same_header_def)
    next
      case True
      then have r: "register_drone p h tx reg l = AddDrone (new_drone tx reg h) l"
        using None by (auto simp: register_drone_def GetDrone_def drone_view_def bonded_def)
      have nd: "de_blsPubKeyHash (new_drone tx reg h) = ?k"
        "de_collateralOutpoint (new_drone tx reg h) = COutPoint (dt_hash tx) (dr_nCollateralIndex reg)"
        by (simp_all add: new_drone_def)
      have "\<exists>l'. AddDrone (new_drone tx reg h) l = Inr l'" if f: "fresh_hash tx (drone_view l)"
      proof (rule AddDrone_Inr)
        show "om_find (droneMap l) (de_blsPubKeyHash (new_drone tx reg h)) = None" using None by (simp add: nd drone_view_def)
        have "om_find (collateralIndex l) (COutPoint (dt_hash tx) i) \<noteq> Some j" for i j
          using f drone_list_wf_index [OF wf] by (force simp: fresh_hash_def drone_view_def)
        then show "om_find (collateralIndex l) (de_collateralOutpoint (new_drone tx reg h)) = None"
          unfolding nd by (metis option.exhaust)
      qed
      moreover have "AddDrone (new_drone tx reg h) l = Inr l' \<Longrightarrow> drone_list_wf l' \<and> same_header l l' \<and> drone_view l' = register_spec p h tx reg (drone_view l)"
        using AddDrone_wf [OF wf, of "new_drone tx reg h" l'] nd True None by (auto simp: same_header_def drone_view_def register_spec_def Let_def)
      ultimately show ?thesis unfolding r by blast
    qed
  qed
  then show "register_drone p h tx reg l = Inr l' \<Longrightarrow> drone_list_wf l' \<and> same_header l l' \<and> drone_view l' = register_spec p h tx reg (drone_view l)"
    and "fresh_hash tx (drone_view l) \<Longrightarrow> \<exists>l'. register_drone p h tx reg l = Inr l'" by blast+
qed

definition decodable :: "drone_tx \<Rightarrow> bool" where
  "decodable tx =
     (\<not> dt_IsCoinBase tx \<and> dt_IsSpecialTxVersion tx \<and> dt_nType tx = TRANSACTION_DRONE_REGISTER \<longrightarrow> drone_payload tx \<noteq> None)"

lemma apply_tx_spec:
  assumes wf: "drone_list_wf l"
  shows "apply_tx p h tx l = Inr l' \<Longrightarrow> drone_list_wf l' \<and> same_header l l' \<and> drone_view l' = tx_spec p h tx (drone_view l)"
    and "fresh_hash tx (drone_view l) \<Longrightarrow> decodable tx \<Longrightarrow> \<exists>l'. apply_tx p h tx l = Inr l'"
proof -
  obtain l1 where l1: "foldE spend_collateral (dt_prevouts tx) l = Inr l1" "drone_list_wf l1" "same_header l l1"
      "drone_view l1 = (\<lambda>k. case drone_view l k of Some e \<Rightarrow> if de_collateralOutpoint e \<in> set (dt_prevouts tx) then None else Some e | None \<Rightarrow> None)"
    using foldE_spend_collateral [OF wf] by blast
  have us: "\<not> dt_IsCoinBase tx \<Longrightarrow> drone_view l1 = unspent tx (drone_view l)"
    by (simp add: l1(4) unspent_def fun_eq_iff spends_def split: option.split)
  have cb: "dt_IsCoinBase tx \<Longrightarrow> tx_spec p h tx (drone_view l) = drone_view l"
    by (auto simp: tx_spec_def registration_def unspent_def spends_def fun_eq_iff split: option.split)
  note reg = register_drone_spec [OF l1(2)]
  show "apply_tx p h tx l = Inr l' \<Longrightarrow> drone_list_wf l' \<and> same_header l l' \<and> drone_view l' = tx_spec p h tx (drone_view l)"
    using wf cb l1(1-3) us reg(1) [of p h tx _ l']
    by (auto simp: apply_tx_def tx_spec_def registration_def same_header_def Let_def split: if_splits option.splits)
  assume f: "fresh_hash tx (drone_view l)" and dec: "decodable tx"
  have "fresh_hash tx (drone_view l1)"
    using f by (auto simp: fresh_hash_def l1(4) split: option.splits if_splits)
  then show "\<exists>l'. apply_tx p h tx l = Inr l'"
    using reg(2) [of tx p h] dec l1(1) by (auto simp: apply_tx_def decodable_def split: option.split)
qed

section \<open>The payee\<close>

definition pay_key :: "CDroneEntry \<Rightarrow> int \<times> uint160" where
  "pay_key e = (EffectiveLastPaidHeight e, de_blsPubKeyHash e)"

lemma CompareDronesByLastPaid_key: "CompareDronesByLastPaid a b = (pay_key a < pay_key b)"
  by (auto simp: CompareDronesByLastPaid_def pay_key_def Let_def)

definition eligible_drones :: "CDroneList \<Rightarrow> int \<Rightarrow> Params \<Rightarrow> CDroneEntry list" where
  "eligible_drones l h p = filter (\<lambda>e. IsEligible e h p) (map snd (droneMap l))"

lemma better_payee_cases:
  "better_payee h p e b = Some a \<Longrightarrow> b = Some a \<or> a = e \<and> IsEligible e h p"
  "better_payee h p e b = None \<longleftrightarrow> b = None \<and> \<not> IsEligible e h p"
  "b = Some y \<or> y = e \<and> IsEligible e h p \<Longrightarrow> \<exists>z. better_payee h p e b = Some z \<and> pay_key z \<le> pay_key y"
  by (auto simp: better_payee_def CompareDronesByLastPaid_key not_less split: option.splits if_splits)

lemma fold_better_payee_None:
  "fold (better_payee h p) es b = None \<longleftrightarrow> b = None \<and> (\<forall>e \<in> set es. \<not> IsEligible e h p)"
  by (induction es arbitrary: b) (auto simp only: fold.simps comp_apply better_payee_cases(2) list.set ball_simps id_apply)

lemma fold_better_payee_in:
  "fold (better_payee h p) es b = Some a \<Longrightarrow> b = Some a \<or> a \<in> set es \<and> IsEligible a h p"
proof (induction es arbitrary: b)
  case (Cons e es)
  have "fold (better_payee h p) es (better_payee h p e b) = Some a" using Cons.prems by (simp only: fold.simps comp_apply)
  then show ?case using Cons.IH better_payee_cases(1) [of h p e b a] by (metis list.set_intros)
qed simp

lemma fold_better_payee_min:
  "fold (better_payee h p) es b = Some a \<Longrightarrow> b = Some y \<or> y \<in> set es \<and> IsEligible y h p \<Longrightarrow> pay_key a \<le> pay_key y"
proof (induction es arbitrary: b y)
  case (Cons e es)
  have f: "fold (better_payee h p) es (better_payee h p e b) = Some a" using Cons.prems(1) by (simp only: fold.simps comp_apply)
  show ?case
  proof (cases "y \<in> set es \<and> IsEligible y h p")
    case True
    then show ?thesis using Cons.IH [OF f] by blast
  next
    case False
    then have "b = Some y \<or> y = e \<and> IsEligible e h p" using Cons.prems(2) by auto
    then obtain z where z: "better_payee h p e b = Some z" "pay_key z \<le> pay_key y" using better_payee_cases(3) by blast
    then have "pay_key a \<le> pay_key z" using Cons.IH [OF f] by blast
    then show ?thesis using z(2) by (rule order_trans)
  qed
qed simp

lemma GetPayee_fold: "GetPayee l h p = fold (better_payee h p) (map snd (droneMap l)) None"
proof -
  have "fold (\<lambda>(pkh :: uint160, entry). better_payee h p entry) xs b = fold (better_payee h p) (map snd xs) b" for xs b
    by (induction xs arbitrary: b) auto
  then show ?thesis by (simp add: GetPayee_def)
qed

lemma GetPayee_spec:
  "GetPayee l h p = None \<longleftrightarrow> eligible_drones l h p = []"
  "GetPayee l h p = Some a \<Longrightarrow> a \<in> set (eligible_drones l h p) \<and> (\<forall>e \<in> set (eligible_drones l h p). pay_key a \<le> pay_key e)"
proof -
  show "GetPayee l h p = None \<longleftrightarrow> eligible_drones l h p = []"
    by (simp add: GetPayee_fold fold_better_payee_None eligible_drones_def filter_empty_conv)
  assume "GetPayee l h p = Some a"
  then have f: "fold (better_payee h p) (map snd (droneMap l)) None = Some a" by (simp add: GetPayee_fold)
  show "a \<in> set (eligible_drones l h p) \<and> (\<forall>e \<in> set (eligible_drones l h p). pay_key a \<le> pay_key e)"
    using fold_better_payee_in [OF f] fold_better_payee_min [OF f] by (simp add: eligible_drones_def)
qed

lemma eligible_in_view:
  "drone_list_wf l \<Longrightarrow> e \<in> set (eligible_drones l h p) \<longleftrightarrow> drone_view l (de_blsPubKeyHash e) = Some e \<and> IsEligible e h p"
proof -
  assume wf: "drone_list_wf l"
  have "e \<in> set (map snd (droneMap l)) \<longleftrightarrow> (\<exists>k. om_find (droneMap l) k = Some e)"
    using drone_list_wfD(1) [OF wf] by (force simp: om_find_iff)
  also have "\<dots> \<longleftrightarrow> om_find (droneMap l) (de_blsPubKeyHash e) = Some e"
    using drone_list_wfD(3) [OF wf] by metis
  finally show ?thesis by (auto simp: eligible_drones_def drone_view_def)
qed

section \<open>The transition by a block\<close>

lemma paid_step:
  fixes h :: int
  assumes wf: "drone_list_wf l"
  defines "l0 \<equiv> l\<lparr>dl_blockHash := replicate 32 0, dl_nHeight := h\<rparr>"
  shows "\<exists>l1. (case GetPayee l h p of Some payee \<Rightarrow> UpdateDrone (payee\<lparr>de_nLastPaidHeight := h\<rparr>) l0 | None \<Rightarrow> Inr l0) = Inr l1 \<and>
           drone_list_wf l1 \<and> same_header l0 l1 \<and>
           drone_view l1 = (case GetPayee l h p of
             Some payee \<Rightarrow> (drone_view l)(de_blsPubKeyHash payee \<mapsto> payee\<lparr>de_nLastPaidHeight := h\<rparr>) | None \<Rightarrow> drone_view l)"
proof (cases "GetPayee l h p")
  case None
  then show ?thesis using wf by (auto simp: l0_def same_header_def drone_view_def)
next
  case (Some a)
  have wf0: "drone_list_wf l0" and v0: "drone_view l0 = drone_view l" using wf by (simp_all add: l0_def drone_view_def)
  have "drone_view l0 (de_blsPubKeyHash a) = Some a"
    using GetPayee_spec(2) [OF Some] eligible_in_view [OF wf] v0 by simp
  from UpdateDrone_entry [OF wf0 this, of "a\<lparr>de_nLastPaidHeight := h\<rparr>"] show ?thesis
    using Some v0 by (auto simp: same_immutables_def)
qed

lemma fresh_tx_spec:
  "fresh_hash tx m \<Longrightarrow> dt_hash tx' \<noteq> dt_hash tx \<Longrightarrow> fresh_hash tx (tx_spec p h tx' m)"
  by (auto simp: fresh_hash_def tx_spec_def register_spec_def Let_def unspent_def new_drone_def split: option.splits if_splits)

lemma foldE_apply_tx:
  assumes "drone_list_wf l"
  shows "foldE (apply_tx p h) vtx l = Inr l' \<Longrightarrow> drone_list_wf l' \<and> same_header l l' \<and> drone_view l' = fold (tx_spec p h) vtx (drone_view l)"
    and "distinct (map dt_hash vtx) \<Longrightarrow> \<forall>tx \<in> set vtx. fresh_hash tx (drone_view l) \<and> decodable tx \<Longrightarrow>
         \<exists>l'. foldE (apply_tx p h) vtx l = Inr l'"
  using assms
proof (induction vtx arbitrary: l)
  case (Cons tx vtx)
  {
    case 1
    then obtain l1 where "apply_tx p h tx l = Inr l1" "foldE (apply_tx p h) vtx l1 = Inr l'"
      by (auto simp: bindE_eq_Inr)
    then show ?case using apply_tx_spec(1) [OF 1(2)] Cons.IH(1) by (fastforce simp: same_header_def)
  next
    case 2
    then obtain l1 where l1: "apply_tx p h tx l = Inr l1" using apply_tx_spec(2) by force
    note s = apply_tx_spec(1) [OF 2(3) l1]
    have "\<forall>y \<in> set vtx. fresh_hash y (drone_view l1) \<and> decodable y"
      using 2(1,2) s fresh_tx_spec by (auto simp: image_iff)
    then show ?case using Cons.IH(2) [of l1] 2(1) s l1 by auto
  }
qed (auto simp: same_header_def)

lemma BuildListFromBlock_spec:
  assumes "drone_list_wf l" and "BuildListFromBlock p vtx h l = Inr l'"
  shows "drone_list_wf l' \<and> dl_blockHash l' = replicate 32 0 \<and> dl_nHeight l' = h \<and> drone_view l' = block_spec p vtx h l"
proof -
  obtain l1 where l1: "drone_list_wf l1" "same_header (l\<lparr>dl_blockHash := replicate 32 0, dl_nHeight := h\<rparr>) l1"
      "drone_view l1 = (case GetPayee l h p of
             Some payee \<Rightarrow> (drone_view l)(de_blsPubKeyHash payee \<mapsto> payee\<lparr>de_nLastPaidHeight := h\<rparr>) | None \<Rightarrow> drone_view l)"
      "foldE (apply_tx p h) vtx l1 = Inr l'"
    using paid_step [OF assms(1), of h p] assms(2) by (auto simp: BuildListFromBlock_def Let_def bindE_eq_Inr)
  show ?thesis using foldE_apply_tx(1) [OF l1(1,4)] l1(2,3) by (auto simp: same_header_def block_spec_def)
qed

lemma fresh_paid:
  "drone_list_wf l \<Longrightarrow> fresh_hash tx (drone_view l) \<Longrightarrow>
   fresh_hash tx (case GetPayee l h p of
     Some payee \<Rightarrow> (drone_view l)(de_blsPubKeyHash payee \<mapsto> payee\<lparr>de_nLastPaidHeight := h\<rparr>) | None \<Rightarrow> drone_view l)"
  using GetPayee_spec(2) [of l h p] eligible_in_view [of l _ h p] by (fastforce simp: fresh_hash_def split: option.split)

lemma BuildListFromBlock_total:
  assumes wf: "drone_list_wf l" and "distinct (map dt_hash vtx)"
    and f: "\<forall>tx \<in> set vtx. fresh_hash tx (drone_view l) \<and> decodable tx"
  shows "\<exists>l'. BuildListFromBlock p vtx h l = Inr l'"
proof -
  obtain l1 where l1: "(case GetPayee l h p of
        Some payee \<Rightarrow> UpdateDrone (payee\<lparr>de_nLastPaidHeight := h\<rparr>) (l\<lparr>dl_blockHash := replicate 32 0, dl_nHeight := h\<rparr>)
      | None \<Rightarrow> Inr (l\<lparr>dl_blockHash := replicate 32 0, dl_nHeight := h\<rparr>)) = Inr l1" "drone_list_wf l1"
      "drone_view l1 = (case GetPayee l h p of
             Some payee \<Rightarrow> (drone_view l)(de_blsPubKeyHash payee \<mapsto> payee\<lparr>de_nLastPaidHeight := h\<rparr>) | None \<Rightarrow> drone_view l)"
    using paid_step [OF wf, of h p] by blast
  have "\<forall>tx \<in> set vtx. fresh_hash tx (drone_view l1) \<and> decodable tx"
    using f fresh_paid [OF wf] l1(3) by auto
  then show ?thesis using foldE_apply_tx(2) [OF l1(2) assms(2)] l1(1) by (simp add: BuildListFromBlock_def Let_def)
qed

section \<open>What a block can do to a registered drone\<close>

definition heartbeat :: "drone_tx list \<Rightarrow> uint160 \<Rightarrow> bool" where
  "heartbeat vtx k = (\<exists>tx \<in> set vtx. \<exists>reg. registration tx = Some reg \<and> dr_blsPubKeyHash reg = k)"

definition bond_kept :: "drone_tx list \<Rightarrow> CDroneEntry \<Rightarrow> bool" where
  "bond_kept vtx e = (\<forall>tx \<in> set vtx. \<not> spends tx (de_collateralOutpoint e))"

lemma tx_spec_kept:
  "m k = Some e \<Longrightarrow> \<not> spends tx (de_collateralOutpoint e) \<Longrightarrow>
   tx_spec p h tx m k = Some (if heartbeat [tx] k then e\<lparr>de_nLastSeenHeight := h\<rparr> else e)"
  by (auto simp: tx_spec_def register_spec_def unspent_def heartbeat_def Let_def split: option.splits)

lemma fold_tx_spec_kept:
  "m k = Some e \<Longrightarrow> bond_kept vtx e \<Longrightarrow>
   fold (tx_spec p h) vtx m k = Some (if heartbeat vtx k then e\<lparr>de_nLastSeenHeight := h\<rparr> else e)"
proof (induction vtx arbitrary: m e)
  case (Cons tx vtx)
  let ?e = "if heartbeat [tx] k then e\<lparr>de_nLastSeenHeight := h\<rparr> else e"
  have 1: "tx_spec p h tx m k = Some ?e" using Cons.prems by (intro tx_spec_kept) (auto simp: bond_kept_def)
  have "bond_kept vtx ?e" using Cons.prems(2) by (auto simp: bond_kept_def)
  then have "fold (tx_spec p h) vtx (tx_spec p h tx m) k = Some (if heartbeat vtx k then ?e\<lparr>de_nLastSeenHeight := h\<rparr> else ?e)"
    using Cons.IH [of "tx_spec p h tx m" ?e] 1 by simp
  then show ?case by (auto simp: heartbeat_def)
qed (simp add: heartbeat_def)

definition registered_by :: "Params \<Rightarrow> int \<Rightarrow> drone_tx list \<Rightarrow> uint160 \<Rightarrow> CDroneEntry \<Rightarrow> bool" where
  "registered_by p h vtx k e =
     (\<exists>tx \<in> set vtx. \<exists>reg. registration tx = Some reg \<and> dr_blsPubKeyHash reg = k \<and> bonded p tx reg \<and> e = new_drone tx reg h)"

lemma tx_spec_origin:
  "tx_spec p h tx m k = Some e' \<Longrightarrow>
   (\<exists>e. m k = Some e \<and> \<not> spends tx (de_collateralOutpoint e) \<and> (e' = e \<or> e' = e\<lparr>de_nLastSeenHeight := h\<rparr>)) \<or> registered_by p h [tx] k e'"
  by (auto simp: tx_spec_def register_spec_def unspent_def registered_by_def Let_def split: option.splits if_splits)

lemma fold_tx_spec_origin:
  "fold (tx_spec p h) vtx m k = Some e' \<Longrightarrow>
   (\<exists>e. m k = Some e \<and> bond_kept vtx e \<and> de_collateralOutpoint e' = de_collateralOutpoint e) \<or> registered_by p h vtx k e'"
proof (induction vtx arbitrary: m)
  case (Cons tx vtx)
  have f: "fold (tx_spec p h) vtx (tx_spec p h tx m) k = Some e'" using Cons.prems by simp
  consider (old) e1 where "tx_spec p h tx m k = Some e1" "bond_kept vtx e1" | (new) "registered_by p h vtx k e'"
    using Cons.IH [OF f] by blast
  then show ?case
  proof cases
    case old
    have e': "e' = (if heartbeat vtx k then e1\<lparr>de_nLastSeenHeight := h\<rparr> else e1)"
      using f fold_tx_spec_kept [of "tx_spec p h tx m" k e1 vtx p h] old by simp
    show ?thesis
    proof (cases "registered_by p h [tx] k e1")
      case True
      then show ?thesis using e' by (auto simp: registered_by_def new_drone_def)
    next
      case False
      then obtain e where e: "m k = Some e" "\<not> spends tx (de_collateralOutpoint e)" and "e1 = e \<or> e1 = e\<lparr>de_nLastSeenHeight := h\<rparr>"
        using tx_spec_origin [OF old(1)] by blast
      then have "de_collateralOutpoint e1 = de_collateralOutpoint e" by auto
      then show ?thesis using e old(2) e' by (intro disjI1 exI [of _ e]) (auto simp: bond_kept_def)
    qed
  next
    case new
    then show ?thesis by (auto simp: registered_by_def)
  qed
qed (auto simp: bond_kept_def)

definition mark_paid :: "int \<Rightarrow> CDroneEntry option \<Rightarrow> CDroneEntry \<Rightarrow> CDroneEntry" where
  "mark_paid h payee e = e\<lparr>de_nLastPaidHeight := if payee = Some e then h else de_nLastPaidHeight e\<rparr>"

lemma block_spec_marks:
  assumes wf: "drone_list_wf l"
  shows "block_spec p vtx h l = fold (tx_spec p h) vtx (\<lambda>k. map_option (mark_paid h (GetPayee l h p)) (drone_view l k))"
proof (cases "GetPayee l h p")
  case None
  have "mark_paid h None = id" by (simp add: mark_paid_def fun_eq_iff)
  then show ?thesis using None by (simp add: block_spec_def option.map_id)
next
  case (Some a)
  have a: "drone_view l (de_blsPubKeyHash a) = Some a"
    using GetPayee_spec(2) [OF Some] eligible_in_view [OF wf] by blast
  have "((drone_view l)(de_blsPubKeyHash a \<mapsto> a\<lparr>de_nLastPaidHeight := h\<rparr>)) k = map_option (mark_paid h (Some a)) (drone_view l k)" for k
  proof (cases "k = de_blsPubKeyHash a")
    case True
    then show ?thesis using a by (simp add: mark_paid_def)
  next
    case False
    then have "drone_view l k \<noteq> Some a" using drone_list_wfD(3) [OF wf, of k a] by (auto simp: drone_view_def)
    then show ?thesis using False by (cases "drone_view l k") (auto simp: mark_paid_def)
  qed
  then have "(drone_view l)(de_blsPubKeyHash a \<mapsto> a\<lparr>de_nLastPaidHeight := h\<rparr>) = (\<lambda>k. map_option (mark_paid h (Some a)) (drone_view l k))"
    by (rule ext)
  then show ?thesis using Some by (simp add: block_spec_def)
qed

lemma kept_drone:
  assumes "drone_list_wf l" and "BuildListFromBlock p vtx h l = Inr l'" and "GetDrone l k = Some e" and "bond_kept vtx e"
  shows "GetDrone l' k = Some (e\<lparr>de_nLastSeenHeight := if heartbeat vtx k then h else de_nLastSeenHeight e,
                                  de_nLastPaidHeight := if GetPayee l h p = Some e then h else de_nLastPaidHeight e\<rparr>)"
proof -
  let ?m = "\<lambda>k. map_option (mark_paid h (GetPayee l h p)) (GetDrone l k)" and ?e = "mark_paid h (GetPayee l h p) e"
  have v: "GetDrone l' k = fold (tx_spec p h) vtx ?m k"
    using BuildListFromBlock_spec [OF assms(1,2)] block_spec_marks [OF assms(1)] by (simp add: GetDrone_def drone_view_def)
  have "?m k = Some ?e" using assms(3) by simp
  moreover have "bond_kept vtx ?e" using assms(4) by (simp add: bond_kept_def mark_paid_def)
  ultimately show ?thesis unfolding v using fold_tx_spec_kept [of ?m k ?e vtx p h] by (simp add: mark_paid_def)
qed

text \<open>
  C7: A registered drone is protected, and the list holds only drones with a bond.  Whatever the
  transactions of a block are, a drone whose bond they do not spend keeps its payout script,
  its bond and everything else of its entry, except that its last-seen height is this block's
  when the block holds a heartbeat for its key, and its last-paid height is this block's
  when the previous list selected it.  Every other drone of the new list was registered by a
  transaction of this very block that carries its bond output and a payout script of an
  admissible form; so a spent bond removes its drone.
\<close>

theorem drone_registration_protected:
  assumes "drone_list_wf l" and "BuildListFromBlock p vtx h l = Inr l'"
  shows "(\<forall>k e. GetDrone l k = Some e \<and> bond_kept vtx e \<longrightarrow>
            GetDrone l' k = Some (e\<lparr>de_nLastSeenHeight := if heartbeat vtx k then h else de_nLastSeenHeight e,
                                    de_nLastPaidHeight := if GetPayee l h p = Some e then h else de_nLastPaidHeight e\<rparr>)) \<and>
         (\<forall>k e'. GetDrone l' k = Some e' \<and> (\<forall>e. GetDrone l k = Some e \<longrightarrow> \<not> bond_kept vtx e) \<longrightarrow> registered_by p h vtx k e')"
proof -
  define m where "m = (\<lambda>k. map_option (mark_paid h (GetPayee l h p)) (GetDrone l k))"
  have v: "GetDrone l' k = fold (tx_spec p h) vtx m k" for k
    using BuildListFromBlock_spec [OF assms] block_spec_marks [OF assms(1)] by (simp add: GetDrone_def drone_view_def m_def)
  have "registered_by p h vtx k e'"
    if e': "GetDrone l' k = Some e'" and n: "\<forall>e. GetDrone l k = Some e \<longrightarrow> \<not> bond_kept vtx e" for k e'
  proof -
    have "m k = Some x \<Longrightarrow> \<not> bond_kept vtx x" for x
      using n by (auto simp: m_def bond_kept_def mark_paid_def)
    then show ?thesis using fold_tx_spec_origin [of p h vtx m k e'] e' unfolding v by blast
  qed
  then show ?thesis using kept_drone [OF assms] by blast
qed

text \<open>
  C16: The list of a block is always computed, is well-formed, and is the map the block
  specifies.  From a well-formed list, and for a block whose transactions have different
  hashes, none of them the hash of a bond of the list, and decodable registrations, no
  operation on the way throws; the result keeps the key and bond index exact, carries the
  block's height, and holds exactly the drones the specification \<open>block_spec\<close> computes on
  plain maps: the payee of the previous list marked as paid, then for each transaction the
  spent bonds removed and the registration or heartbeat applied.
\<close>

theorem drone_block_transition:
  assumes "drone_list_wf l" and "distinct (map dt_hash vtx)"
    and "\<forall>tx \<in> set vtx. fresh_hash tx (drone_view l) \<and> decodable tx"
  shows "\<exists>l'. BuildListFromBlock p vtx h l = Inr l' \<and> drone_list_wf l' \<and> dl_nHeight l' = h \<and> drone_view l' = block_spec p vtx h l"
  using BuildListFromBlock_total [OF assms] BuildListFromBlock_spec [OF assms(1)] by blast


section \<open>An example list\<close>

definition toy_net :: Params where
  "toy_net = mainnet [] [] [] [] [] []"

lemma toy_net_drones [simp]:
  "nDroneMaxAge toy_net = 21600" "nDroneCollateralAmount toy_net = 10000 * COIN" "nDronePayoutHeight toy_net = 130000"
  by (simp_all add: toy_net_def mainnet_def)

definition toy_payload :: "8 word \<Rightarrow> CDroneRegTx" where
  "toy_payload n = \<lparr>dr_nVersion = 1, dr_blsPubKeyHash = replicate 20 n, dr_vchBlsPubKey = replicate 96 n, dr_irohNodeId = replicate 32 0,
     dr_nHardwareClass = 1, dr_nModelTier = 2, dr_nCollateralIndex = 0, dr_scriptPayout = [0x76, n],
     dr_inputsHash = replicate 32 7, dr_vchSig = replicate 48 n\<rparr>"

definition toy_reg :: "8 word \<Rightarrow> drone_tx" where
  "toy_reg n = \<lparr>dt_hash = replicate 32 n, dt_IsCoinBase = False, dt_prevouts = [COutPoint (replicate 32 99) 1],
     dt_vout = [(10000 * COIN, [1])], dt_IsSpecialTxVersion = True, dt_nType = 11, dt_vExtraPayload = ser_CDroneRegTx (toy_payload n)\<rparr>"

lemma toy_reg_payload: "drone_payload (toy_reg n) = Some (toy_payload n)"
proof -
  have "reg_ok (toy_payload n)" by (simp add: reg_ok_def toy_payload_def DRONE_REG_VERSION_def BLS_PUBKEY_SIZE_def BLS_SIGNATURE_SIZE_def)
  then show ?thesis by (simp add: drone_payload_def toy_reg_def TRANSACTION_DRONE_REGISTER_def GetTxPayload_ser)
qed

definition toy_drone :: "8 word \<Rightarrow> int \<Rightarrow> CDroneEntry" where
  "toy_drone n h = \<lparr>de_blsPubKeyHash = replicate 20 n, de_payoutScript = [0x76, n], de_collateralOutpoint = COutPoint (replicate 32 n) 0,
     de_irohNodeId = replicate 32 0, de_nHardwareClass = 1, de_nModelTier = 2,
     de_nRegisteredHeight = h, de_nLastSeenHeight = h, de_nLastPaidHeight = 0\<rparr>"

definition toy_list :: CDroneList where
  "toy_list = \<lparr>dl_blockHash = replicate 32 5, dl_nHeight = 130001,
     droneMap = [(replicate 20 1, toy_drone 1 130001), (replicate 20 2, toy_drone 2 130000)],
     collateralIndex = [(COutPoint (replicate 32 1) 0, replicate 20 1), (COutPoint (replicate 32 2) 0, replicate 20 2)]\<rparr>"

lemma replicate_less: "0 < n \<Longrightarrow> (replicate n x < replicate n y) = (x < y)" for x y :: "8 word"
proof (induction n)
  case (Suc n)
  then show ?case by (cases n) auto
qed simp

lemma toy_list_wf: "drone_list_wf toy_list"
  by (auto simp: drone_list_wf_def toy_list_def toy_drone_def om_wf_def om_find_def less_COutPoint_def replicate_less split: if_splits)

lemma toy_payee: "GetPayee toy_list 130002 toy_net = Some (toy_drone 2 130000)"
  by (simp add: GetPayee_def toy_list_def toy_drone_def better_payee_def IsEligible_def CompareDronesByLastPaid_def
      EffectiveLastPaidHeight_def Let_def)

theorem drone_registration_protected_witness:
  "\<exists>l'. BuildListFromBlock toy_net [] 130002 toy_list = Inr l' \<and>
        GetDrone l' (replicate 20 2) = Some ((toy_drone 2 130000)\<lparr>de_nLastPaidHeight := 130002\<rparr>)"
proof -
  obtain l' where l': "BuildListFromBlock toy_net [] 130002 toy_list = Inr l'"
    using BuildListFromBlock_total [OF toy_list_wf] by fastforce
  have "GetDrone toy_list (replicate 20 2) = Some (toy_drone 2 130000) \<and> bond_kept [] (toy_drone 2 130000)"
    by (simp add: GetDrone_def toy_list_def om_find_def bond_kept_def)
  then have "GetDrone l' (replicate 20 2) = Some ((toy_drone 2 130000)\<lparr>de_nLastSeenHeight := de_nLastSeenHeight (toy_drone 2 130000),
      de_nLastPaidHeight := 130002\<rparr>)"
    using conjunct1 [OF drone_registration_protected [OF toy_list_wf l'], rule_format, of "replicate 20 2" "toy_drone 2 130000"]
    by (simp add: toy_payee heartbeat_def)
  then show ?thesis using l' by simp
qed

theorem drone_block_transition_witness:
  "\<exists>l'. BuildListFromBlock toy_net [toy_reg 3] 130002 toy_list = Inr l' \<and> drone_list_wf l' \<and>
        drone_view l' (replicate 20 3) = Some (toy_drone 3 130002)"
proof -
  have "\<forall>tx \<in> set [toy_reg 3]. fresh_hash tx (drone_view toy_list) \<and> decodable tx"
    by (auto simp: fresh_hash_def drone_view_def toy_list_def toy_drone_def toy_reg_payload decodable_def om_find_def split: if_splits)
      (simp_all add: toy_reg_def)
  then obtain l' where "BuildListFromBlock toy_net [toy_reg 3] 130002 toy_list = Inr l'" "drone_list_wf l'"
      "drone_view l' = block_spec toy_net [toy_reg 3] 130002 toy_list"
    using drone_block_transition [OF toy_list_wf, of "[toy_reg 3]" toy_net 130002] by auto
  moreover have "block_spec toy_net [toy_reg 3] 130002 toy_list (replicate 20 3) = Some (toy_drone 3 130002)"
    unfolding block_spec_def toy_payee
    by (simp add: tx_spec_def registration_def register_spec_def unspent_def spends_def bonded_def toy_reg_payload toy_payload_def toy_drone_def
        toy_list_def drone_view_def om_find_def new_drone_def TRANSACTION_DRONE_REGISTER_def IsValidDronePayoutScript_def OP_RETURN_def Let_def COIN_def)
      (simp add: toy_reg_def COIN_def)
  ultimately show ?thesis by metis
qed

section \<open>The order of payments\<close>

definition pay_queue :: "CDroneList \<Rightarrow> int \<Rightarrow> Params \<Rightarrow> CDroneEntry list" where
  "pay_queue l h p = foldr insert_drone (eligible_drones l h p) []"

abbreviation "queue_sorted \<equiv> sorted_wrt (\<lambda>a b. pay_key a < pay_key b)"

lemma GetProjectedPayees_queue: "GetProjectedPayees l h p n = take n (pay_queue l h p)"
  by (simp add: GetProjectedPayees_def pay_queue_def eligible_drones_def)

lemma set_insert_drone [simp]: "set (insert_drone e xs) = insert e (set xs)"
  by (induction xs) auto

lemma insert_drone_sorted:
  "queue_sorted xs \<Longrightarrow> pay_key e \<notin> pay_key ` set xs \<Longrightarrow> queue_sorted (insert_drone e xs)"
  by (induction xs) (auto simp: CompareDronesByLastPaid_key not_less order_le_less)

lemma foldr_insert_drone:
  "distinct (map pay_key es) \<Longrightarrow> queue_sorted (foldr insert_drone es []) \<and> set (foldr insert_drone es []) = set es"
  by (induction es) (auto simp: insert_drone_sorted)

lemma distinct_pay_keys: "drone_list_wf l \<Longrightarrow> distinct (map pay_key (eligible_drones l h p))"
proof -
  assume wf: "drone_list_wf l"
  have "map de_blsPubKeyHash (map snd (droneMap l)) = map fst (droneMap l)"
    using drone_list_wfD(1,3) [OF wf] by (auto simp: om_find_iff)
  then have "distinct (map de_blsPubKeyHash (map snd (droneMap l)))"
    using om_wf_distinct [OF drone_list_wfD(1) [OF wf]] by metis
  then have "distinct (map de_blsPubKeyHash (eligible_drones l h p))"
    unfolding eligible_drones_def by (rule distinct_map_filter)
  then show ?thesis by (auto simp: distinct_map inj_on_def pay_key_def)
qed

lemma pay_queue_sorted:
  "drone_list_wf l \<Longrightarrow> queue_sorted (pay_queue l h p)"
  "drone_list_wf l \<Longrightarrow> set (pay_queue l h p) = set (eligible_drones l h p)"
  using foldr_insert_drone [OF distinct_pay_keys] by (auto simp: pay_queue_def)

lemma queue_sorted_map: "queue_sorted xs \<longleftrightarrow> sorted_wrt (<) (map pay_key xs)"
  by (simp add: sorted_wrt_map)

lemma queue_sorted_unique:
  assumes "queue_sorted xs" "queue_sorted ys" "set xs = set ys"
  shows "xs = ys"
proof -
  have "map pay_key xs = map pay_key ys"
    using assms strict_sorted_equal [of "map pay_key xs" "map pay_key ys"] by (simp add: queue_sorted_map)
  moreover have "inj_on pay_key (set xs)"
    using assms(1) strict_sorted_iff [of "map pay_key xs"] by (simp add: queue_sorted_map distinct_map)
  ultimately show ?thesis using assms(3) by (metis map_inj_on Un_absorb)
qed

lemma GetPayee_queue:
  assumes wf: "drone_list_wf l" and q: "pay_queue l h p = a # q"
  shows "GetPayee l h p = Some a"
proof -
  have a: "a \<in> set (eligible_drones l h p)" using pay_queue_sorted(2) [OF wf, of h p] q by auto
  then obtain b where b: "GetPayee l h p = Some b" using GetPayee_spec(1) [of l h p] by fastforce
  have "b \<in> set (a # q)" "pay_key b \<le> pay_key a"
    using GetPayee_spec(2) [OF b] a pay_queue_sorted(2) [OF wf, of h p] q by auto
  moreover have "\<forall>x \<in> set q. pay_key a < pay_key x" using pay_queue_sorted(1) [OF wf, of h p] q by simp
  ultimately show ?thesis using b by auto
qed

lemma IsEligible_mono: "IsEligible e h p \<Longrightarrow> h' \<le> h \<Longrightarrow> IsEligible e h' p"
  by (auto simp: IsEligible_def)

text \<open>Blocks that neither spend a bond of the list nor carry a registration.\<close>

definition bonds_of :: "CDroneList \<Rightarrow> COutPoint set" where
  "bonds_of l = {c. \<exists>k. map_option de_collateralOutpoint (drone_view l k) = Some c}"

definition idle_tx :: "COutPoint set \<Rightarrow> drone_tx \<Rightarrow> bool" where
  "idle_tx bonds tx = (registration tx = None \<and> decodable tx \<and> (\<forall>c \<in> bonds. \<not> spends tx c))"

fun payee_run :: "Params \<Rightarrow> drone_tx list list \<Rightarrow> int \<Rightarrow> CDroneList \<Rightarrow> (CDroneEntry option) list result" where
  "payee_run p [] h l = Inr []"
| "payee_run p (vtx # bs) h l =
     bindE (BuildListFromBlock p vtx h l) (\<lambda>l'.
     bindE (payee_run p bs (h + 1) l') (\<lambda>ps. Inr (GetPayee l h p # ps)))"

lemma fold_tx_spec_idle:
  "\<forall>tx \<in> set vtx. registration tx = None \<and> (\<forall>k e. m k = Some e \<longrightarrow> \<not> spends tx (de_collateralOutpoint e)) \<Longrightarrow>
   fold (tx_spec p h) vtx m = m"
proof (induction vtx)
  case (Cons tx vtx)
  have "tx_spec p h tx m = m" using Cons.prems by (auto simp: tx_spec_def unspent_def fun_eq_iff split: option.split)
  then show ?case using Cons by simp
qed simp


lemma apply_tx_idle:
  assumes "drone_list_wf l" and "registration tx = None" and "decodable tx"
  shows "\<exists>l'. apply_tx p h tx l = Inr l'"
proof -
  obtain l1 where "foldE spend_collateral (dt_prevouts tx) l = Inr l1" using foldE_spend_collateral [OF assms(1)] by blast
  then show ?thesis using assms(2,3) by (auto simp: apply_tx_def registration_def decodable_def split: if_splits)
qed

lemma foldE_apply_idle:
  "drone_list_wf l \<Longrightarrow> \<forall>tx \<in> set vtx. registration tx = None \<and> decodable tx \<Longrightarrow> \<exists>l'. foldE (apply_tx p h) vtx l = Inr l'"
proof (induction vtx arbitrary: l)
  case (Cons tx vtx)
  obtain l1 where l1: "apply_tx p h tx l = Inr l1" using apply_tx_idle Cons.prems by fastforce
  then show ?case using apply_tx_spec(1) [OF Cons.prems(1) l1] Cons.IH [of l1] Cons.prems(2) by auto
qed simp

lemma idle_block:
  assumes wf: "drone_list_wf l" and idle: "\<forall>tx \<in> set vtx. idle_tx (bonds_of l) tx"
  shows "\<exists>l'. BuildListFromBlock p vtx h l = Inr l' \<and> drone_list_wf l' \<and>
           drone_view l' = (\<lambda>k. map_option (mark_paid h (GetPayee l h p)) (drone_view l k)) \<and> bonds_of l' = bonds_of l"
proof -
  obtain l1 where l1: "(case GetPayee l h p of
        Some payee \<Rightarrow> UpdateDrone (payee\<lparr>de_nLastPaidHeight := h\<rparr>) (l\<lparr>dl_blockHash := replicate 32 0, dl_nHeight := h\<rparr>)
      | None \<Rightarrow> Inr (l\<lparr>dl_blockHash := replicate 32 0, dl_nHeight := h\<rparr>)) = Inr l1" "drone_list_wf l1"
    using paid_step [OF wf, of h p] by blast
  obtain l' where "foldE (apply_tx p h) vtx l1 = Inr l'"
    using foldE_apply_idle [OF l1(2), of vtx p h] idle by (auto simp: idle_tx_def)
  then have b: "BuildListFromBlock p vtx h l = Inr l'" using l1(1) by (simp add: BuildListFromBlock_def Let_def)
  let ?m = "\<lambda>k. map_option (mark_paid h (GetPayee l h p)) (drone_view l k)"
  have "?m k = Some e \<Longrightarrow> de_collateralOutpoint e \<in> bonds_of l" for k e
    by (auto simp: bonds_of_def mark_paid_def intro!: exI [of _ k])
  then have "\<forall>tx \<in> set vtx. registration tx = None \<and> (\<forall>k e. ?m k = Some e \<longrightarrow> \<not> spends tx (de_collateralOutpoint e))"
    using idle unfolding idle_tx_def by blast
  then have "fold (tx_spec p h) vtx ?m = ?m" by (rule fold_tx_spec_idle)
  then have v: "drone_view l' = ?m" "drone_list_wf l'"
    using BuildListFromBlock_spec [OF wf b] block_spec_marks [OF wf] by simp_all
  have "bonds_of l' = bonds_of l"
    by (simp add: bonds_of_def v option.map_comp comp_def mark_paid_def)
  then show ?thesis using b v by blast
qed

lemma queue_after_block:
  assumes wf: "drone_list_wf l" "drone_list_wf l'" and q: "pay_queue l h p = a # q"
    and v: "drone_view l' = (\<lambda>k. map_option (mark_paid h (GetPayee l h p)) (drone_view l k))"
    and h: "h \<noteq> 0" and low: "\<forall>k e. drone_view l k = Some e \<longrightarrow> EffectiveLastPaidHeight e < h"
    and el: "\<forall>k e. drone_view l k = Some e \<and> IsEligible e h p \<longrightarrow> IsEligible e (h + 1) p"
  shows "pay_queue l' (h + 1) p = q @ [a\<lparr>de_nLastPaidHeight := h\<rparr>]"
proof (rule queue_sorted_unique)
  let ?a = "a\<lparr>de_nLastPaidHeight := h\<rparr>"
  have pa: "GetPayee l h p = Some a" by (rule GetPayee_queue [OF wf(1) q])
  note S = pay_queue_sorted [OF wf(1), of h p, unfolded q] and E = eligible_in_view [OF wf(1), of _ h p]
  show "queue_sorted (pay_queue l' (h + 1) p)" by (rule pay_queue_sorted(1) [OF wf(2)])
  have "EffectiveLastPaidHeight ?a = h" using h by (simp add: EffectiveLastPaidHeight_def)
  moreover have "EffectiveLastPaidHeight x < h" if "x \<in> set q" for x
  proof -
    have "x \<in> set (eligible_drones l h p)" using S(2) that by auto
    then show ?thesis using low E [of x] by blast
  qed
  ultimately have "pay_key x < pay_key ?a" if "x \<in> set q" for x using that by (simp add: pay_key_def)
  then show "queue_sorted (q @ [?a])" using S(1) by (simp add: sorted_wrt_append)
  have elig: "IsEligible (mark_paid h (Some a) e) (h + 1) p \<longleftrightarrow> IsEligible e (h + 1) p" for e
    by (simp add: IsEligible_def mark_paid_def)
  have na: "a \<notin> set q" using S(1) by auto
  have "e \<in> set (pay_queue l' (h + 1) p) \<longleftrightarrow> (\<exists>x \<in> set (a # q). e = mark_paid h (Some a) x)" for e
  proof
    assume "e \<in> set (pay_queue l' (h + 1) p)"
    then have e: "drone_view l' (de_blsPubKeyHash e) = Some e" "IsEligible e (h + 1) p"
      using pay_queue_sorted(2) [OF wf(2)] eligible_in_view [OF wf(2)] by auto
    then obtain x where x: "drone_view l (de_blsPubKeyHash e) = Some x" "e = mark_paid h (Some a) x" by (auto simp: v pa)
    then have "de_blsPubKeyHash x = de_blsPubKeyHash e" by (simp add: mark_paid_def)
    then have "x \<in> set (a # q)" using x e(2) IsEligible_mono [of x "h + 1" p h] S(2) E [of x] elig by auto
    then show "\<exists>x \<in> set (a # q). e = mark_paid h (Some a) x" using x by blast
  next
    assume "\<exists>x \<in> set (a # q). e = mark_paid h (Some a) x"
    then obtain x where x: "drone_view l (de_blsPubKeyHash x) = Some x" "IsEligible x h p" "e = mark_paid h (Some a) x"
      using S(2) E by auto
    then have "drone_view l' (de_blsPubKeyHash e) = Some e" "IsEligible e (h + 1) p"
      using el elig by (auto simp: v pa mark_paid_def)
    then show "e \<in> set (pay_queue l' (h + 1) p)"
      using pay_queue_sorted(2) [OF wf(2)] eligible_in_view [OF wf(2)] by auto
  qed
  moreover have "(\<exists>x \<in> set (a # q). e = mark_paid h (Some a) x) \<longleftrightarrow> e \<in> set (q @ [?a])" for e
    using na by (auto simp: mark_paid_def)
  ultimately show "set (pay_queue l' (h + 1) p) = set (q @ [?a])" by blast
qed


lemma payee_run_queue:
  assumes "drone_list_wf l" and "h > 0"
    and "\<forall>k e. drone_view l k = Some e \<longrightarrow> EffectiveLastPaidHeight e < h"
    and "\<forall>k e. drone_view l k = Some e \<and> IsEligible e h p \<longrightarrow> IsEligible e (h + int (length bs) - 1) p"
    and "\<forall>vtx \<in> set bs. \<forall>tx \<in> set vtx. idle_tx (bonds_of l) tx"
    and "length bs \<le> length (pay_queue l h p)"
  shows "payee_run p bs h l = Inr (map Some (take (length bs) (pay_queue l h p)))"
  using assms
proof (induction bs arbitrary: l h)
  case (Cons vtx bs)
  note wf = Cons.prems(1)
  obtain a q where q: "pay_queue l h p = a # q" using Cons.prems(6) by (cases "pay_queue l h p") auto
  note pa = GetPayee_queue [OF wf q]
  obtain l' where l': "BuildListFromBlock p vtx h l = Inr l'" "drone_list_wf l'"
      "drone_view l' = (\<lambda>k. map_option (mark_paid h (GetPayee l h p)) (drone_view l k))" "bonds_of l' = bonds_of l"
    using idle_block [OF wf, of vtx p h] Cons.prems(5) by auto
  have "payee_run p bs (h + 1) l' = Inr (map Some (take (length bs) q))"
  proof (cases bs)
    case (Cons b bs')
    have el: "IsEligible e h p \<Longrightarrow> drone_view l k = Some e \<Longrightarrow> IsEligible e (h + int (length bs)) p" for k e
      using Cons.prems(4) by force
    have el1: "\<forall>k e. drone_view l k = Some e \<and> IsEligible e h p \<longrightarrow> IsEligible e (h + 1) p"
      using el IsEligible_mono [of _ "h + int (length bs)" p "h + 1"] Cons by auto
    have q': "pay_queue l' (h + 1) p = q @ [a\<lparr>de_nLastPaidHeight := h\<rparr>]"
      using queue_after_block [OF wf l'(2) q l'(3) _ Cons.prems(3) el1] Cons.prems(2) by simp
    have low: "\<forall>k e. drone_view l' k = Some e \<longrightarrow> EffectiveLastPaidHeight e < h + 1"
    proof (intro allI impI)
      fix k e assume "drone_view l' k = Some e"
      then obtain x where "drone_view l k = Some x" "e = mark_paid h (GetPayee l h p) x" by (auto simp: l'(3))
      then have "EffectiveLastPaidHeight x < h" "EffectiveLastPaidHeight e = h \<or> EffectiveLastPaidHeight e = EffectiveLastPaidHeight x"
        using Cons.prems(2,3) by (auto simp: mark_paid_def EffectiveLastPaidHeight_def)
      then show "EffectiveLastPaidHeight e < h + 1" by auto
    qed
    have "\<forall>k e. drone_view l' k = Some e \<and> IsEligible e (h + 1) p \<longrightarrow> IsEligible e (h + 1 + int (length bs) - 1) p"
    proof (intro allI impI, elim conjE)
      fix k e assume "drone_view l' k = Some e" and e: "IsEligible e (h + 1) p"
      then obtain x where x: "drone_view l k = Some x" "de_nLastSeenHeight e = de_nLastSeenHeight x" by (auto simp: l'(3) mark_paid_def)
      then have "IsEligible e j p = IsEligible x j p" for j by (simp add: IsEligible_def)
      then show "IsEligible e (h + 1 + int (length bs) - 1) p"
        using el [OF _ x(1)] e IsEligible_mono [of x "h + 1" p h] by simp
    qed
    moreover have "length bs \<le> length q" using Cons.prems(6) q by simp
    ultimately show ?thesis
      using Cons.IH [OF l'(2) _ low] Cons.prems(2,5) by (simp add: q' l'(4))
  qed simp
  then show ?case using l'(1) by (simp add: q pa)
qed simp

lemma length_pay_queue: "length (pay_queue l h p) = length (eligible_drones l h p)"
proof -
  have "length (insert_drone e xs) = Suc (length xs)" for e xs by (induction xs) auto
  then have "length (foldr insert_drone es []) = length es" for es by (induction es) auto
  then show ?thesis by (simp add: pay_queue_def)
qed

text \<open>
  C18: The round robin is fair, and the projection of the remote procedure call is exact.
  Take a well-formed list whose drones were last paid, or registered, before the next
  height, and any number of blocks, at most one per eligible drone, that neither spend a
  bond of the list nor register or refresh a drone, while no eligible drone ages out.  Then
  every block connects, and the drones they pay are exactly those \<open>GetProjectedPayees\<close>
  announces, in that order.  They are all different; as many blocks as there are eligible
  drones pay every one of them once.
\<close>

theorem drone_round_robin:
  assumes "drone_list_wf l" and "h > 0"
    and "\<forall>k e. drone_view l k = Some e \<longrightarrow> EffectiveLastPaidHeight e < h"
    and "\<forall>k e. drone_view l k = Some e \<and> IsEligible e h p \<longrightarrow> IsEligible e (h + int (length bs) - 1) p"
    and "\<forall>vtx \<in> set bs. \<forall>tx \<in> set vtx. idle_tx (bonds_of l) tx"
    and "length bs \<le> length (GetProjectedPayees l h p (length (droneMap l)))"
  shows "payee_run p bs h l = Inr (map Some (GetProjectedPayees l h p (length bs))) \<and>
         distinct (map de_blsPubKeyHash (GetProjectedPayees l h p (length bs))) \<and>
         (length bs = length (GetProjectedPayees l h p (length (droneMap l))) \<longrightarrow>
          set (GetProjectedPayees l h p (length bs)) = {e. GetDrone l (de_blsPubKeyHash e) = Some e \<and> IsEligible e h p})"
proof -
  have "length (eligible_drones l h p) \<le> length (droneMap l)"
    unfolding eligible_drones_def using length_filter_le [of _ "map snd (droneMap l)"] by simp
  then have full: "GetProjectedPayees l h p (length (droneMap l)) = pay_queue l h p"
    by (simp add: GetProjectedPayees_queue length_pay_queue)
  have "payee_run p bs h l = Inr (map Some (GetProjectedPayees l h p (length bs)))"
    using payee_run_queue [OF assms(1-5)] assms(6) by (simp add: full GetProjectedPayees_queue)
  moreover have "distinct (map de_blsPubKeyHash (pay_queue l h p))"
  proof -
    have "inj_on de_blsPubKeyHash (set (pay_queue l h p))"
      using pay_queue_sorted(2) [OF assms(1)] eligible_in_view [OF assms(1)] by (intro inj_onI) (metis option.inject)
    moreover have "distinct (pay_queue l h p)"
      using pay_queue_sorted(1) [OF assms(1), of h p] strict_sorted_iff [of "map pay_key (pay_queue l h p)"]
      by (simp add: queue_sorted_map distinct_map)
    ultimately show ?thesis by (simp add: distinct_map)
  qed
  then have "distinct (map de_blsPubKeyHash (GetProjectedPayees l h p (length bs)))"
    by (simp add: GetProjectedPayees_queue distinct_take flip: take_map)
  moreover have "set (pay_queue l h p) = {e. GetDrone l (de_blsPubKeyHash e) = Some e \<and> IsEligible e h p}"
    using pay_queue_sorted(2) [OF assms(1)] eligible_in_view [OF assms(1)] by (auto simp: GetDrone_def drone_view_def)
  ultimately show ?thesis by (simp add: full) (simp add: GetProjectedPayees_queue)
qed

theorem drone_round_robin_witness:
  "payee_run toy_net [[], []] 130002 toy_list = Inr [Some (toy_drone 2 130000), Some (toy_drone 1 130001)]"
proof -
  have pr: "GetProjectedPayees toy_list 130002 toy_net 2 = [toy_drone 2 130000, toy_drone 1 130001]"
    by (simp add: GetProjectedPayees_def toy_list_def toy_drone_def IsEligible_def CompareDronesByLastPaid_def
        EffectiveLastPaidHeight_def Let_def)
  have v: "drone_view toy_list k = Some e \<Longrightarrow> e = toy_drone 1 130001 \<or> e = toy_drone 2 130000" for k e
    by (auto simp: drone_view_def toy_list_def om_find_def split: if_splits)
  have "length (droneMap toy_list) = 2" by (simp add: toy_list_def)
  moreover have "\<forall>k e. drone_view toy_list k = Some e \<longrightarrow> EffectiveLastPaidHeight e < 130002"
    using v by (fastforce simp: EffectiveLastPaidHeight_def toy_drone_def)
  moreover have "\<forall>k e. drone_view toy_list k = Some e \<and> IsEligible e 130002 toy_net \<longrightarrow> IsEligible e 130003 toy_net"
    using v by (fastforce simp: IsEligible_def toy_drone_def)
  ultimately show ?thesis
    using drone_round_robin [OF toy_list_wf, of 130002 toy_net "[[], []]"] pr by (simp add: numeral_2_eq_2)
qed

end
