(* ===== verification/Evo_Db.thy ===== *)
theory Evo_Db
  imports Ordered_Map Serialize
begin

text \<open>
  \<^verbatim>\<open>dbwrapper.h\<close> (\<^verbatim>\<open>CDBTransaction\<close>) and \<^verbatim>\<open>evo/evodb.h\<close>, \<^verbatim>\<open>evo/evodb.cpp\<close> (\<^verbatim>\<open>CEvoDB\<close>): a database
  below two nested write-back transactions.  A key is its serialised bytes.  A value is
  kept as it was written; its serialised size is the argument \<open>vsize\<close>.  The database itself
  (LevelDB) is a map, and a batch written to it takes effect as a whole.
\<close>

section \<open>One transaction\<close>

record 'v CDBTransaction =
  tx_memoryUsage :: nat
  tx_writes :: "(bytes, 'v \<times> nat) omap"
  tx_deletes :: "(bytes, unit) omap"

definition new_transaction :: "'v CDBTransaction" where
  "new_transaction = \<lparr>tx_memoryUsage = 0, tx_writes = [], tx_deletes = []\<rparr>"

definition release_memory :: "nat \<Rightarrow> nat \<Rightarrow> nat" where
  "release_memory delta usage = (if delta > usage then 0 else usage - delta)"

definition txn_Write :: "('v \<Rightarrow> nat) \<Rightarrow> bytes \<Rightarrow> 'v \<Rightarrow> 'v CDBTransaction \<Rightarrow> 'v CDBTransaction" where
  "txn_Write vsize ssKey v t =
     (let t = (if om_find (tx_deletes t) ssKey \<noteq> None
               then t\<lparr>tx_deletes := om_erase ssKey (tx_deletes t),
                      tx_memoryUsage := release_memory (length ssKey) (tx_memoryUsage t)\<rparr>
               else t);
          t = (case om_find (tx_writes t) ssKey of
                 Some (_, valueSize) \<Rightarrow> t\<lparr>tx_memoryUsage := release_memory (length ssKey + valueSize) (tx_memoryUsage t)\<rparr>
               | None \<Rightarrow> t)
      in t\<lparr>tx_writes := om_set ssKey (v, vsize v) (tx_writes t),
           tx_memoryUsage := tx_memoryUsage t + (length ssKey + vsize v)\<rparr>)"

definition txn_Read :: "(bytes \<Rightarrow> 'v option) \<Rightarrow> 'v CDBTransaction \<Rightarrow> bytes \<Rightarrow> 'v option" where
  "txn_Read parent t ssKey =
     (if om_find (tx_deletes t) ssKey \<noteq> None then None
      else case om_find (tx_writes t) ssKey of
             Some (v, _) \<Rightarrow> Some v
           | None \<Rightarrow> parent ssKey)"

definition txn_Exists :: "(bytes \<Rightarrow> bool) \<Rightarrow> 'v CDBTransaction \<Rightarrow> bytes \<Rightarrow> bool" where
  "txn_Exists parent t ssKey =
     (if om_find (tx_deletes t) ssKey \<noteq> None then False
      else if om_find (tx_writes t) ssKey \<noteq> None then True
      else parent ssKey)"

definition txn_Erase :: "bytes \<Rightarrow> 'v CDBTransaction \<Rightarrow> 'v CDBTransaction" where
  "txn_Erase ssKey t =
     (let t = (case om_find (tx_writes t) ssKey of
                 Some (_, valueSize) \<Rightarrow>
                   t\<lparr>tx_memoryUsage := release_memory (length ssKey + valueSize) (tx_memoryUsage t),
                     tx_writes := om_erase ssKey (tx_writes t)\<rparr>
               | None \<Rightarrow> t)
      in if om_find (tx_deletes t) ssKey = None
         then t\<lparr>tx_deletes := om_set ssKey () (tx_deletes t), tx_memoryUsage := tx_memoryUsage t + length ssKey\<rparr>
         else t)"

definition txn_Clear :: "'v CDBTransaction \<Rightarrow> 'v CDBTransaction" where
  "txn_Clear t = t\<lparr>tx_writes := [], tx_deletes := [], tx_memoryUsage := 0\<rparr>"

text \<open>\<^verbatim>\<open>Commit\<close> to a target with the operations \<open>erase\<close> and \<open>put\<close>: the new target and the cleared transaction.\<close>

definition txn_Commit ::
    "(bytes \<Rightarrow> 't \<Rightarrow> 't) \<Rightarrow> (bytes \<Rightarrow> 'v \<Rightarrow> 't \<Rightarrow> 't) \<Rightarrow> 'v CDBTransaction \<Rightarrow> 't \<Rightarrow> 't \<times> 'v CDBTransaction" where
  "txn_Commit erase put t target =
     (fold (\<lambda>(k, v, _). put k v) (tx_writes t) (fold (\<lambda>(k, _). erase k) (tx_deletes t) target), txn_Clear t)"

definition txn_IsClean :: "'v CDBTransaction \<Rightarrow> bool" where
  "txn_IsClean t = (tx_writes t = [] \<and> tx_deletes t = [])"

section \<open>The database and its batch\<close>

datatype 'v batch_op = BatchErase bytes | BatchWrite bytes 'v

fun apply_batch_op :: "'v batch_op \<Rightarrow> (bytes, 'v) omap \<Rightarrow> (bytes, 'v) omap" where
  "apply_batch_op (BatchErase k) d = om_erase k d"
| "apply_batch_op (BatchWrite k v) d = om_set k v d"

definition WriteBatch :: "'v batch_op list \<Rightarrow> (bytes, 'v) omap \<Rightarrow> (bytes, 'v) omap" where
  "WriteBatch batch d = fold apply_batch_op batch d"

record 'v CEvoDB =
  evo_db :: "(bytes, 'v) omap"
  rootBatch :: "'v batch_op list"
  rootDBTransaction :: "'v CDBTransaction"
  curDBTransaction :: "'v CDBTransaction"

definition open_evodb :: "(bytes, 'v) omap \<Rightarrow> 'v CEvoDB" where
  "open_evodb d = \<lparr>evo_db = d, rootBatch = [], rootDBTransaction = new_transaction, curDBTransaction = new_transaction\<rparr>"

definition root_Read :: "'v CEvoDB \<Rightarrow> bytes \<Rightarrow> 'v option" where
  "root_Read e = txn_Read (om_find (evo_db e)) (rootDBTransaction e)"

definition evo_Read :: "'v CEvoDB \<Rightarrow> bytes \<Rightarrow> 'v option" where
  "evo_Read e = txn_Read (root_Read e) (curDBTransaction e)"

definition evo_Exists :: "'v CEvoDB \<Rightarrow> bytes \<Rightarrow> bool" where
  "evo_Exists e = txn_Exists (txn_Exists (\<lambda>k. om_find (evo_db e) k \<noteq> None) (rootDBTransaction e)) (curDBTransaction e)"

definition evo_Write :: "('v \<Rightarrow> nat) \<Rightarrow> bytes \<Rightarrow> 'v \<Rightarrow> 'v CEvoDB \<Rightarrow> 'v CEvoDB" where
  "evo_Write vsize k v e = e\<lparr>curDBTransaction := txn_Write vsize k v (curDBTransaction e)\<rparr>"

definition evo_Erase :: "bytes \<Rightarrow> 'v CEvoDB \<Rightarrow> 'v CEvoDB" where
  "evo_Erase k e = e\<lparr>curDBTransaction := txn_Erase k (curDBTransaction e)\<rparr>"

definition CommitCurTransaction :: "('v \<Rightarrow> nat) \<Rightarrow> 'v CEvoDB \<Rightarrow> 'v CEvoDB" where
  "CommitCurTransaction vsize e =
     (let (root, cur) = txn_Commit txn_Erase (txn_Write vsize) (curDBTransaction e) (rootDBTransaction e)
      in e\<lparr>rootDBTransaction := root, curDBTransaction := cur\<rparr>)"

definition RollbackCurTransaction :: "'v CEvoDB \<Rightarrow> 'v CEvoDB" where
  "RollbackCurTransaction e = e\<lparr>curDBTransaction := txn_Clear (curDBTransaction e)\<rparr>"

text \<open>\<open>None\<close> is the failed assertion that the current transaction is clean.\<close>

definition CommitRootTransaction :: "'v CEvoDB \<Rightarrow> 'v CEvoDB option" where
  "CommitRootTransaction e =
     (if \<not> txn_IsClean (curDBTransaction e) then None
      else let (batch, root) = txn_Commit (\<lambda>k b. b @ [BatchErase k]) (\<lambda>k v b. b @ [BatchWrite k v]) (rootDBTransaction e) (rootBatch e)
           in Some (e\<lparr>rootDBTransaction := root, evo_db := WriteBatch batch (evo_db e), rootBatch := []\<rparr>))"

definition GetMemoryUsage :: "'v CEvoDB \<Rightarrow> nat" where
  "GetMemoryUsage e = tx_memoryUsage (rootDBTransaction e)"

text \<open>A start of the node on the files a stopped or killed node left.\<close>

definition reopen_evodb :: "'v CEvoDB \<Rightarrow> 'v CEvoDB" where
  "reopen_evodb e = open_evodb (evo_db e)"

section \<open>Transactions as maps\<close>

definition txn_wf :: "('v \<Rightarrow> nat) \<Rightarrow> 'v CDBTransaction \<Rightarrow> bool" where
  "txn_wf vsize t =
     (om_wf (tx_writes t) \<and> om_wf (tx_deletes t) \<and>
      (\<forall>k. om_find (tx_deletes t) k \<noteq> None \<longrightarrow> om_find (tx_writes t) k = None) \<and>
      (\<forall>(k, v, n) \<in> set (tx_writes t). n = vsize v) \<and>
      tx_memoryUsage t = (\<Sum>(k, v, n) \<leftarrow> tx_writes t. length k + n) + (\<Sum>(k, _) \<leftarrow> tx_deletes t. length k))"

lemma sum_om_erase:
  "om_wf m \<Longrightarrow> (\<Sum>x \<leftarrow> om_erase k m. f x) = (\<Sum>x \<leftarrow> m. f x) - (case om_find m k of None \<Rightarrow> 0 | Some v \<Rightarrow> f (k, v))"
  for f :: "'k::linorder \<times> 'v \<Rightarrow> nat"
proof (induction m)
  case (Cons a m)
  obtain k' v where a: "a = (k', v)" by (cases a)
  show ?case
  proof (cases "k' = k")
    case True
    then have "om_find m k = None" using Cons.prems a by (auto simp: om_wf_Cons om_find_None_iff)
    moreover have "om_erase k m = m"
      using Cons.prems a True by (fastforce simp: om_wf_Cons om_erase_def filter_id_conv)
    ultimately show ?thesis using a True by (simp add: om_find_def om_erase_def)
  next
    case False
    have wf: "om_wf m" using Cons.prems a by (simp add: om_wf_Cons)
    have le: "(case om_find m k of None \<Rightarrow> 0 | Some v \<Rightarrow> f (k, v)) \<le> (\<Sum>x \<leftarrow> m. f x)"
      by (auto split: option.split dest!: om_find_Some_in intro: member_le_sum_list)
    show ?thesis using a False Cons.IH [OF wf] le by (simp add: om_find_def om_erase_def)
  qed
qed (simp add: om_erase_def)

lemma om_find_le_sum:
  "om_find m k = Some v \<Longrightarrow> f (k, v) \<le> (\<Sum>x \<leftarrow> m. f x)" for f :: "'k \<times> 'v \<Rightarrow> nat"
  by (auto dest!: om_find_Some_in intro: member_le_sum_list)

lemma nat_sum_om_set:
  "om_wf m \<Longrightarrow> (\<Sum>x \<leftarrow> om_set k v m. f x) + (case om_find m k of None \<Rightarrow> 0 | Some w \<Rightarrow> f (k, w)) = (\<Sum>x \<leftarrow> m. f x) + f (k, v)"
  for f :: "'k::linorder \<times> 'v \<Rightarrow> nat"
proof (induction m)
  case (Cons a m)
  obtain k' w where a: "a = (k', w)" by (cases a)
  have wf: "om_wf m" and lt: "\<forall>j \<in> fst ` set m. k' < j" using Cons.prems a by (auto simp: om_wf_Cons)
  have "k < k' \<Longrightarrow> om_find m k = None" using lt by (force simp: om_find_None_iff)
  then show ?case using a Cons.IH [OF wf] by (auto simp: om_find_def split: option.splits)
qed simp

lemma release_memory_exact [simp]: "release_memory d (d + n) = n"
  by (simp add: release_memory_def)

lemma txn_wfD:
  assumes "txn_wf vsize t"
  shows "om_wf (tx_writes t)" "om_wf (tx_deletes t)"
    and "om_find (tx_deletes t) k \<noteq> None \<Longrightarrow> om_find (tx_writes t) k = None"
    and "om_find (tx_writes t) k = Some (v, n) \<Longrightarrow> n = vsize v"
    and "tx_memoryUsage t = (\<Sum>(k, v, n) \<leftarrow> tx_writes t. length k + n) + (\<Sum>(k, _) \<leftarrow> tx_deletes t. length k)"
  using assms by (auto simp: txn_wf_def dest!: om_find_Some_in)

lemma new_transaction_wf [simp, intro]: "txn_wf vsize new_transaction"
  by (simp add: txn_wf_def new_transaction_def)

lemma txn_Clear_wf [simp, intro]: "txn_wf vsize (txn_Clear t)"
  by (simp add: txn_wf_def txn_Clear_def)

lemma txn_Write_wf [simp, intro]:
  assumes wf: "txn_wf vsize t"
  shows "txn_wf vsize (txn_Write vsize k v t)"
proof -
  let ?f = "\<lambda>(k :: bytes, v, n). length k + n" and ?g = "\<lambda>(k :: bytes, _ :: unit). length k"
  note D = txn_wfD [OF wf]
  have w: "(\<Sum>x \<leftarrow> om_set k (v, vsize v) (tx_writes t). ?f x)
      + (case om_find (tx_writes t) k of None \<Rightarrow> 0 | Some w \<Rightarrow> ?f (k, w)) = (\<Sum>x \<leftarrow> tx_writes t. ?f x) + (length k + vsize v)"
    using nat_sum_om_set [OF D(1), of ?f k "(v, vsize v)"] by simp
  have d: "(\<Sum>x \<leftarrow> om_erase k (tx_deletes t). ?g x) = (\<Sum>x \<leftarrow> tx_deletes t. ?g x) - (case om_find (tx_deletes t) k of None \<Rightarrow> 0 | Some u \<Rightarrow> ?g (k, u))"
    by (rule sum_om_erase) (rule D(2))
  have le: "om_find (tx_deletes t) k = Some u \<Longrightarrow> length k \<le> (\<Sum>x \<leftarrow> tx_deletes t. ?g x)" for u
    using om_find_le_sum [of "tx_deletes t" k u ?g] by simp
  have le': "om_find (tx_writes t) k = Some (x, n) \<Longrightarrow> length k + n \<le> (\<Sum>x \<leftarrow> tx_writes t. ?f x)" for x n
    using om_find_le_sum [of "tx_writes t" k "(x, n)" ?f] by simp
  have sz: "\<forall>(j, x, n) \<in> set (om_set k (v, vsize v) (tx_writes t)). n = vsize x"
    using set_om_set [of k "(v, vsize v)" "tx_writes t"] wf by (fastforce simp: txn_wf_def)
  show ?thesis
  proof (cases "om_find (tx_deletes t) k")
    case None
    then show ?thesis
      using D(1,2,3,5) w le' sz
      by (cases "om_find (tx_writes t) k")
        (auto simp: txn_wf_def txn_Write_def Let_def om_find_set release_memory_def)
  next
    case (Some u)
    then show ?thesis
      using D(1,2,3,5) D(3) [of k] w d le [OF Some] sz
      by (auto simp: txn_wf_def txn_Write_def Let_def om_find_set om_find_erase release_memory_def)
  qed
qed

lemma txn_Erase_wf [simp, intro]:
  assumes wf: "txn_wf vsize t"
  shows "txn_wf vsize (txn_Erase k t)"
proof -
  let ?f = "\<lambda>(k :: bytes, v, n). length k + n" and ?g = "\<lambda>(k :: bytes, _ :: unit). length k"
  note D = txn_wfD [OF wf]
  have w: "(\<Sum>x \<leftarrow> om_erase k (tx_writes t). ?f x) = (\<Sum>x \<leftarrow> tx_writes t. ?f x) - (case om_find (tx_writes t) k of None \<Rightarrow> 0 | Some u \<Rightarrow> ?f (k, u))"
    by (rule sum_om_erase) (rule D(1))
  have d: "(\<Sum>x \<leftarrow> om_set k () (tx_deletes t). ?g x) + (case om_find (tx_deletes t) k of None \<Rightarrow> 0 | Some u \<Rightarrow> ?g (k, u)) = (\<Sum>x \<leftarrow> tx_deletes t. ?g x) + length k"
    using nat_sum_om_set [OF D(2), of ?g k "()"] by simp
  have le: "om_find (tx_writes t) k = Some (x, n) \<Longrightarrow> length k + n \<le> (\<Sum>x \<leftarrow> tx_writes t. ?f x)" for x n
    using om_find_le_sum [of "tx_writes t" k "(x, n)" ?f] by simp
  have sz: "\<forall>(j, x, n) \<in> set (om_erase k (tx_writes t)). n = vsize x"
    using wf by (auto simp: txn_wf_def om_erase_def)
  show ?thesis
  proof (cases "om_find (tx_writes t) k")
    case None
    then show ?thesis
      using D(1,2,3,5) d wf by (auto simp: txn_wf_def txn_Erase_def Let_def om_find_set)
  next
    case (Some u)
    then have "om_find (tx_deletes t) k = None" using D(3) [of k] by (cases "om_find (tx_deletes t) k") auto
    then show ?thesis
      using D(1,2,3,5) w d Some le [of "fst u" "snd u"] sz
      by (auto simp: txn_wf_def txn_Erase_def Let_def om_find_set om_find_erase release_memory_def split: prod.splits)
  qed
qed

lemma txn_Read_new [simp]: "txn_Read P new_transaction = P"
  by (simp add: fun_eq_iff txn_Read_def new_transaction_def)

lemma txn_Read_Clear [simp]: "txn_Read P (txn_Clear t) = P"
  by (simp add: fun_eq_iff txn_Read_def txn_Clear_def)

lemma txn_Read_Write [simp]: "txn_wf vsize t \<Longrightarrow> txn_Read P (txn_Write vsize k v t) = (txn_Read P t)(k \<mapsto> v)"
  using txn_wfD(1,2) [of vsize t] by (auto simp: fun_eq_iff txn_Read_def txn_Write_def Let_def om_find_set om_find_erase split: option.splits)

lemma txn_Read_Erase [simp]: "txn_wf vsize t \<Longrightarrow> txn_Read P (txn_Erase k t) = (txn_Read P t)(k := None)"
  using txn_wfD(1,2) [of vsize t] by (auto simp: fun_eq_iff txn_Read_def txn_Erase_def Let_def om_find_set om_find_erase split: option.splits)

lemma txn_Read_clean: "txn_IsClean t \<Longrightarrow> txn_Read P t = P"
  by (simp add: fun_eq_iff txn_Read_def txn_IsClean_def)

lemma txn_IsClean_Clear [simp]: "txn_IsClean (txn_Clear t)" "txn_IsClean new_transaction"
  by (simp_all add: txn_IsClean_def txn_Clear_def new_transaction_def)

lemma om_set_not_Nil [simp]: "om_set k v m \<noteq> []"
  by (cases m) (auto split: if_splits)

lemma txn_not_clean [simp]: "\<not> txn_IsClean (txn_Write vsize k v t)" "\<not> txn_IsClean (txn_Erase k t)"
  by (auto simp: txn_IsClean_def txn_Write_def txn_Erase_def Let_def split: option.splits if_splits)

lemma txn_Exists_Read: "txn_Exists (\<lambda>k. P k \<noteq> None) t k = (txn_Read P t k \<noteq> None)"
  by (auto simp: txn_Exists_def txn_Read_def split: option.splits)

section \<open>Targets of a commit\<close>

locale commit_target =
  fixes erase :: "bytes \<Rightarrow> 't \<Rightarrow> 't"
    and put :: "bytes \<Rightarrow> 'v \<Rightarrow> 't \<Rightarrow> 't"
    and read :: "'t \<Rightarrow> bytes \<Rightarrow> 'v option"
    and ok :: "'t \<Rightarrow> bool"
  assumes ok_erase: "ok t \<Longrightarrow> ok (erase k t)"
    and ok_put: "ok t \<Longrightarrow> ok (put k v t)"
    and read_erase: "ok t \<Longrightarrow> read (erase k t) = (read t)(k := None)"
    and read_put: "ok t \<Longrightarrow> read (put k v t) = (read t)(k \<mapsto> v)"
begin

lemma fold_erase:
  "ok t \<Longrightarrow> ok (fold (\<lambda>(k, _). erase k) ds t) \<and>
     read (fold (\<lambda>(k, _). erase k) ds t) = (\<lambda>j. if om_find ds j = None then read t j else None)"
  by (induction ds arbitrary: t) (auto simp: read_erase ok_erase fun_eq_iff om_find_def)

lemma fold_put:
  "distinct (map fst ws) \<Longrightarrow> ok t \<Longrightarrow> ok (fold (\<lambda>(k, v, _). put k v) ws t) \<and>
     read (fold (\<lambda>(k, v, _). put k v) ws t) = (\<lambda>j. case om_find ws j of Some (v, n) \<Rightarrow> Some v | None \<Rightarrow> read t j)"
proof (induction ws arbitrary: t)
  case (Cons a ws)
  obtain k v n where a: "a = (k, v, n)" by (cases a)
  have "om_find ws k = None" using Cons.prems a by (simp add: om_find_None_iff)
  then show ?case using Cons a by (auto simp: fun_eq_iff read_put ok_put om_find_def split: option.splits)
qed simp

lemma commit_ok: "txn_wf vsize t \<Longrightarrow> ok tgt \<Longrightarrow> ok (fst (txn_Commit erase put t tgt))"
  using om_wf_distinct [OF txn_wfD(1), of vsize t] by (simp add: txn_Commit_def fold_erase fold_put)

lemma read_commit: "txn_wf vsize t \<Longrightarrow> ok tgt \<Longrightarrow> read (fst (txn_Commit erase put t tgt)) = txn_Read (read tgt) t"
  using om_wf_distinct [OF txn_wfD(1), of vsize t] txn_wfD(3) [of vsize t]
  by (auto simp: fun_eq_iff txn_Commit_def fold_put fold_erase txn_Read_def
      split: option.split)

end

interpretation root_target: commit_target txn_Erase "txn_Write vsize" "txn_Read P" "txn_wf vsize" for vsize P
  by unfold_locales auto

interpretation batch_target:
  commit_target "\<lambda>k b. b @ [BatchErase k]" "\<lambda>k v b. b @ [BatchWrite k v]" "\<lambda>b. om_find (WriteBatch b d)"
    "\<lambda>b. om_wf (WriteBatch b d)" for d
  by unfold_locales (auto simp: WriteBatch_def om_find_erase om_find_set)

section \<open>The database as three maps\<close>

text \<open>What a client of the database can do with it, and the states it then goes through.\<close>

datatype 'v evo_op =
  Op_Write bytes 'v | Op_Erase bytes | Op_CommitCur | Op_RollbackCur | Op_CommitRoot | Op_Reopen

fun evo_step :: "('v \<Rightarrow> nat) \<Rightarrow> 'v evo_op \<Rightarrow> 'v CEvoDB \<Rightarrow> 'v CEvoDB option" where
  "evo_step vsize (Op_Write k v) e = Some (evo_Write vsize k v e)"
| "evo_step vsize (Op_Erase k) e = Some (evo_Erase k e)"
| "evo_step vsize Op_CommitCur e = Some (CommitCurTransaction vsize e)"
| "evo_step vsize Op_RollbackCur e = Some (RollbackCurTransaction e)"
| "evo_step vsize Op_CommitRoot e = CommitRootTransaction e"
| "evo_step vsize Op_Reopen e = Some (reopen_evodb e)"

fun evo_run :: "('v \<Rightarrow> nat) \<Rightarrow> 'v evo_op list \<Rightarrow> 'v CEvoDB \<Rightarrow> 'v CEvoDB option" where
  "evo_run vsize [] e = Some e"
| "evo_run vsize (op # ops) e = (case evo_step vsize op e of None \<Rightarrow> None | Some e \<Rightarrow> evo_run vsize ops e)"

text \<open>The specification: what is on disk, what is committed and what a reader sees.\<close>

record 'v layers =
  on_disk :: "bytes \<Rightarrow> 'v option"
  committed :: "bytes \<Rightarrow> 'v option"
  visible :: "bytes \<Rightarrow> 'v option"
  in_transaction :: bool

fun layer_step :: "'v evo_op \<Rightarrow> 'v layers \<Rightarrow> 'v layers option" where
  "layer_step (Op_Write k v) l = Some (l\<lparr>visible := (visible l)(k \<mapsto> v), in_transaction := True\<rparr>)"
| "layer_step (Op_Erase k) l = Some (l\<lparr>visible := (visible l)(k := None), in_transaction := True\<rparr>)"
| "layer_step Op_CommitCur l = Some (l\<lparr>committed := visible l, in_transaction := False\<rparr>)"
| "layer_step Op_RollbackCur l = Some (l\<lparr>visible := committed l, in_transaction := False\<rparr>)"
| "layer_step Op_CommitRoot l = (if in_transaction l then None else Some (l\<lparr>on_disk := committed l\<rparr>))"
| "layer_step Op_Reopen l = Some (l\<lparr>committed := on_disk l, visible := on_disk l, in_transaction := False\<rparr>)"

fun layer_run :: "'v evo_op list \<Rightarrow> 'v layers \<Rightarrow> 'v layers option" where
  "layer_run [] l = Some l"
| "layer_run (op # ops) l = (case layer_step op l of None \<Rightarrow> None | Some l \<Rightarrow> layer_run ops l)"

definition layers_of :: "'v CEvoDB \<Rightarrow> 'v layers" where
  "layers_of e = \<lparr>on_disk = om_find (evo_db e), committed = root_Read e, visible = evo_Read e,
                  in_transaction = (\<not> txn_IsClean (curDBTransaction e))\<rparr>"

definition evo_wf :: "('v \<Rightarrow> nat) \<Rightarrow> 'v CEvoDB \<Rightarrow> bool" where
  "evo_wf vsize e =
     (om_wf (evo_db e) \<and> rootBatch e = [] \<and> txn_wf vsize (rootDBTransaction e) \<and> txn_wf vsize (curDBTransaction e))"

lemma evo_wf_open: "om_wf d \<Longrightarrow> evo_wf vsize (open_evodb d)"
  by (simp add: evo_wf_def open_evodb_def)

lemma layers_of_open: "layers_of (open_evodb d) = \<lparr>on_disk = om_find d, committed = om_find d, visible = om_find d, in_transaction = False\<rparr>"
  by (simp add: layers_of_def open_evodb_def root_Read_def evo_Read_def)

lemma CommitCur_layers:
  assumes "evo_wf vsize e"
  shows "evo_wf vsize (CommitCurTransaction vsize e)"
    and "layers_of (CommitCurTransaction vsize e) = (layers_of e)\<lparr>committed := visible (layers_of e), in_transaction := False\<rparr>"
proof -
  define r where "r = fst (txn_Commit txn_Erase (txn_Write vsize) (curDBTransaction e) (rootDBTransaction e))"
  have eq: "CommitCurTransaction vsize e = e\<lparr>rootDBTransaction := r, curDBTransaction := txn_Clear (curDBTransaction e)\<rparr>"
    by (simp add: CommitCurTransaction_def r_def txn_Commit_def)
  have "txn_wf vsize r"
    using root_target.commit_ok [of vsize "curDBTransaction e" vsize "rootDBTransaction e"] assms by (simp add: r_def evo_wf_def)
  then show "evo_wf vsize (CommitCurTransaction vsize e)" using assms by (simp add: eq evo_wf_def)
  have "txn_Read P r = txn_Read (txn_Read P (rootDBTransaction e)) (curDBTransaction e)" for P
    using root_target.read_commit [of vsize "curDBTransaction e" vsize "rootDBTransaction e" P] assms by (simp add: r_def evo_wf_def)
  then show "layers_of (CommitCurTransaction vsize e) = (layers_of e)\<lparr>committed := visible (layers_of e), in_transaction := False\<rparr>"
    by (simp add: eq layers_of_def root_Read_def evo_Read_def)
qed

lemma CommitRoot_layers:
  assumes "evo_wf vsize e" and "txn_IsClean (curDBTransaction e)"
  shows "\<exists>e'. CommitRootTransaction e = Some e' \<and> evo_wf vsize e' \<and>
          layers_of e' = (layers_of e)\<lparr>on_disk := committed (layers_of e)\<rparr>"
proof -
  define b where "b = fst (txn_Commit (\<lambda>k b. b @ [BatchErase k]) (\<lambda>k v b. b @ [BatchWrite k v]) (rootDBTransaction e) [])"
  let ?e = "e\<lparr>rootDBTransaction := txn_Clear (rootDBTransaction e), evo_db := WriteBatch b (evo_db e), rootBatch := []\<rparr>"
  have eq: "CommitRootTransaction e = Some ?e"
    using assms by (simp add: CommitRootTransaction_def b_def txn_Commit_def evo_wf_def)
  have base: "WriteBatch [] d = d" for d :: "(bytes, 'a) omap" by (simp add: WriteBatch_def)
  have "om_wf (WriteBatch b (evo_db e))"
    using batch_target.commit_ok [of vsize "rootDBTransaction e" "[]" "evo_db e"] assms by (simp add: b_def evo_wf_def base)
  then have wf: "evo_wf vsize ?e" using assms by (simp add: evo_wf_def)
  have "om_find (WriteBatch b (evo_db e)) = root_Read e"
    using batch_target.read_commit [of vsize "rootDBTransaction e" "[]" "evo_db e"] assms
    by (simp add: b_def evo_wf_def base root_Read_def)
  then have "layers_of ?e = (layers_of e)\<lparr>on_disk := committed (layers_of e)\<rparr>"
    using assms(2) by (simp add: layers_of_def root_Read_def evo_Read_def txn_Read_clean)
  then show ?thesis using eq wf by blast
qed

lemma evo_step_layers:
  assumes "evo_wf vsize e"
  shows "map_option layers_of (evo_step vsize op e) = layer_step op (layers_of e)"
    and "evo_step vsize op e = Some e' \<Longrightarrow> evo_wf vsize e'"
proof -
  note defs = evo_Write_def evo_Erase_def RollbackCurTransaction_def reopen_evodb_def layers_of_def
    root_Read_def evo_Read_def evo_wf_def
  have "map_option layers_of (evo_step vsize op e) = layer_step op (layers_of e) \<and>
        (\<forall>e'. evo_step vsize op e = Some e' \<longrightarrow> evo_wf vsize e')"
  proof (cases op)
    case Op_CommitCur
    then show ?thesis using CommitCur_layers [OF assms] by simp
  next
    case Op_CommitRoot
    show ?thesis
    proof (cases "txn_IsClean (curDBTransaction e)")
      case True
      then show ?thesis using CommitRoot_layers [OF assms] Op_CommitRoot by (fastforce simp: layers_of_def)
    next
      case False
      then show ?thesis using Op_CommitRoot by (simp add: CommitRootTransaction_def layers_of_def)
    qed
  next
    case Op_Reopen
    then show ?thesis using assms evo_wf_open layers_of_open by (auto simp: defs)
  qed (use assms in \<open>auto simp: defs\<close>)
  then show "map_option layers_of (evo_step vsize op e) = layer_step op (layers_of e)"
    and "evo_step vsize op e = Some e' \<Longrightarrow> evo_wf vsize e'" by blast+
qed

lemma evo_run_layers:
  "evo_wf vsize e \<Longrightarrow> map_option layers_of (evo_run vsize ops e) = layer_run ops (layers_of e) \<and>
     (\<forall>e'. evo_run vsize ops e = Some e' \<longrightarrow> evo_wf vsize e')"
proof (induction ops arbitrary: e)
  case (Cons op ops)
  note step = evo_step_layers [OF Cons.prems, of op]
  show ?case
  proof (cases "evo_step vsize op e")
    case None
    then show ?thesis using step(1) by simp
  next
    case (Some e')
    then show ?thesis using step(1) Cons.IH [OF step(2) [OF Some]] by (simp flip: step(1))
  qed
qed simp

text \<open>
  C13: The evolution database behaves as three maps.  Whatever is done to it from its opening
  on well-formed files, a read gives the value of the last write or deletion that was not
  rolled back, a commit publishes the transaction to the committed map, a rollback forgets
  it, a commit of the root moves exactly the committed map to disk (and is refused in the
  middle of a transaction), and a restart comes back to the map on disk.  The memory usage
  that triggers a flush is exactly the size of the pending keys and values: the guards
  against an underflow of the counter never act.
\<close>

theorem evodb_refines_layers:
  assumes "om_wf d" and "evo_run vsize ops (open_evodb d) = Some e"
  shows "layer_run ops (layers_of (open_evodb d)) = Some (layers_of e) \<and>
         (\<forall>k. evo_Exists e k = (visible (layers_of e) k \<noteq> None)) \<and>
         GetMemoryUsage e =
           (\<Sum>(k, v, _) \<leftarrow> tx_writes (rootDBTransaction e). length k + vsize v) + (\<Sum>(k, _) \<leftarrow> tx_deletes (rootDBTransaction e). length k)"
proof -
  have run: "layer_run ops (layers_of (open_evodb d)) = Some (layers_of e)" and wf: "evo_wf vsize e"
    using evo_run_layers [OF evo_wf_open [OF assms(1)], of vsize ops] assms(2) by auto
  have ex: "evo_Exists e k = (visible (layers_of e) k \<noteq> None)" for k
    unfolding evo_Exists_def layers_of_def evo_Read_def root_Read_def txn_Exists_Read by (simp add: txn_Exists_Read)
  have "txn_wf vsize (rootDBTransaction e)" using wf by (simp add: evo_wf_def)
  then have "GetMemoryUsage e =
      (\<Sum>(k, v, _) \<leftarrow> tx_writes (rootDBTransaction e). length k + vsize v) + (\<Sum>(k, _) \<leftarrow> tx_deletes (rootDBTransaction e). length k)"
    by (auto simp: GetMemoryUsage_def txn_wf_def intro!: arg_cong [where f = sum_list])
  then show ?thesis using run ex by blast
qed

theorem evodb_refines_layers_witness:
  "\<exists>e. evo_run (\<lambda>_. 4) [Op_Write [1] 7, Op_CommitCur, Op_CommitRoot, Op_Erase [1], Op_Write [2] 9, Op_CommitCur, Op_Write [3] 1, Op_RollbackCur]
        (open_evodb []) = Some e \<and> evo_Read e [1] = None \<and> evo_Read e [2] = Some (9::nat) \<and> evo_Read e [3] = None \<and>
      on_disk (layers_of e) [1] = Some 7 \<and> GetMemoryUsage e = 6"
proof -
  let ?ops = "[Op_Write [1] (7::nat), Op_CommitCur, Op_CommitRoot, Op_Erase [1], Op_Write [2] 9, Op_CommitCur, Op_Write [3] 1, Op_RollbackCur]"
  have "evo_run (\<lambda>_. 4) ?ops (open_evodb []) \<noteq> None"
    by code_simp
  then obtain e where e: "evo_run (\<lambda>_. 4) ?ops (open_evodb []) = Some e" by blast
  have m: "GetMemoryUsage (the (evo_run (\<lambda>_. 4) ?ops (open_evodb []))) = 6" by code_simp
  have "layer_run ?ops (layers_of (open_evodb [])) = Some (layers_of e)"
    using evodb_refines_layers [OF _ e] by simp
  then have "layers_of e = the (layer_run ?ops (layers_of (open_evodb [])))" by simp
  then have "visible (layers_of e) [1] = None \<and> visible (layers_of e) [2] = Some 9 \<and> visible (layers_of e) [3] = None \<and>
      on_disk (layers_of e) [1] = Some 7"
    by (simp add: layers_of_open)
  moreover have "GetMemoryUsage e = 6" using m e by simp
  ultimately show ?thesis using e by (auto simp: layers_of_def simp del: evo_run.simps intro!: exI [of _ e])
qed

end
