(* ===== verification/Drone_Store.thy ===== *)
theory Drone_Store
  imports Drone_List Evo_Db Block_Index
begin

text \<open>
  \<^verbatim>\<open>CDroneListManager\<close> (\<^verbatim>\<open>evo/dronelist.h\<close>, \<^verbatim>\<open>evo/dronelist.cpp\<close>): the lists of all connected
  blocks, kept as one diff per block and a snapshot now and then in the evolution database,
  with caches above it; the consistency checks and database transactions with which
  \<^verbatim>\<open>validation.cpp\<close> connects, disconnects and flushes; and the check of a registration
  (\<^verbatim>\<open>evo/specialtxman.cpp\<close>).  A block index entry carries its block hash.
\<close>

section \<open>Stored values\<close>

definition MAX_DRONE_LIST_ENTRIES :: nat where
  "MAX_DRONE_LIST_ENTRIES = 100000"

definition ser_CDroneList :: "CDroneList \<Rightarrow> bytes" where
  "ser_CDroneList l = dl_blockHash l @ ser_int32 (dl_nHeight l) @ ser_limited ser_CDroneEntry (map snd (droneMap l))"

definition unser_CDroneList :: "CDroneList reader" where
  "unser_CDroneList s =
     do {
       (blockHash, s) \<leftarrow> unser_uint256 s;
       (height, s) \<leftarrow> unser_int32 s;
       (entries, s) \<leftarrow> unser_limited MAX_DRONE_LIST_ENTRIES unser_CDroneEntry s;
       case foldE AddDrone entries (new_drone_list blockHash height) of Inl e \<Rightarrow> None | Inr l \<Rightarrow> Some (l, s)
     }"

definition om_emplace :: "'k::linorder \<Rightarrow> 'v \<Rightarrow> ('k, 'v) omap \<Rightarrow> ('k, 'v) omap" where
  "om_emplace k v m = (if om_find m k = None then om_set k v m else m)"

definition ser_CDroneListDiff :: "CDroneListDiff \<Rightarrow> bytes" where
  "ser_CDroneListDiff d =
     ser_limited ser_CDroneEntry (addedDrones d) @ ser_limited ser_CDroneEntry (map snd (updatedDrones d)) @
     ser_limited (\<lambda>k. k) (map fst (removedDrones d))"

definition unser_CDroneListDiff :: "CDroneListDiff reader" where
  "unser_CDroneListDiff s =
     do {
       (added, s) \<leftarrow> unser_limited MAX_DRONE_LIST_ENTRIES unser_CDroneEntry s;
       (updated, s) \<leftarrow> unser_limited MAX_DRONE_LIST_ENTRIES unser_CDroneEntry s;
       (removed, s) \<leftarrow> unser_limited MAX_DRONE_LIST_ENTRIES unser_uint160 s;
       Some (\<lparr>df_nHeight = - 1, addedDrones = added,
              updatedDrones = fold (\<lambda>e. om_emplace (de_blsPubKeyHash e) e) updated [],
              removedDrones = fold (\<lambda>k. om_emplace k ()) removed []\<rparr>, s)
     }"

text \<open>
  The values the database holds here.  Reading a value of another type than was written
  throws.
\<close>

datatype drone_value = DiffValue CDroneListDiff | SnapshotValue CDroneList | BestBlockValue uint256

primrec value_size :: "drone_value \<Rightarrow> nat" where
  "value_size (DiffValue d) = length (ser_CDroneListDiff d)"
| "value_size (SnapshotValue l) = length (ser_CDroneList l)"
| "value_size (BestBlockValue h) = length h"

definition ser_string :: "string \<Rightarrow> bytes" where
  "ser_string s = ser_limited_bytes (map (\<lambda>c. word_of_nat (of_char c)) s)"

definition DB_DRONE_LIST_SNAPSHOT :: "uint256 \<Rightarrow> bytes" where
  "DB_DRONE_LIST_SNAPSHOT h = ser_string ''drn_S1'' @ h"

definition DB_DRONE_LIST_DIFF :: "uint256 \<Rightarrow> bytes" where
  "DB_DRONE_LIST_DIFF h = ser_string ''drn_D1'' @ h"

definition EVODB_BEST_BLOCK :: bytes where
  "EVODB_BEST_BLOCK = ser_string ''b_b4''"

type_synonym evodb = "drone_value CEvoDB"

definition read_snapshot :: "evodb \<Rightarrow> uint256 \<Rightarrow> (CDroneList option) result" where
  "read_snapshot db h =
     (case evo_Read db (DB_DRONE_LIST_SNAPSHOT h) of
        None \<Rightarrow> Inr None | Some (SnapshotValue l) \<Rightarrow> Inr (Some l) | Some _ \<Rightarrow> Inl WrongType)"

definition read_diff :: "evodb \<Rightarrow> uint256 \<Rightarrow> (CDroneListDiff option) result" where
  "read_diff db h =
     (case evo_Read db (DB_DRONE_LIST_DIFF h) of
        None \<Rightarrow> Inr None | Some (DiffValue d) \<Rightarrow> Inr (Some d) | Some _ \<Rightarrow> Inl WrongType)"

definition VerifyBestBlock :: "uint256 \<Rightarrow> evodb \<Rightarrow> bool" where
  "VerifyBestBlock h db = (evo_Read db EVODB_BEST_BLOCK = Some (BestBlockValue h))"

definition WriteBestBlock :: "uint256 \<Rightarrow> evodb \<Rightarrow> evodb" where
  "WriteBestBlock h db = evo_Write value_size EVODB_BEST_BLOCK (BestBlockValue h) db"

section \<open>The manager\<close>

definition DISK_SNAPSHOT_PERIOD :: int where
  "DISK_SNAPSHOT_PERIOD = 576"

record CDroneListManager =
  m_evoDb :: evodb
  m_nSnapshotPeriod :: int
  m_nCacheKeepBlocks :: int
  droneListsCache :: "(uint256, CDroneList) omap"
  droneListDiffsCache :: "(uint256, CDroneListDiff) omap"

definition new_drone_manager :: "evodb \<Rightarrow> int \<Rightarrow> CDroneListManager" where
  "new_drone_manager evoDb nSnapshotPeriod =
     (let period = (if nSnapshotPeriod > 0 then nSnapshotPeriod else DISK_SNAPSHOT_PERIOD)
      in \<lparr>m_evoDb = evoDb, m_nSnapshotPeriod = period, m_nCacheKeepBlocks = 2 * period,
          droneListsCache = [], droneListDiffsCache = []\<rparr>)"

text \<open>
  The backward walk of \<^verbatim>\<open>GetListForBlockInternal\<close>: the manager with what was cached, the
  list found and the entries whose diffs lead from it to the block, the oldest first.
\<close>

function drone_walk ::
    "Params \<Rightarrow> CDroneListManager \<Rightarrow> uint256 block_entry \<Rightarrow> uint256 block_entry list \<Rightarrow>
     CDroneListManager \<times> (CDroneList \<times> uint256 block_entry list) result" where
  "drone_walk p m e diffs =
     (if \<not> IsDronePayoutActive p (nHeight e) then (m, Inr (new_drone_list (bdata e) (nHeight e), diffs))
      else case om_find (droneListsCache m) (bdata e) of
        Some l \<Rightarrow> (m, Inr (l, diffs))
      | None \<Rightarrow>
          (case read_snapshot (m_evoDb m) (bdata e) of
             Inl err \<Rightarrow> (m, Inl err)
           | Inr (Some l) \<Rightarrow> (m\<lparr>droneListsCache := om_emplace (bdata e) l (droneListsCache m)\<rparr>, Inr (l, diffs))
           | Inr None \<Rightarrow>
               if om_find (droneListDiffsCache m) (bdata e) \<noteq> None
               then (case pprev e of None \<Rightarrow> (m, Inl NullParent) | Some q \<Rightarrow> drone_walk p m q (e # diffs))
               else (case read_diff (m_evoDb m) (bdata e) of
                       Inl err \<Rightarrow> (m, Inl err)
                     | Inr None \<Rightarrow> (m, Inr (new_drone_list (bdata e) (nHeight e), diffs))
                     | Inr (Some d) \<Rightarrow>
                         (let m = m\<lparr>droneListDiffsCache := om_emplace (bdata e) (d\<lparr>df_nHeight := nHeight e\<rparr>) (droneListDiffsCache m)\<rparr>
                          in case pprev e of None \<Rightarrow> (m, Inl NullParent) | Some q \<Rightarrow> drone_walk p m q (e # diffs)))))"
  by pat_completeness auto
termination
  by (relation "measure (\<lambda>(p, m, e, diffs). size e)") (auto simp: size_pprev)

declare drone_walk.simps [simp del]

definition apply_cached :: "CDroneListManager \<Rightarrow> uint256 block_entry \<Rightarrow> CDroneList \<Rightarrow> CDroneList result" where
  "apply_cached m e l =
     (case om_find (droneListDiffsCache m) (bdata e) of None \<Rightarrow> Inl OutOfRange | Some d \<Rightarrow> ApplyDiff (bdata e) (nHeight e) d l)"

definition GetListForBlockInternal ::
    "Params \<Rightarrow> CDroneListManager \<Rightarrow> uint256 block_entry \<Rightarrow> CDroneListManager \<times> CDroneList result" where
  "GetListForBlockInternal p m e =
     (if \<not> IsDronePayoutActive p (nHeight e) then (m, Inr (new_drone_list (bdata e) (nHeight e)))
      else let (m, r) = drone_walk p m e []
           in (m, bindE r (\<lambda>(snapshot, diffs). foldE (apply_cached m) diffs snapshot)))"

definition CleanupCache :: "int \<Rightarrow> CDroneListManager \<Rightarrow> CDroneListManager" where
  "CleanupCache height m =
     m\<lparr>droneListsCache := filter (\<lambda>(h, l). \<not> dl_nHeight l < height - m_nCacheKeepBlocks m) (droneListsCache m),
       droneListDiffsCache := filter (\<lambda>(h, d). \<not> (df_nHeight d \<ge> 0 \<and> df_nHeight d < height - m_nCacheKeepBlocks m)) (droneListDiffsCache m)\<rparr>"

text \<open>\<^verbatim>\<open>ProcessBlock\<close> of the block \<open>e\<close> with the transactions \<open>vtx\<close>; every exception makes the block invalid.\<close>

definition ProcessBlock ::
    "Params \<Rightarrow> drone_tx list \<Rightarrow> uint256 block_entry \<Rightarrow> CDroneListManager \<Rightarrow> CDroneListManager \<times> bool" where
  "ProcessBlock p vtx e m =
     (if \<not> IsDronePayoutActive p (nHeight e) then (m, True)
      else case pprev e of
        None \<Rightarrow> (m, False)
      | Some q \<Rightarrow>
          (case GetListForBlockInternal p m q of
             (m, Inl err) \<Rightarrow> (m, False)
           | (m, Inr oldList) \<Rightarrow>
               (case BuildListFromBlock p vtx (nHeight e) oldList of
                  Inl err \<Rightarrow> (m, False)
                | Inr newList \<Rightarrow>
                    (let newList = newList\<lparr>dl_blockHash := bdata e\<rparr>;
                         diff = BuildDiff oldList newList;
                         db = evo_Write value_size (DB_DRONE_LIST_DIFF (bdata e)) (DiffValue diff) (m_evoDb m);
                         db = (if nHeight e mod m_nSnapshotPeriod m = 0
                               then evo_Write value_size (DB_DRONE_LIST_SNAPSHOT (bdata e)) (SnapshotValue newList) db
                               else db);
                         diff = diff\<lparr>df_nHeight := nHeight e\<rparr>
                     in (CleanupCache (nHeight e)
                           (m\<lparr>m_evoDb := db,
                              droneListDiffsCache := om_emplace (bdata e) diff (droneListDiffsCache m),
                              droneListsCache := om_emplace (bdata e) newList (droneListsCache m)\<rparr>),
                         True)))))"

definition UndoBlock :: "Params \<Rightarrow> uint256 block_entry \<Rightarrow> CDroneListManager \<Rightarrow> CDroneListManager" where
  "UndoBlock p e m =
     (if \<not> IsDronePayoutActive p (nHeight e) then m
      else m\<lparr>droneListsCache := om_erase (bdata e) (droneListsCache m),
             droneListDiffsCache := om_erase (bdata e) (droneListDiffsCache m)\<rparr>)"

section \<open>Connecting, disconnecting, flushing and restarting\<close>

text \<open>
  What the chain state does around the manager.  \<open>dip3\<close> is the activation height of the
  deterministic masternode lists, from which the database must be at the parent of the
  block; \<open>rest\<close> tells whether the rest of the validation of the block succeeds.
\<close>

definition drone_ConnectTip ::
    "Params \<Rightarrow> int \<Rightarrow> drone_tx list \<Rightarrow> bool \<Rightarrow> uint256 block_entry \<Rightarrow> CDroneListManager \<Rightarrow> CDroneListManager" where
  "drone_ConnectTip p dip3 vtx rest e m =
     (case pprev e of
        None \<Rightarrow> m
      | Some q \<Rightarrow>
          if nHeight e \<ge> dip3 \<and> \<not> VerifyBestBlock (bdata q) (m_evoDb m) then m
          else (case ProcessBlock p vtx e m of
                  (m, ok) \<Rightarrow>
                    if ok \<and> rest
                    then m\<lparr>m_evoDb := CommitCurTransaction value_size (WriteBestBlock (bdata e) (m_evoDb m))\<rparr>
                    else m\<lparr>m_evoDb := RollbackCurTransaction (m_evoDb m)\<rparr>))"

definition drone_DisconnectTip :: "Params \<Rightarrow> int \<Rightarrow> uint256 block_entry \<Rightarrow> CDroneListManager \<Rightarrow> CDroneListManager" where
  "drone_DisconnectTip p dip3 e m =
     (case pprev e of
        None \<Rightarrow> m
      | Some q \<Rightarrow>
          if nHeight e \<ge> dip3 \<and> \<not> VerifyBestBlock (bdata e) (m_evoDb m) then m
          else let m = UndoBlock p e m
               in m\<lparr>m_evoDb := CommitCurTransaction value_size (WriteBestBlock (bdata q) (m_evoDb m))\<rparr>)"

definition drone_Flush :: "CDroneListManager \<Rightarrow> CDroneListManager" where
  "drone_Flush m = (case CommitRootTransaction (m_evoDb m) of None \<Rightarrow> m | Some db \<Rightarrow> m\<lparr>m_evoDb := db\<rparr>)"

definition drone_Restart :: "CDroneListManager \<Rightarrow> CDroneListManager" where
  "drone_Restart m = new_drone_manager (reopen_evodb (m_evoDb m)) (m_nSnapshotPeriod m)"

datatype drone_event =
  Ev_Connect "uint256 block_entry" bool | Ev_Disconnect "uint256 block_entry" | Ev_Query "uint256 block_entry" | Ev_Flush | Ev_Restart

primrec drone_step ::
    "Params \<Rightarrow> int \<Rightarrow> (uint256 \<Rightarrow> drone_tx list) \<Rightarrow> drone_event \<Rightarrow> CDroneListManager \<Rightarrow> CDroneListManager" where
  "drone_step p dip3 txs (Ev_Connect e rest) m = drone_ConnectTip p dip3 (txs (bdata e)) rest e m"
| "drone_step p dip3 txs (Ev_Disconnect e) m = drone_DisconnectTip p dip3 e m"
| "drone_step p dip3 txs (Ev_Query e) m = fst (GetListForBlockInternal p m e)"
| "drone_step p dip3 txs Ev_Flush m = drone_Flush m"
| "drone_step p dip3 txs Ev_Restart m = drone_Restart m"

section \<open>The check of a registration\<close>

datatype reg_reject =
  Bad_height | Bad_payload | Bad_version | Bad_tier | Bad_pubkey | Bad_pubkey_hash | Bad_sig | Bad_collateral |
  Bad_collateral_index | Bad_payee | Bad_inputs_hash

text \<open>
  \<^verbatim>\<open>CheckDroneRegTx\<close> against the list of the previous block.  The hash functions and the
  pairing check of the signature are arguments: \<open>Hash160\<close> of the public key, \<open>SHA256d\<close> for
  \<^verbatim>\<open>SerializeHash\<close> and \<^verbatim>\<open>CalcTxInputsHash\<close>, and \<open>VerifyMinSig\<close>.
\<close>

definition CalcTxInputsHash :: "(bytes \<Rightarrow> uint256) \<Rightarrow> drone_tx \<Rightarrow> uint256" where
  "CalcTxInputsHash SHA256d tx = SHA256d (concat (map ser_COutPoint (dt_prevouts tx)))"

definition is_heartbeat :: "drone_tx \<Rightarrow> CDroneRegTx \<Rightarrow> CDroneList \<Rightarrow> bool" where
  "is_heartbeat tx reg droneList =
     (case GetDrone droneList (dr_blsPubKeyHash reg) of
        None \<Rightarrow> False
      | Some existing \<Rightarrow> \<not> list_ex (\<lambda>prevout. prevout = de_collateralOutpoint existing) (dt_prevouts tx))"

definition CheckDroneRegTx ::
    "(bytes \<Rightarrow> uint160) \<Rightarrow> (bytes \<Rightarrow> uint256) \<Rightarrow> (bytes \<Rightarrow> uint256 \<Rightarrow> bytes \<Rightarrow> bool) \<Rightarrow>
     Params \<Rightarrow> bool \<Rightarrow> int \<Rightarrow> CDroneList \<Rightarrow> bool \<Rightarrow> drone_tx \<Rightarrow> reg_reject option" where
  "CheckDroneRegTx Hash160 SHA256d VerifyMinSig p sporkActive heightPrev droneList check_sigs tx =
     (if \<not> IsDronePayoutEffective p sporkActive (heightPrev + 1) then Some Bad_height
      else case drone_payload tx of
        None \<Rightarrow> Some Bad_payload
      | Some reg \<Rightarrow>
          if dr_nVersion reg = 0 \<or> dr_nVersion reg > DRONE_REG_VERSION then Some Bad_version
          else if dr_nModelTier reg > MAX_MODEL_TIER then Some Bad_tier
          else if length (dr_vchBlsPubKey reg) \<noteq> BLS_PUBKEY_SIZE then Some Bad_pubkey
          else if Hash160 (dr_vchBlsPubKey reg) \<noteq> dr_blsPubKeyHash reg then Some Bad_pubkey_hash
          else if length (dr_vchSig reg) \<noteq> BLS_SIGNATURE_SIZE then Some Bad_sig
          else let registration_error =
                 (if is_heartbeat tx reg droneList then None
                  else if nDroneCollateralAmount p \<le> 0 then Some Bad_collateral
                  else if unat (dr_nCollateralIndex reg) \<ge> length (dt_vout tx) then Some Bad_collateral_index
                  else if fst (dt_vout tx ! unat (dr_nCollateralIndex reg)) \<noteq> nDroneCollateralAmount p then Some Bad_collateral
                  else if \<not> IsValidDronePayoutScript (dr_scriptPayout reg) then Some Bad_payee
                  else None)
               in if registration_error \<noteq> None then registration_error
                  else if CalcTxInputsHash SHA256d tx \<noteq> dr_inputsHash reg then Some Bad_inputs_hash
                  else if check_sigs \<and> \<not> VerifyMinSig (dr_vchBlsPubKey reg) (SHA256d (ser_reg_gethash reg)) (dr_vchSig reg)
                  then Some Bad_sig
                  else None)"

section \<open>Replaying the chain\<close>

text \<open>The list after a block, computed from the transactions of its ancestors alone.\<close>

function replay_list :: "Params \<Rightarrow> (uint256 \<Rightarrow> drone_tx list) \<Rightarrow> uint256 block_entry \<Rightarrow> CDroneList result" where
  "replay_list p txs e =
     (if \<not> IsDronePayoutActive p (nHeight e) then Inr (new_drone_list (bdata e) (nHeight e))
      else case pprev e of
        None \<Rightarrow> Inl NullParent
      | Some q \<Rightarrow>
          bindE (replay_list p txs q) (\<lambda>l.
          bindE (BuildListFromBlock p (txs (bdata e)) (nHeight e) l) (\<lambda>l. Inr (l\<lparr>dl_blockHash := bdata e\<rparr>))))"
  by pat_completeness auto
termination
  by (relation "measure (\<lambda>(p, txs, e). size e)") (auto simp: size_pprev)

declare replay_list.simps [simp del]

lemma replay_list_wf:
  "replay_list p txs e = Inr l \<Longrightarrow> drone_list_wf l \<and> dl_blockHash l = bdata e \<and> dl_nHeight l = nHeight e"
proof (induction p txs e arbitrary: l rule: replay_list.induct)
  case (1 p txs e)
  show ?case
  proof (cases "IsDronePayoutActive p (nHeight e)")
    case False
    then show ?thesis using "1.prems" by (auto simp: replay_list.simps [of p txs e] new_drone_list_def [of "bdata e"] drone_list_wf_new [unfolded new_drone_list_def])
  next
    case True
    then obtain q l1 l2 where q: "pprev e = Some q" "replay_list p txs q = Inr l1"
        "BuildListFromBlock p (txs (bdata e)) (nHeight e) l1 = Inr l2" "l = l2\<lparr>dl_blockHash := bdata e\<rparr>"
      using "1.prems" by (auto simp: replay_list.simps [of p txs e] bindE_eq_Inr split: option.splits)
    then have "drone_list_wf l1" using "1.IH" True by auto
    then show ?thesis using BuildListFromBlock_spec [OF _ q(3)] q(4) by simp
  qed
qed

section \<open>What the database and the caches hold\<close>

lemma ser_string_keys:
  "ser_string ''drn_S1'' = [6, 100, 114, 110, 95, 83, 49]"
  "ser_string ''drn_D1'' = [6, 100, 114, 110, 95, 68, 49]"
  "ser_string ''b_b4'' = [4, 98, 95, 98, 52]"
  by code_simp+

lemma db_keys [simp]:
  "DB_DRONE_LIST_DIFF h = DB_DRONE_LIST_DIFF h' \<longleftrightarrow> h = h'"
  "DB_DRONE_LIST_SNAPSHOT h = DB_DRONE_LIST_SNAPSHOT h' \<longleftrightarrow> h = h'"
  "DB_DRONE_LIST_DIFF h \<noteq> DB_DRONE_LIST_SNAPSHOT h'" "DB_DRONE_LIST_SNAPSHOT h' \<noteq> DB_DRONE_LIST_DIFF h"
  "DB_DRONE_LIST_DIFF h \<noteq> EVODB_BEST_BLOCK" "EVODB_BEST_BLOCK \<noteq> DB_DRONE_LIST_DIFF h"
  "DB_DRONE_LIST_SNAPSHOT h \<noteq> EVODB_BEST_BLOCK" "EVODB_BEST_BLOCK \<noteq> DB_DRONE_LIST_SNAPSHOT h"
  by (auto simp: DB_DRONE_LIST_DIFF_def DB_DRONE_LIST_SNAPSHOT_def EVODB_BEST_BLOCK_def ser_string_keys)

definition block_tree :: "uint256 block_entry set \<Rightarrow> bool" where
  "block_tree B = ((\<forall>e \<in> B. in_tree e \<and> (\<forall>q. pprev e = Some q \<longrightarrow> q \<in> B)) \<and> inj_on bdata B)"

type_synonym db_view = "bytes \<Rightarrow> drone_value option"

definition known :: "Params \<Rightarrow> db_view \<Rightarrow> uint256 block_entry \<Rightarrow> bool" where
  "known p V e = (IsDronePayoutActive p (nHeight e) \<longrightarrow> V (DB_DRONE_LIST_DIFF (bdata e)) \<noteq> None)"

text \<open>The list \<open>l\<close> is that of the block with hash \<open>h\<close>; the diff \<open>d\<close> is that of this block, above a known parent.\<close>

definition list_of_block :: "Params \<Rightarrow> (uint256 \<Rightarrow> drone_tx list) \<Rightarrow> uint256 block_entry set \<Rightarrow> uint256 \<Rightarrow> CDroneList \<Rightarrow> bool" where
  "list_of_block p txs B h l =
     (\<exists>e \<in> B. bdata e = h \<and> IsDronePayoutActive p (nHeight e) \<and> replay_list p txs e = Inr l)"

definition diff_of_block ::
    "Params \<Rightarrow> (uint256 \<Rightarrow> drone_tx list) \<Rightarrow> uint256 block_entry set \<Rightarrow> db_view \<Rightarrow> uint256 \<Rightarrow> CDroneListDiff \<Rightarrow> bool" where
  "diff_of_block p txs B V h d =
     (\<exists>e \<in> B. \<exists>q old new. bdata e = h \<and> IsDronePayoutActive p (nHeight e) \<and> pprev e = Some q \<and>
        replay_list p txs q = Inr old \<and> replay_list p txs e = Inr new \<and> d\<lparr>df_nHeight := - 1\<rparr> = BuildDiff old new \<and> known p V q)"

definition view_ok :: "Params \<Rightarrow> (uint256 \<Rightarrow> drone_tx list) \<Rightarrow> uint256 block_entry set \<Rightarrow> db_view \<Rightarrow> bool" where
  "view_ok p txs B V =
     ((\<forall>h v. V (DB_DRONE_LIST_DIFF h) = Some v \<longrightarrow> (\<exists>d. v = DiffValue d \<and> diff_of_block p txs B V h d)) \<and>
      (\<forall>h v. V (DB_DRONE_LIST_SNAPSHOT h) = Some v \<longrightarrow> (\<exists>l. v = SnapshotValue l \<and> list_of_block p txs B h l)) \<and>
      (\<forall>v. V EVODB_BEST_BLOCK = Some v \<longrightarrow> (\<exists>h. v = BestBlockValue h \<and> (\<forall>e \<in> B. bdata e = h \<longrightarrow> known p V e))))"

definition cache_ok ::
    "Params \<Rightarrow> (uint256 \<Rightarrow> drone_tx list) \<Rightarrow> uint256 block_entry set \<Rightarrow> db_view \<Rightarrow> CDroneListManager \<Rightarrow> bool" where
  "cache_ok p txs B V m =
     (om_wf (droneListsCache m) \<and> om_wf (droneListDiffsCache m) \<and>
      (\<forall>h l. om_find (droneListsCache m) h = Some l \<longrightarrow> list_of_block p txs B h l) \<and>
      (\<forall>h d. om_find (droneListDiffsCache m) h = Some d \<longrightarrow> diff_of_block p txs B V h d))"

lemma BuildDiff_nHeight: "df_nHeight (BuildDiff a b) = - 1"
proof -
  have 1: "df_nHeight (fold (diff_entry a) xs d) = df_nHeight d" for xs d
    by (induction xs arbitrary: d) (simp_all add: diff_entry_fields)
  have 2: "df_nHeight (fold (\<lambda>(pkh, fromEntry :: CDroneEntry) diff.
      if om_find (droneMap b) pkh = None then diff\<lparr>removedDrones := om_set pkh () (removedDrones diff)\<rparr> else diff) xs d) = df_nHeight d" for xs d
    by (induction xs arbitrary: d) auto
  show ?thesis unfolding BuildDiff_def 2 1 by (simp add: empty_diff_def)
qed

lemma same_block: "block_tree B \<Longrightarrow> e \<in> B \<Longrightarrow> e' \<in> B \<Longrightarrow> bdata e = bdata e' \<Longrightarrow> e = e'"
  by (auto simp: block_tree_def inj_on_def)

lemma list_of_blockD: "block_tree B \<Longrightarrow> list_of_block p txs B (bdata e) l \<Longrightarrow> e \<in> B \<Longrightarrow> replay_list p txs e = Inr l"
  using same_block by (fastforce simp: list_of_block_def)

lemma diff_of_blockD:
  assumes "block_tree B" "diff_of_block p txs B V (bdata e) d" "e \<in> B"
  obtains q old new where "pprev e = Some q" "q \<in> B" "replay_list p txs q = Inr old" "replay_list p txs e = Inr new"
    "d = (BuildDiff old new)\<lparr>df_nHeight := df_nHeight d\<rparr>" "known p V q"
proof -
  obtain q old new where q: "pprev e = Some q" "replay_list p txs q = Inr old" "replay_list p txs e = Inr new"
      "d\<lparr>df_nHeight := - 1\<rparr> = BuildDiff old new" "known p V q"
    using assms same_block [OF assms(1) _ assms(3)] unfolding diff_of_block_def by blast
  have "d = (BuildDiff old new)\<lparr>df_nHeight := df_nHeight d\<rparr>" by (simp flip: q(4))
  moreover have "q \<in> B" using assms(1,3) q(1) by (auto simp: block_tree_def)
  ultimately show ?thesis using q that by blast
qed

section \<open>Lists from diffs\<close>

lemma foldE_append: "foldE f (xs @ ys) a = bindE (foldE f xs a) (foldE f ys)"
proof (induction xs arbitrary: a)
  case (Cons x xs)
  then show ?case by (cases "f x a") simp_all
qed simp

text \<open>The contract of the diffs the store keeps: the diff of two lists takes the one to the other.\<close>

locale list_diffs =
  fixes build :: "'l \<Rightarrow> 'l \<Rightarrow> 'd" and apply_diff :: "'h \<Rightarrow> 'd \<Rightarrow> 'l \<Rightarrow> 'l result"
    and header :: "'l \<Rightarrow> 'h" and wf_list :: "'l \<Rightarrow> bool"
  assumes apply_build: "wf_list a \<Longrightarrow> wf_list b \<Longrightarrow> apply_diff (header b) (build a b) a = Inr b"
begin

lemma extend_path:
  assumes "foldE f path s = Inr a" and "wf_list a" "wf_list b" and "f x a = apply_diff (header b) (build a b) a"
  shows "foldE f (path @ [x]) s = Inr b"
  using assms apply_build [of a b] by (simp add: foldE_append)

end

interpretation drone_diffs: list_diffs
  "\<lambda>a b. (BuildDiff a b)\<lparr>df_nHeight := n\<rparr>" "\<lambda>(hash, height). ApplyDiff hash height" "\<lambda>l. (dl_blockHash l, dl_nHeight l)" drone_list_wf for n
  by unfold_locales (simp add: ApplyDiff_BuildDiff)

lemma view_okD:
  assumes "view_ok p txs B V"
  shows "V (DB_DRONE_LIST_DIFF h) = Some v \<Longrightarrow> \<exists>d. v = DiffValue d \<and> diff_of_block p txs B V h d"
    and "V (DB_DRONE_LIST_SNAPSHOT h) = Some v \<Longrightarrow> \<exists>l. v = SnapshotValue l \<and> list_of_block p txs B h l"
    and "V EVODB_BEST_BLOCK = Some (BestBlockValue h) \<Longrightarrow> e \<in> B \<Longrightarrow> bdata e = h \<Longrightarrow> known p V e"
  using assms unfolding view_ok_def by blast+

definition reachable_list :: "Params \<Rightarrow> db_view \<Rightarrow> CDroneListManager \<Rightarrow> uint256 block_entry \<Rightarrow> bool" where
  "reachable_list p V m e =
     (IsDronePayoutActive p (nHeight e) \<longrightarrow>
        om_find (droneListsCache m) (bdata e) \<noteq> None \<or> V (DB_DRONE_LIST_SNAPSHOT (bdata e)) \<noteq> None \<or>
        om_find (droneListDiffsCache m) (bdata e) \<noteq> None \<or> V (DB_DRONE_LIST_DIFF (bdata e)) \<noteq> None)"

definition extends :: "CDroneListManager \<Rightarrow> CDroneListManager \<Rightarrow> bool" where
  "extends m m' =
     (m_evoDb m' = m_evoDb m \<and> m_nSnapshotPeriod m' = m_nSnapshotPeriod m \<and> m_nCacheKeepBlocks m' = m_nCacheKeepBlocks m \<and>
      (\<forall>h d. om_find (droneListDiffsCache m) h = Some d \<longrightarrow> om_find (droneListDiffsCache m') h = Some d))"

lemma extends_trans: "extends a b \<Longrightarrow> extends b c \<Longrightarrow> extends a c"
  by (auto simp: extends_def)

lemma find_emplace:
  "om_wf m \<Longrightarrow> om_find (om_emplace k v m) = (if om_find m k = None then (om_find m)(k \<mapsto> v) else om_find m)"
  "om_wf m \<Longrightarrow> om_wf (om_emplace k v m)"
  by (simp_all add: om_emplace_def om_find_set)

lemma cache_list:
  assumes "cache_ok p txs B V m" "list_of_block p txs B h l"
  defines "m' \<equiv> m\<lparr>droneListsCache := om_emplace h l (droneListsCache m)\<rparr>"
  shows "cache_ok p txs B V m'" "extends m m'"
  using assms by (auto simp: cache_ok_def find_emplace extends_def split: if_splits)

lemma cache_diff:
  assumes "cache_ok p txs B V m" "diff_of_block p txs B V h d"
  defines "m' \<equiv> m\<lparr>droneListDiffsCache := om_emplace h d (droneListDiffsCache m)\<rparr>"
  shows "cache_ok p txs B V m'" "extends m m'"
  using assms by (auto simp: cache_ok_def find_emplace extends_def split: if_splits)

definition walk_gives ::
    "Params \<Rightarrow> (uint256 \<Rightarrow> drone_tx list) \<Rightarrow> uint256 block_entry set \<Rightarrow> db_view \<Rightarrow> CDroneListManager \<Rightarrow> uint256 block_entry \<Rightarrow>
     uint256 block_entry list \<Rightarrow> CDroneListManager \<times> (CDroneList \<times> uint256 block_entry list) result \<Rightarrow> bool" where
  "walk_gives p txs B V m e diffs r =
     (\<exists>m' snapshot path l. r = (m', Inr (snapshot, path @ diffs)) \<and> cache_ok p txs B V m' \<and> extends m m' \<and>
        replay_list p txs e = Inr l \<and> foldE (apply_cached m') path snapshot = Inr l)"

lemma walk_gives_here:
  "cache_ok p txs B V m' \<Longrightarrow> extends m m' \<Longrightarrow> replay_list p txs e = Inr l \<Longrightarrow> walk_gives p txs B V m e diffs (m', Inr (l, diffs))"
  unfolding walk_gives_def by (intro exI [of _ m'] exI [of _ l] exI [of _ "[]"]) simp

lemma walk_gives_step:
  assumes "block_tree B" and e: "e \<in> B" "diff_of_block p txs B V (bdata e) d" "om_find (droneListDiffsCache m1) (bdata e) = Some d"
    and m1: "extends m m1" and q: "pprev e = Some q" and r: "walk_gives p txs B V m1 q (e # diffs) r"
  shows "walk_gives p txs B V m e diffs r"
proof -
  obtain m' snapshot path l where r': "r = (m', Inr (snapshot, path @ e # diffs))" "cache_ok p txs B V m'" "extends m1 m'"
      "replay_list p txs q = Inr l" "foldE (apply_cached m') path snapshot = Inr l"
    using r unfolding walk_gives_def by blast
  obtain new where new: "replay_list p txs e = Inr new" "d = (BuildDiff l new)\<lparr>df_nHeight := df_nHeight d\<rparr>"
    using diff_of_blockD [OF assms(1) e(2,1)] q r'(4) by (metis option.inject sum.inject(2))
  note wf = replay_list_wf [OF r'(4)] replay_list_wf [OF new(1)]
  have "om_find (droneListDiffsCache m') (bdata e) = Some d" using e(3) r'(3) by (auto simp: extends_def)
  then have "apply_cached m' e l = ApplyDiff (bdata e) (nHeight e) d l" by (simp add: apply_cached_def)
  also have "\<dots> = ApplyDiff (bdata e) (nHeight e) ((BuildDiff l new)\<lparr>df_nHeight := df_nHeight d\<rparr>) l" by (subst new(2)) simp
  finally have "foldE (apply_cached m') (path @ [e]) snapshot = Inr new"
    using drone_diffs.extend_path [OF r'(5), of new e "df_nHeight d"] wf by simp
  then show ?thesis using r' new m1 unfolding walk_gives_def
    by (intro exI [of _ m'] exI [of _ snapshot] exI [of _ "path @ [e]"] exI [of _ new]) (auto intro: extends_trans)
qed

lemma drone_walk_gives:
  assumes tree: "block_tree B" and V: "V = evo_Read (m_evoDb m)" "view_ok p txs B V"
    and "cache_ok p txs B V m" and "e \<in> B" and "reachable_list p V m e"
  shows "walk_gives p txs B V m e diffs (drone_walk p m e diffs)"
  using assms(2-)
proof (induction p m e diffs rule: drone_walk.induct)
  case (1 p m e diffs)
  note V = "1.prems"(1) and view = "1.prems"(2) and cache = "1.prems"(3) and e = "1.prems"(4) and reach = "1.prems"(5)
  note simps = drone_walk.simps [of p m e diffs]
  have ext0: "extends m m" by (simp add: extends_def)
  show ?case
  proof (cases "IsDronePayoutActive p (nHeight e)")
    case False
    then have "replay_list p txs e = Inr (new_drone_list (bdata e) (nHeight e))" by (simp add: replay_list.simps)
    then show ?thesis using False cache ext0 by (simp add: simps walk_gives_here)
  next
    case active: True
    show ?thesis
    proof (cases "om_find (droneListsCache m) (bdata e)")
      case (Some l)
      then have "replay_list p txs e = Inr l" using cache list_of_blockD [OF tree _ e] by (auto simp: cache_ok_def)
      then show ?thesis using Some active cache ext0 by (simp add: simps walk_gives_here)
    next
      case nolist: None
      show ?thesis
      proof (cases "V (DB_DRONE_LIST_SNAPSHOT (bdata e))")
        case (Some v)
        then obtain l where l: "v = SnapshotValue l" "list_of_block p txs B (bdata e) l"
          using view_okD(2) [OF view] by blast
        then have "read_snapshot (m_evoDb m) (bdata e) = Inr (Some l)" using Some by (simp add: read_snapshot_def V)
        then show ?thesis
          using nolist active walk_gives_here [OF cache_list [OF cache l(2)] list_of_blockD [OF tree l(2) e]] by (simp add: simps)
      next
        case None
        then have nosnap: "read_snapshot (m_evoDb m) (bdata e) = Inr None" by (simp add: read_snapshot_def V)
        show ?thesis
        proof (cases "om_find (droneListDiffsCache m) (bdata e)")
          case (Some d)
          then have d: "diff_of_block p txs B V (bdata e) d" using cache by (auto simp: cache_ok_def)
          obtain q where q: "pprev e = Some q" "q \<in> B" "known p V q" using diff_of_blockD [OF tree d e] by metis
          have "walk_gives p txs B V m q (e # diffs) (drone_walk p m q (e # diffs))"
            using "1.IH"(1) [OF _ nolist nosnap _ _ q(1)] active Some V view cache q(2,3)
            by (auto simp: reachable_list_def known_def)
          then show ?thesis
            using walk_gives_step [OF tree e d Some ext0 q(1)] active nolist nosnap Some q(1) by (simp add: simps)
        next
          case nodiff: None
          then obtain v where v: "V (DB_DRONE_LIST_DIFF (bdata e)) = Some v"
            using reach active nolist None by (auto simp: reachable_list_def)
          then obtain d where d: "v = DiffValue d" "diff_of_block p txs B V (bdata e) d" using view_okD(1) [OF view] by blast
          let ?d = "d\<lparr>df_nHeight := nHeight e\<rparr>"
          let ?m = "m\<lparr>droneListDiffsCache := om_emplace (bdata e) ?d (droneListDiffsCache m)\<rparr>"
          have d': "diff_of_block p txs B V (bdata e) ?d" using d(2) by (simp add: diff_of_block_def)
          note c = cache_diff [OF cache d']
          have f: "om_find (droneListDiffsCache ?m) (bdata e) = Some ?d"
            using nodiff cache by (simp add: cache_ok_def find_emplace)
          have rd: "read_diff (m_evoDb m) (bdata e) = Inr (Some d)" using v d(1) by (simp add: read_diff_def V)
          obtain q where q: "pprev e = Some q" "q \<in> B" "known p V q" using diff_of_blockD [OF tree d' e] by metis
          have "walk_gives p txs B V ?m q (e # diffs) (drone_walk p ?m q (e # diffs))"
            using "1.IH"(2) [OF _ nolist nosnap refl _ rd refl refl q(1)] active nodiff V view c(1) q(2,3)
            by (auto simp: reachable_list_def known_def)
          then show ?thesis
            using walk_gives_step [OF tree e d' f c(2) q(1)] active nolist nosnap nodiff rd q(1) by (simp add: simps)
        qed
      qed
    qed
  qed
qed

section \<open>The invariant of the store\<close>

abbreviation "db_layers m \<equiv> layers_of (m_evoDb m)"

definition store_ok :: "Params \<Rightarrow> (uint256 \<Rightarrow> drone_tx list) \<Rightarrow> uint256 block_entry set \<Rightarrow> CDroneListManager \<Rightarrow> bool" where
  "store_ok p txs B m =
     (evo_wf value_size (m_evoDb m) \<and> \<not> in_transaction (db_layers m) \<and>
      view_ok p txs B (on_disk (db_layers m)) \<and> view_ok p txs B (visible (db_layers m)) \<and>
      cache_ok p txs B (visible (db_layers m)) m)"

lemma visible_Read [simp]: "visible (layers_of db) = evo_Read db"
  by (simp add: layers_of_def)

lemma clean_committed: "\<not> in_transaction (layers_of db) \<Longrightarrow> committed (layers_of db) = evo_Read db"
  by (simp add: layers_of_def evo_Read_def txn_Read_clean)

lemma db_Write:
  assumes "evo_wf value_size db"
  shows "layers_of (evo_Write value_size k v db) = (layers_of db)\<lparr>visible := (evo_Read db)(k \<mapsto> v), in_transaction := True\<rparr>"
    and "evo_wf value_size (evo_Write value_size k v db)"
    and "evo_Read (evo_Write value_size k v db) = (evo_Read db)(k \<mapsto> v)"
proof -
  note L = evo_step_layers [OF assms, of "Op_Write k v"]
  show 1: "layers_of (evo_Write value_size k v db) = (layers_of db)\<lparr>visible := (evo_Read db)(k \<mapsto> v), in_transaction := True\<rparr>"
    using L(1) by simp
  show "evo_wf value_size (evo_Write value_size k v db)" using L(2) by simp
  show "evo_Read (evo_Write value_size k v db) = (evo_Read db)(k \<mapsto> v)" using arg_cong [OF 1, of visible] by simp
qed

lemma db_Rollback:
  assumes "evo_wf value_size db"
  shows "layers_of (RollbackCurTransaction db) = (layers_of db)\<lparr>visible := committed (layers_of db), in_transaction := False\<rparr>"
    and "evo_wf value_size (RollbackCurTransaction db)"
  using evo_step_layers [OF assms, of Op_RollbackCur] by simp_all

lemma known_mono: "known p V e \<Longrightarrow> (\<And>k. V k \<noteq> None \<Longrightarrow> V' k \<noteq> None) \<Longrightarrow> known p V' e"
  by (auto simp: known_def)

lemma diff_of_block_mono: "diff_of_block p txs B V h d \<Longrightarrow> (\<And>k. V k \<noteq> None \<Longrightarrow> V' k \<noteq> None) \<Longrightarrow> diff_of_block p txs B V' h d"
  unfolding diff_of_block_def by (meson known_mono)

lemma cache_ok_mono: "cache_ok p txs B V m \<Longrightarrow> (\<And>k. V k \<noteq> None \<Longrightarrow> V' k \<noteq> None) \<Longrightarrow> cache_ok p txs B V' m"
  unfolding cache_ok_def by (meson diff_of_block_mono)

lemma view_ok_diff:
  assumes V: "view_ok p txs B V" and d: "diff_of_block p txs B V h d"
  shows "view_ok p txs B (V(DB_DRONE_LIST_DIFF h \<mapsto> DiffValue d))"
proof -
  let ?V = "V(DB_DRONE_LIST_DIFF h \<mapsto> DiffValue d)"
  have mono: "V k \<noteq> None \<Longrightarrow> ?V k \<noteq> None" for k by simp
  show ?thesis
    using V diff_of_block_mono [OF d, of ?V] diff_of_block_mono [of p txs B V _ _ ?V] known_mono [of p V _ ?V]
    unfolding view_ok_def by (auto simp: mono) metis+
qed

lemma view_ok_snapshot:
  assumes V: "view_ok p txs B V" and l: "list_of_block p txs B h l"
  shows "view_ok p txs B (V(DB_DRONE_LIST_SNAPSHOT h \<mapsto> SnapshotValue l))"
proof -
  let ?V = "V(DB_DRONE_LIST_SNAPSHOT h \<mapsto> SnapshotValue l)"
  show ?thesis
    using V l diff_of_block_mono [of p txs B V _ _ ?V] known_mono [of p V _ ?V]
    unfolding view_ok_def by (auto 0 3)
qed

lemma view_ok_best:
  assumes V: "view_ok p txs B V" and tree: "block_tree B" "e \<in> B" "known p V e"
  shows "view_ok p txs B (V(EVODB_BEST_BLOCK \<mapsto> BestBlockValue (bdata e)))"
proof -
  let ?V = "V(EVODB_BEST_BLOCK \<mapsto> BestBlockValue (bdata e))"
  have "known p ?V x" if "x \<in> B" "bdata x = bdata e" for x
    using same_block [OF tree(1) that(1) tree(2) that(2)] known_mono [OF tree(3), of ?V] by simp
  then show ?thesis
    using V diff_of_block_mono [of p txs B V _ _ ?V] unfolding view_ok_def by (auto 0 3)
qed


section \<open>Every operation keeps the invariant\<close>

lemma GetListForBlockInternal_ok:
  assumes tree: "block_tree B" and V: "view_ok p txs B (evo_Read (m_evoDb m))" and c: "cache_ok p txs B (evo_Read (m_evoDb m)) m"
    and e: "e \<in> B" "reachable_list p (evo_Read (m_evoDb m)) m e"
  shows "\<exists>m' l. GetListForBlockInternal p m e = (m', Inr l) \<and> replay_list p txs e = Inr l \<and>
           cache_ok p txs B (evo_Read (m_evoDb m)) m' \<and> extends m m'"
proof (cases "IsDronePayoutActive p (nHeight e)")
  case False
  then show ?thesis using c by (auto simp: GetListForBlockInternal_def replay_list.simps extends_def)
next
  case True
  from drone_walk_gives [OF tree refl V c e, of "[]"] obtain m' snapshot path l where
    "drone_walk p m e [] = (m', Inr (snapshot, path))" "cache_ok p txs B (evo_Read (m_evoDb m)) m'" "extends m m'"
    "replay_list p txs e = Inr l" "foldE (apply_cached m') path snapshot = Inr l"
    unfolding walk_gives_def by auto
  then show ?thesis using True by (auto simp: GetListForBlockInternal_def)
qed

lemma GetListForBlockInternal_unreachable:
  "\<not> reachable_list p (evo_Read (m_evoDb m)) m e \<Longrightarrow> fst (GetListForBlockInternal p m e) = m"
  by (auto simp: reachable_list_def GetListForBlockInternal_def drone_walk.simps read_snapshot_def read_diff_def)

lemma om_find_filterD: "om_find (filter P m) k = Some v \<Longrightarrow> om_wf m \<Longrightarrow> om_find m k = Some v"
  using om_wf_filter [of m P] by (simp add: om_find_iff)

lemma cache_ok_Cleanup:
  assumes "cache_ok p txs B V m"
  shows "cache_ok p txs B V (CleanupCache h m)"
proof -
  have wf: "om_wf (droneListsCache m)" "om_wf (droneListDiffsCache m)" using assms by (simp_all add: cache_ok_def)
  show ?thesis unfolding cache_ok_def CleanupCache_def
    using assms om_wf_filter [OF wf(1)] om_wf_filter [OF wf(2)] om_find_filterD [OF _ wf(1)] om_find_filterD [OF _ wf(2)]
    unfolding cache_ok_def by simp
qed

lemma cache_ok_Undo: "cache_ok p txs B V m \<Longrightarrow> cache_ok p txs B V (UndoBlock p e m)"
  unfolding cache_ok_def UndoBlock_def by (simp add: om_find_erase)

lemma cache_ok_db [simp]: "cache_ok p txs B V (m\<lparr>m_evoDb := db\<rparr>) = cache_ok p txs B V m"
  by (simp add: cache_ok_def)

text \<open>Processing a block above a known parent: accepted exactly when the replay has a list for it.\<close>

lemma ProcessBlock_ok:
  assumes tree: "block_tree B" and wf: "evo_wf value_size (m_evoDb m)"
    and V: "view_ok p txs B (evo_Read (m_evoDb m))" and c: "cache_ok p txs B (evo_Read (m_evoDb m)) m"
    and e: "e \<in> B" "IsDronePayoutActive p (nHeight e)" "pprev e = Some q" and q: "known p (evo_Read (m_evoDb m)) q"
  shows "\<exists>m' ok. ProcessBlock p (txs (bdata e)) e m = (m', ok) \<and> (ok \<longleftrightarrow> (\<exists>l. replay_list p txs e = Inr l)) \<and>
           evo_wf value_size (m_evoDb m') \<and> cache_ok p txs B (evo_Read (m_evoDb m)) m' \<and>
           on_disk (db_layers m') = on_disk (db_layers m) \<and> committed (db_layers m') = committed (db_layers m) \<and>
           (\<forall>k. evo_Read (m_evoDb m) k \<noteq> None \<longrightarrow> evo_Read (m_evoDb m') k \<noteq> None) \<and>
           (ok \<longrightarrow> view_ok p txs B (evo_Read (m_evoDb m')) \<and> known p (evo_Read (m_evoDb m')) e)"
proof -
  let ?V = "evo_Read (m_evoDb m)"
  have qB: "q \<in> B" using tree e by (auto simp: block_tree_def)
  have "reachable_list p ?V m q" using q by (auto simp: reachable_list_def known_def)
  then obtain m1 old where m1: "GetListForBlockInternal p m q = (m1, Inr old)" "replay_list p txs q = Inr old"
      "cache_ok p txs B ?V m1" "extends m m1"
    using GetListForBlockInternal_ok [OF tree V c qB] by blast
  have db: "m_evoDb m1 = m_evoDb m" using m1(4) by (simp add: extends_def)
  have replay: "replay_list p txs e = bindE (BuildListFromBlock p (txs (bdata e)) (nHeight e) old) (\<lambda>l. Inr (l\<lparr>dl_blockHash := bdata e\<rparr>))"
    using e m1(2) by (simp add: replay_list.simps [of p txs e])
  show ?thesis
  proof (cases "BuildListFromBlock p (txs (bdata e)) (nHeight e) old")
    case (Inl err)
    then have "ProcessBlock p (txs (bdata e)) e m = (m1, False)" using e m1(1) by (simp add: ProcessBlock_def)
    then show ?thesis using Inl replay m1(3) wf db by auto
  next
    case (Inr new0)
    define new where "new = new0\<lparr>dl_blockHash := bdata e\<rparr>"
    define d where "d = BuildDiff old new"
    have new: "replay_list p txs e = Inr new" using Inr replay by (simp add: new_def)
    have D: "diff_of_block p txs B ?V (bdata e) d"
      unfolding diff_of_block_def using e q m1(2) new by (auto simp: d_def BuildDiff_nHeight)
    then have D': "diff_of_block p txs B ?V (bdata e) (d\<lparr>df_nHeight := nHeight e\<rparr>)" by (simp add: diff_of_block_def)
    have Ln: "list_of_block p txs B (bdata e) new" using e new by (auto simp: list_of_block_def)
    define db1 where "db1 = evo_Write value_size (DB_DRONE_LIST_DIFF (bdata e)) (DiffValue d) (m_evoDb m)"
    define db2 where "db2 = (if nHeight e mod m_nSnapshotPeriod m1 = 0
        then evo_Write value_size (DB_DRONE_LIST_SNAPSHOT (bdata e)) (SnapshotValue new) db1 else db1)"
    define m2 where "m2 = m1\<lparr>m_evoDb := db2, droneListDiffsCache := om_emplace (bdata e) (d\<lparr>df_nHeight := nHeight e\<rparr>) (droneListDiffsCache m1),
        droneListsCache := om_emplace (bdata e) new (droneListsCache m1)\<rparr>"
    have run: "ProcessBlock p (txs (bdata e)) e m = (CleanupCache (nHeight e) m2, True)"
      using e m1(1) Inr by (simp add: ProcessBlock_def Let_def m2_def db2_def db1_def d_def new_def db)
    note w1 = db_Write [OF wf, of "DB_DRONE_LIST_DIFF (bdata e)" "DiffValue d", folded db1_def]
    note w2 = db_Write [OF w1(2), of "DB_DRONE_LIST_SNAPSHOT (bdata e)" "SnapshotValue new"]
    have V1: "view_ok p txs B (evo_Read db1)" unfolding w1(3) by (rule view_ok_diff [OF V D])
    have V2: "view_ok p txs B (evo_Read db2)" using V1 view_ok_snapshot [OF V1 Ln] w2(3) by (simp add: db2_def)
    have layers: "evo_wf value_size db2" "on_disk (layers_of db2) = on_disk (db_layers m)" "committed (layers_of db2) = committed (db_layers m)"
      using w1 w2 by (simp_all add: db2_def)
    have grow: "?V k \<noteq> None \<longrightarrow> evo_Read db2 k \<noteq> None" "evo_Read db2 (DB_DRONE_LIST_DIFF (bdata e)) \<noteq> None" for k
      using w1(3) w2(3) by (auto simp: db2_def)
    have "cache_ok p txs B ?V m2"
      using cache_list(1) [OF cache_diff(1) [OF m1(3) D'] Ln] by (simp add: m2_def cache_ok_def)
    moreover have "m_evoDb (CleanupCache (nHeight e) m2) = db2" by (simp add: CleanupCache_def m2_def)
    ultimately show ?thesis using run new V2 layers grow cache_ok_Cleanup by (auto simp: known_def)
  qed
qed

lemma store_okD:
  assumes "store_ok p txs B m"
  shows "evo_wf value_size (m_evoDb m)" "view_ok p txs B (on_disk (db_layers m))" "view_ok p txs B (evo_Read (m_evoDb m))"
    and "cache_ok p txs B (evo_Read (m_evoDb m)) m" "committed (db_layers m) = evo_Read (m_evoDb m)" "\<not> in_transaction (db_layers m)"
  using assms clean_committed [of "m_evoDb m"] by (auto simp: store_ok_def)

text \<open>The commit of a new best block, and the rollback, after the writes of a block.\<close>

lemma store_ok_commit:
  assumes tree: "block_tree B" "e \<in> B" and wf: "evo_wf value_size (m_evoDb m)" and V: "view_ok p txs B (evo_Read (m_evoDb m))"
    and known: "known p (evo_Read (m_evoDb m)) e" and c: "cache_ok p txs B (evo_Read (m_evoDb m)) m"
    and disk: "view_ok p txs B (on_disk (db_layers m))"
  shows "store_ok p txs B (m\<lparr>m_evoDb := CommitCurTransaction value_size (WriteBestBlock (bdata e) (m_evoDb m))\<rparr>)"
proof -
  let ?V = "(evo_Read (m_evoDb m))(EVODB_BEST_BLOCK \<mapsto> BestBlockValue (bdata e))"
  note w = db_Write [OF wf, of EVODB_BEST_BLOCK "BestBlockValue (bdata e)", folded WriteBestBlock_def]
  note k = CommitCur_layers [OF w(2)]
  have "visible (layers_of (CommitCurTransaction value_size (WriteBestBlock (bdata e) (m_evoDb m)))) = ?V" unfolding k(2) w(1) by simp
  then have "evo_Read (CommitCurTransaction value_size (WriteBestBlock (bdata e) (m_evoDb m))) = ?V" by simp
  moreover have "cache_ok p txs B ?V m" by (rule cache_ok_mono [OF c]) simp
  ultimately show ?thesis
    using k view_ok_best [OF V tree known] disk by (simp add: store_ok_def w(1))
qed

lemma store_ok_rollback:
  assumes "evo_wf value_size (m_evoDb m)" "view_ok p txs B (on_disk (db_layers m))" "view_ok p txs B (committed (db_layers m))"
    and "cache_ok p txs B (committed (db_layers m)) m"
  shows "store_ok p txs B (m\<lparr>m_evoDb := RollbackCurTransaction (m_evoDb m)\<rparr>)"
proof -
  note r = db_Rollback [OF assms(1)]
  have "evo_Read (RollbackCurTransaction (m_evoDb m)) = committed (db_layers m)" using arg_cong [OF r(1), of visible] by simp
  then show ?thesis using r assms by (simp add: store_ok_def)
qed

lemma active_above_dip3:
  "dip3 \<le> nDronePayoutHeight p \<Longrightarrow> IsDronePayoutActive p h \<Longrightarrow> dip3 \<le> h"
  by (simp add: IsDronePayoutActive_def)

lemma store_ok_connect:
  assumes tree: "block_tree B" and dip3: "dip3 \<le> nDronePayoutHeight p" and ok: "store_ok p txs B m" and e: "e \<in> B"
  shows "store_ok p txs B (drone_ConnectTip p dip3 (txs (bdata e)) rest e m)"
proof (cases "pprev e")
  case None
  then show ?thesis using ok by (simp add: drone_ConnectTip_def)
next
  case (Some q)
  note S = store_okD [OF ok]
  have qB: "q \<in> B" using tree e Some by (auto simp: block_tree_def)
  show ?thesis
  proof (cases "dip3 \<le> nHeight e \<and> \<not> VerifyBestBlock (bdata q) (m_evoDb m)")
    case True
    then show ?thesis using ok Some by (simp add: drone_ConnectTip_def)
  next
    case guard: False
    obtain m' ok' where run: "ProcessBlock p (txs (bdata e)) e m = (m', ok')" by fastforce
    have "evo_wf value_size (m_evoDb m') \<and> cache_ok p txs B (evo_Read (m_evoDb m)) m' \<and>
        on_disk (db_layers m') = on_disk (db_layers m) \<and> committed (db_layers m') = committed (db_layers m) \<and>
        (\<forall>k. evo_Read (m_evoDb m) k \<noteq> None \<longrightarrow> evo_Read (m_evoDb m') k \<noteq> None) \<and>
        (ok' \<longrightarrow> view_ok p txs B (evo_Read (m_evoDb m')) \<and> known p (evo_Read (m_evoDb m')) e)"
    proof (cases "IsDronePayoutActive p (nHeight e)")
      case False
      then show ?thesis using run S by (auto simp: ProcessBlock_def known_def)
    next
      case True
      then have "VerifyBestBlock (bdata q) (m_evoDb m)" using guard active_above_dip3 [OF dip3] by blast
      then have "known p (evo_Read (m_evoDb m)) q"
        using view_okD(3) [OF S(3), of "bdata q" q] qB by (simp add: VerifyBestBlock_def)
      from ProcessBlock_ok [OF tree S(1,3,4) e True Some this] show ?thesis using run by auto
    qed
    note P = this
    show ?thesis
    proof (cases "ok' \<and> rest")
      case True
      then have "drone_ConnectTip p dip3 (txs (bdata e)) rest e m
          = m'\<lparr>m_evoDb := CommitCurTransaction value_size (WriteBestBlock (bdata e) (m_evoDb m'))\<rparr>"
        using Some guard run by (auto simp: drone_ConnectTip_def)
      moreover have "cache_ok p txs B (evo_Read (m_evoDb m')) m'"
        using P cache_ok_mono [of p txs B "evo_Read (m_evoDb m)" m' "evo_Read (m_evoDb m')"] by blast
      ultimately show ?thesis
        using store_ok_commit [OF tree e, of m' p txs] P True S(2) by simp
    next
      case False
      then have "drone_ConnectTip p dip3 (txs (bdata e)) rest e m = m'\<lparr>m_evoDb := RollbackCurTransaction (m_evoDb m')\<rparr>"
        using Some guard run by (auto simp: drone_ConnectTip_def)
      then show ?thesis using store_ok_rollback [of m' p txs B] P S by simp
    qed
  qed
qed

lemma known_parent:
  assumes "block_tree B" "view_ok p txs B V" "e \<in> B" "known p V e" "pprev e = Some q"
  shows "known p V q"
proof (cases "IsDronePayoutActive p (nHeight e)")
  case True
  then obtain v where "V (DB_DRONE_LIST_DIFF (bdata e)) = Some v" using assms(4) by (auto simp: known_def)
  then obtain d where "diff_of_block p txs B V (bdata e) d" using view_okD(1) [OF assms(2)] by blast
  then show ?thesis using diff_of_blockD [OF assms(1) _ assms(3)] assms(5) by (metis option.inject)
next
  case False
  have "in_tree e" using assms(1,3) by (auto simp: block_tree_def)
  then have "nHeight e = nHeight q + 1" using assms(5) by (cases rule: in_tree.cases) (auto simp: BuildSkip_def genesis_entry_def)
  then show ?thesis using False by (auto simp: known_def IsDronePayoutActive_def)
qed

lemma store_ok_disconnect:
  assumes tree: "block_tree B" and dip3: "dip3 \<le> nDronePayoutHeight p" and ok: "store_ok p txs B m" and e: "e \<in> B"
  shows "store_ok p txs B (drone_DisconnectTip p dip3 e m)"
proof (cases "pprev e")
  case None
  then show ?thesis using ok by (simp add: drone_DisconnectTip_def)
next
  case (Some q)
  note S = store_okD [OF ok]
  have qB: "q \<in> B" using tree e Some by (auto simp: block_tree_def)
  have u: "m_evoDb (UndoBlock p e m) = m_evoDb m" by (simp add: UndoBlock_def)
  show ?thesis
  proof (cases "dip3 \<le> nHeight e \<and> \<not> VerifyBestBlock (bdata e) (m_evoDb m)")
    case True
    then show ?thesis using ok Some by (simp add: drone_DisconnectTip_def)
  next
    case False
    have "known p (evo_Read (m_evoDb m)) e"
    proof (cases "IsDronePayoutActive p (nHeight e)")
      case True
      then have "VerifyBestBlock (bdata e) (m_evoDb m)" using False active_above_dip3 [OF dip3] by blast
      then show ?thesis using view_okD(3) [OF S(3), of "bdata e" e] e by (simp add: VerifyBestBlock_def)
    qed (simp add: known_def)
    then have "known p (evo_Read (m_evoDb m)) q" by (rule known_parent [OF tree S(3) e _ Some])
    then show ?thesis
      using store_ok_commit [OF tree qB, of "UndoBlock p e m" p txs] S cache_ok_Undo [OF S(4)] Some False
      by (simp only: drone_DisconnectTip_def u Let_def option.case if_False)
  qed
qed

lemma store_ok_flush: "store_ok p txs B m \<Longrightarrow> store_ok p txs B (drone_Flush m)"
proof -
  assume ok: "store_ok p txs B m"
  note S = store_okD [OF ok]
  have "txn_IsClean (curDBTransaction (m_evoDb m))" using S(6) by (simp add: layers_of_def)
  then obtain db where db: "CommitRootTransaction (m_evoDb m) = Some db" "evo_wf value_size db"
      "layers_of db = (db_layers m)\<lparr>on_disk := committed (db_layers m)\<rparr>"
    using CommitRoot_layers [OF S(1)] by blast
  have "evo_Read db = evo_Read (m_evoDb m)" using arg_cong [OF db(3), of visible] by simp
  then show ?thesis using db S by (simp add: drone_Flush_def store_ok_def)
qed

lemma store_ok_open:
  assumes "evo_wf value_size (m_evoDb m)" "view_ok p txs B (on_disk (db_layers m))"
  shows "store_ok p txs B (drone_Restart m)"
proof -
  have "om_wf (evo_db (m_evoDb m))" using assms(1) by (simp add: evo_wf_def)
  then have "evo_wf value_size (reopen_evodb (m_evoDb m))" by (simp add: reopen_evodb_def evo_wf_open)
  moreover have "layers_of (reopen_evodb (m_evoDb m)) = \<lparr>on_disk = on_disk (db_layers m), committed = on_disk (db_layers m),
      visible = on_disk (db_layers m), in_transaction = False\<rparr>"
    by (simp add: reopen_evodb_def layers_of_open) (simp add: layers_of_def)
  moreover from this have "evo_Read (reopen_evodb (m_evoDb m)) = on_disk (db_layers m)" by (metis visible_Read layers.select_convs(3))
  ultimately show ?thesis using assms by (simp add: store_ok_def drone_Restart_def new_drone_manager_def Let_def cache_ok_def)
qed

lemma store_ok_query:
  assumes "block_tree B" "store_ok p txs B m" "e \<in> B"
  shows "store_ok p txs B (fst (GetListForBlockInternal p m e))"
proof (cases "reachable_list p (evo_Read (m_evoDb m)) m e")
  case True
  note S = store_okD [OF assms(2)]
  obtain m' l where "GetListForBlockInternal p m e = (m', Inr l)" "cache_ok p txs B (evo_Read (m_evoDb m)) m'" "extends m m'"
    using GetListForBlockInternal_ok [OF assms(1) S(3,4) assms(3) True] by blast
  then show ?thesis using S assms(2) by (simp add: store_ok_def extends_def)
next
  case False
  then show ?thesis using assms(2) GetListForBlockInternal_unreachable by simp
qed

primrec event_blocks :: "drone_event \<Rightarrow> uint256 block_entry set" where
  "event_blocks (Ev_Connect e rest) = {e}"
| "event_blocks (Ev_Disconnect e) = {e}"
| "event_blocks (Ev_Query e) = {e}"
| "event_blocks Ev_Flush = {}"
| "event_blocks Ev_Restart = {}"

lemma store_ok_step:
  assumes "block_tree B" "dip3 \<le> nDronePayoutHeight p" "store_ok p txs B m" "event_blocks ev \<subseteq> B"
  shows "store_ok p txs B (drone_step p dip3 txs ev m)"
  using assms store_okD(1,2) [OF assms(3)]
  by (cases ev) (auto intro: store_ok_connect store_ok_disconnect store_ok_query store_ok_flush store_ok_open)

lemma store_ok_run:
  assumes "block_tree B" "dip3 \<le> nDronePayoutHeight p" "\<forall>ev \<in> set evs. event_blocks ev \<subseteq> B" "store_ok p txs B m"
  shows "store_ok p txs B (fold (drone_step p dip3 txs) evs m)"
  using assms(3,4) by (induction evs arbitrary: m) (simp_all add: store_ok_step [OF assms(1,2)])

lemma store_ok_initial: "store_ok p txs B (new_drone_manager (open_evodb []) period)"
proof -
  have "evo_Read (open_evodb [] :: evodb) = (\<lambda>_. None)" by (simp add: open_evodb_def evo_Read_def root_Read_def fun_eq_iff)
  then show ?thesis
    by (simp add: store_ok_def new_drone_manager_def Let_def layers_of_open evo_wf_open view_ok_def cache_ok_def)
qed

lemma known_ancestor:
  assumes "block_tree B" "view_ok p txs B V"
  shows "e \<in> B \<Longrightarrow> known p V e \<Longrightarrow> walk_back n e = Some a \<Longrightarrow> a \<in> B \<and> known p V a"
proof (induction n arbitrary: e)
  case (Suc n)
  then obtain q where q: "pprev e = Some q" "walk_back n q = Some a" by (auto split: option.splits)
  have "q \<in> B" using assms(1) Suc.prems(1) q(1) by (auto simp: block_tree_def)
  then show ?case using Suc.IH q(2) known_parent [OF assms Suc.prems(1,2) q(1)] by blast
qed simp

text \<open>A block with a list connects on its parent, and stays after a flush and a restart.\<close>

lemma commit_best:
  assumes "evo_wf value_size db"
  shows "VerifyBestBlock h (CommitCurTransaction value_size (WriteBestBlock h db))"
proof -
  note w = db_Write [OF assms, of EVODB_BEST_BLOCK "BestBlockValue h", folded WriteBestBlock_def]
  have "evo_Read (CommitCurTransaction value_size (WriteBestBlock h db)) = evo_Read (WriteBestBlock h db)"
    using arg_cong [OF CommitCur_layers(2) [OF w(2)], of visible] by simp
  then show ?thesis by (simp add: VerifyBestBlock_def w(3))
qed

lemma connect_best:
  assumes tree: "block_tree B" and dip3: "dip3 \<le> nDronePayoutHeight p" and ok: "store_ok p txs B m" and e: "e \<in> B" "pprev e = Some q"
    and guard: "dip3 \<le> nHeight e \<Longrightarrow> VerifyBestBlock (bdata q) (m_evoDb m)" and replay: "replay_list p txs e = Inr l"
  shows "VerifyBestBlock (bdata e) (m_evoDb (drone_ConnectTip p dip3 (txs (bdata e)) True e m))"
proof -
  note S = store_okD [OF ok]
  have qB: "q \<in> B" using tree e by (auto simp: block_tree_def)
  obtain m' where m': "ProcessBlock p (txs (bdata e)) e m = (m', True)" "evo_wf value_size (m_evoDb m')"
  proof (cases "IsDronePayoutActive p (nHeight e)")
    case True
    then have "VerifyBestBlock (bdata q) (m_evoDb m)" using guard active_above_dip3 [OF dip3] by blast
    then have "known p (evo_Read (m_evoDb m)) q"
      using view_okD(3) [OF S(3), of "bdata q" q] qB by (simp add: VerifyBestBlock_def)
    from ProcessBlock_ok [OF tree S(1,3,4) e(1) True e(2) this] show ?thesis using that replay by auto
  next
    case False
    then show ?thesis using that S(1) by (simp add: ProcessBlock_def)
  qed
  then show ?thesis using e(2) guard by (auto simp: drone_ConnectTip_def commit_best)
qed

lemma flush_restart_best:
  assumes "store_ok p txs B m" and "VerifyBestBlock h (m_evoDb m)"
  shows "VerifyBestBlock h (m_evoDb (drone_Restart (drone_Flush m)))"
proof -
  note S = store_okD [OF assms(1)]
  have "txn_IsClean (curDBTransaction (m_evoDb m))" using S(6) by (simp add: layers_of_def)
  then obtain db where db: "CommitRootTransaction (m_evoDb m) = Some db" "layers_of db = (db_layers m)\<lparr>on_disk := committed (db_layers m)\<rparr>"
    using CommitRoot_layers [OF S(1)] by blast
  have "evo_Read (reopen_evodb db) = on_disk (layers_of db)"
    using arg_cong [OF layers_of_open [of "evo_db db"], of visible] by (simp add: reopen_evodb_def) (simp add: layers_of_def)
  then show ?thesis using db S(5) assms(2) by (simp add: drone_Flush_def drone_Restart_def new_drone_manager_def Let_def VerifyBestBlock_def)
qed

lemma store_best_known:
  assumes "store_ok p txs B m" "e \<in> B" "VerifyBestBlock (bdata e) (m_evoDb m)"
  shows "known p (evo_Read (m_evoDb m)) e"
  using view_okD(3) [OF store_okD(3) [OF assms(1)], of "bdata e" e] assms(2,3) by (simp add: VerifyBestBlock_def)

lemma store_lists:
  assumes "block_tree B" "store_ok p txs B m" "e \<in> B" "VerifyBestBlock (bdata e) (m_evoDb m)" "walk_back n e = Some a"
  shows "snd (GetListForBlockInternal p m a) = replay_list p txs a \<and> (\<exists>l. replay_list p txs a = Inr l \<and> drone_list_wf l)"
proof -
  note S = store_okD [OF assms(2)]
  have "a \<in> B" "known p (evo_Read (m_evoDb m)) a"
    using known_ancestor [OF assms(1) S(3) assms(3) store_best_known [OF assms(2-4)] assms(5)] by blast+
  then have "a \<in> B" "reachable_list p (evo_Read (m_evoDb m)) m a" by (auto simp: reachable_list_def known_def)
  from GetListForBlockInternal_ok [OF assms(1) S(3,4) this] show ?thesis using replay_list_wf by fastforce
qed

text \<open>
  C3: The drone list of a block is a function of its chain, whatever the node did before.
  Take any history of connections (some of them failing later in validation and rolled
  back), disconnections, queries, flushes to disk and restarts that lose what was not
  flushed, from an empty database, with any snapshot period.  For the block the database
  records as its best block, and for all its ancestors, the store then returns the list that
  replaying the transactions of the chain from the activation height gives, although it
  keeps only diffs, occasional snapshots and evicting caches; and it accepts a block on top
  of it exactly when that replay has a list for it.
\<close>

theorem drone_store_refines_replay:
  assumes "block_tree B" and "dip3 \<le> nDronePayoutHeight p" and "\<forall>ev \<in> set evs. event_blocks ev \<subseteq> B"
    and "e \<in> B" and "VerifyBestBlock (bdata e) (m_evoDb (fold (drone_step p dip3 txs) evs (new_drone_manager (open_evodb []) period)))"
  shows "let m = fold (drone_step p dip3 txs) evs (new_drone_manager (open_evodb []) period)
         in (\<forall>n a. walk_back n e = Some a \<longrightarrow>
               snd (GetListForBlockInternal p m a) = replay_list p txs a \<and> (\<exists>l. replay_list p txs a = Inr l \<and> drone_list_wf l)) \<and>
            (\<forall>b \<in> B. pprev b = Some e \<longrightarrow> snd (ProcessBlock p (txs (bdata b)) b m) = (\<exists>l. replay_list p txs b = Inr l))"
proof -
  define m where "m = fold (drone_step p dip3 txs) evs (new_drone_manager (open_evodb []) period)"
  have ok: "store_ok p txs B m" unfolding m_def by (rule store_ok_run [OF assms(1-3) store_ok_initial])
  note S = store_okD [OF this]
  have best: "VerifyBestBlock (bdata e) (m_evoDb m)" using assms(5) by (simp add: m_def)
  note lists = store_lists [OF assms(1) ok assms(4) best] and known = store_best_known [OF ok assms(4) best]
  have "snd (ProcessBlock p (txs (bdata b)) b m) = (\<exists>l. replay_list p txs b = Inr l)" if b: "b \<in> B" "pprev b = Some e" for b
  proof (cases "IsDronePayoutActive p (nHeight b)")
    case True
    from ProcessBlock_ok [OF assms(1) S(1,3,4) b(1) True b(2) known] show ?thesis by auto
  next
    case False
    then show ?thesis by (simp add: ProcessBlock_def replay_list.simps)
  qed
  then show ?thesis unfolding m_def [symmetric] Let_def using lists by blast
qed


definition toy_chain_params :: Params where
  "toy_chain_params = toy_net\<lparr>nDronePayoutHeight := 2\<rparr>"

definition toy_b0 :: "uint256 block_entry" where
  "toy_b0 = genesis_entry [0]"

definition toy_b1 :: "uint256 block_entry" where
  "toy_b1 = BuildSkip [1] toy_b0"

definition toy_b2 :: "uint256 block_entry" where
  "toy_b2 = BuildSkip [2] toy_b1"

definition toy_txs :: "uint256 \<Rightarrow> drone_tx list" where
  "toy_txs h = (if h = [2] then [toy_reg 3] else [])"

lemma toy_blocks [simp]:
  "bdata toy_b0 = [0]" "bdata toy_b1 = [1]" "bdata toy_b2 = [2]" "nHeight toy_b0 = 0" "nHeight toy_b1 = 1" "nHeight toy_b2 = 2"
  "pprev toy_b0 = None" "pprev toy_b1 = Some toy_b0" "pprev toy_b2 = Some toy_b1"
  by (simp_all add: toy_b0_def toy_b1_def toy_b2_def genesis_entry_def BuildSkip_def)

lemma toy_block_tree: "block_tree {toy_b0, toy_b1, toy_b2}"
proof -
  have "in_tree toy_b0" by (simp add: toy_b0_def in_tree.intros)
  moreover from this have "in_tree toy_b1" by (simp add: toy_b1_def in_tree.intros)
  moreover from this have "in_tree toy_b2" by (simp add: toy_b2_def in_tree.intros)
  ultimately show ?thesis by (auto simp: block_tree_def)
qed

lemma toy_replay: "\<exists>l. replay_list toy_chain_params toy_txs toy_b2 = Inr l"
proof -
  have "\<exists>l. BuildListFromBlock toy_chain_params [toy_reg 3] 2 (new_drone_list [1] 1) = Inr l"
    using BuildListFromBlock_total [OF drone_list_wf_new, of "[toy_reg 3]"]
    by (simp add: fresh_hash_def drone_view_def new_drone_list_def decodable_def toy_reg_payload)
  then show ?thesis
    by (auto simp: replay_list.simps [of _ _ toy_b2] replay_list.simps [of _ _ toy_b1] IsDronePayoutActive_def toy_chain_params_def toy_txs_def)
qed

abbreviation "toy_events \<equiv> [Ev_Connect toy_b1 True, Ev_Connect toy_b2 True, Ev_Flush, Ev_Restart]"

lemma toy_dip3: "2 \<le> nDronePayoutHeight toy_chain_params"
  by (simp add: toy_chain_params_def)

lemma toy_store_best:
  "VerifyBestBlock (bdata toy_b2) (m_evoDb (fold (drone_step toy_chain_params 2 toy_txs) toy_events (new_drone_manager (open_evodb []) k)))"
proof -
  let ?B = "{toy_b0, toy_b1, toy_b2}" and ?p = toy_chain_params and ?m0 = "new_drone_manager (open_evodb []) k"
  have r1: "replay_list ?p toy_txs toy_b1 = Inr (new_drone_list [1] 1)"
    by (simp add: replay_list.simps IsDronePayoutActive_def toy_chain_params_def)
  obtain l where l: "replay_list ?p toy_txs toy_b2 = Inr l" using toy_replay by blast
  let ?m1 = "drone_ConnectTip ?p 2 (toy_txs (bdata toy_b1)) True toy_b1 ?m0"
  let ?m2 = "drone_ConnectTip ?p 2 (toy_txs (bdata toy_b2)) True toy_b2 ?m1"
  have ok1: "store_ok ?p toy_txs ?B ?m1" by (rule store_ok_connect [OF toy_block_tree toy_dip3 store_ok_initial]) simp
  have ok2: "store_ok ?p toy_txs ?B ?m2" by (rule store_ok_connect [OF toy_block_tree toy_dip3 ok1]) simp
  have b1: "VerifyBestBlock (bdata toy_b1) (m_evoDb ?m1)"
    by (rule connect_best [OF toy_block_tree toy_dip3 store_ok_initial _ _ _ r1]) auto
  have b2: "VerifyBestBlock (bdata toy_b2) (m_evoDb ?m2)"
    by (rule connect_best [OF toy_block_tree toy_dip3 ok1 _ _ b1 l]) auto
  show ?thesis using flush_restart_best [OF ok2 b2] by simp
qed

theorem drone_store_refines_replay_witness:
  "\<exists>m l. m = fold (drone_step toy_chain_params 2 toy_txs) toy_events (new_drone_manager (open_evodb []) 1) \<and>
         snd (GetListForBlockInternal toy_chain_params m toy_b2) = Inr l \<and> replay_list toy_chain_params toy_txs toy_b2 = Inr l"
proof -
  let ?m = "fold (drone_step toy_chain_params 2 toy_txs) toy_events (new_drone_manager (open_evodb []) 1)"
  obtain l where l: "replay_list toy_chain_params toy_txs toy_b2 = Inr l" using toy_replay by blast
  from drone_store_refines_replay [OF toy_block_tree toy_dip3 _ _ toy_store_best, of 1]
  have "snd (GetListForBlockInternal toy_chain_params ?m toy_b2) = replay_list toy_chain_params toy_txs toy_b2"
    by (simp add: Let_def) (metis walk_back.simps(1))
  then show ?thesis using l by auto
qed

section \<open>The stored form\<close>

definition list_storable :: "CDroneList \<Rightarrow> bool" where
  "list_storable l =
     (drone_list_wf l \<and> length (dl_blockHash l) = 32 \<and> int32_ok (dl_nHeight l) \<and> length (droneMap l) \<le> MAX_DRONE_LIST_ENTRIES \<and>
      (\<forall>e \<in> set (map snd (droneMap l)). entry_ok e))"

definition diff_storable :: "CDroneListDiff \<Rightarrow> bool" where
  "diff_storable d =
     (df_nHeight d = - 1 \<and> length (addedDrones d) \<le> MAX_DRONE_LIST_ENTRIES \<and> length (updatedDrones d) \<le> MAX_DRONE_LIST_ENTRIES \<and>
      length (removedDrones d) \<le> MAX_DRONE_LIST_ENTRIES \<and> om_wf (updatedDrones d) \<and> om_wf (removedDrones d) \<and>
      (\<forall>e \<in> set (addedDrones d). entry_ok e) \<and>
      (\<forall>(k, e) \<in> set (updatedDrones d). de_blsPubKeyHash e = k \<and> entry_ok e) \<and> (\<forall>(k, u) \<in> set (removedDrones d). length k = 20))"

lemma entries_bound: "MAX_DRONE_LIST_ENTRIES \<le> 0x02000000"
  by (simp add: MAX_DRONE_LIST_ENTRIES_def)

interpretation drone_entries: format "ser_limited ser_CDroneEntry" "unser_limited MAX_DRONE_LIST_ENTRIES unser_CDroneEntry"
  "\<lambda>v. length v \<le> MAX_DRONE_LIST_ENTRIES \<and> (\<forall>x \<in> set v. entry_ok x)"
  by (rule drone_entry.limited_format [OF entries_bound])

interpretation drone_keys: format "ser_limited (\<lambda>k. k)" "unser_limited MAX_DRONE_LIST_ENTRIES unser_uint160"
  "\<lambda>v. length v \<le> MAX_DRONE_LIST_ENTRIES \<and> (\<forall>x \<in> set v. length x = 20)"
  by (rule h160.limited_format [OF entries_bound])

lemma rebuild_list:
  assumes "drone_list_wf l"
  shows "foldE AddDrone (map snd (droneMap l)) (new_drone_list (dl_blockHash l) (dl_nHeight l)) = Inr l"
proof -
  note D = drone_list_wfD [OF assms]
  let ?es = "map snd (droneMap l)"
  have m: "map (\<lambda>e. (de_blsPubKeyHash e, e)) ?es = droneMap l"
    using om_keyed_values [OF D(1), of de_blsPubKeyHash] D(3) by blast
  have k: "map de_blsPubKeyHash ?es = map fst (droneMap l)" using arg_cong [OF m, of "map fst"] by (simp add: comp_def)
  have d: "distinct (map de_blsPubKeyHash ?es)" unfolding k by (rule om_wf_distinct [OF D(1)])
  have "inj_on de_collateralOutpoint (set ?es)"
  proof (rule inj_onI)
    fix x y assume "x \<in> set ?es" "y \<in> set ?es" and c: "de_collateralOutpoint x = de_collateralOutpoint y"
    then obtain i j where "om_find (droneMap l) i = Some x" "om_find (droneMap l) j = Some y" using D(1) by (auto simp: om_find_iff)
    then show "x = y" using same_collateral [OF assms _ _ c] by (metis option.inject)
  qed
  then have c: "distinct (map de_collateralOutpoint ?es)" using d unfolding distinct_map [of _ ?es] by blast
  obtain l' where l': "foldE AddDrone ?es (new_drone_list (dl_blockHash l) (dl_nHeight l)) = Inr l'" "drone_list_wf l'"
      "same_header (new_drone_list (dl_blockHash l) (dl_nHeight l)) l'"
      "om_find (droneMap l') = (\<lambda>k. case map_of (map (\<lambda>e. (de_blsPubKeyHash e, e)) ?es) k of
         None \<Rightarrow> om_find (droneMap (new_drone_list (dl_blockHash l) (dl_nHeight l))) k | Some e \<Rightarrow> Some e)"
    using foldE_AddDrone [OF drone_list_wf_new d c] by (auto simp: new_drone_list_def)
  have "om_find (droneMap l') = om_find (droneMap l)"
    unfolding l'(4) m by (simp add: fun_eq_iff new_drone_list_def om_find_def split: option.split)
  then have "l' = l" using l'(2,3) assms by (intro drone_list_eqI) (auto simp: same_header_def new_drone_list_def)
  then show ?thesis using l'(1) by simp
qed

interpretation stored_list: format ser_CDroneList unser_CDroneList list_storable
proof
  fix l r assume "list_storable l"
  then show "unser_CDroneList (ser_CDroneList l @ r) = Some (l, r)"
    using rebuild_list [of l]
    by (simp add: list_storable_def ser_CDroneList_def unser_CDroneList_def h256.roundtrip i32.roundtrip drone_entries.roundtrip)
qed

lemma fold_emplace:
  "om_wf m \<Longrightarrow> om_wf (fold (\<lambda>(k, v). om_emplace k v) xs m) \<and>
   om_find (fold (\<lambda>(k, v). om_emplace k v) xs m) = (\<lambda>k. case om_find m k of Some v \<Rightarrow> Some v | None \<Rightarrow> map_of xs k)"
proof (induction xs arbitrary: m)
  case (Cons a xs)
  obtain k v where a: "a = (k, v)" by (cases a)
  have "om_wf (om_emplace k v m)" using Cons.prems by (simp add: find_emplace)
  from Cons.IH [OF this] show ?case using Cons.prems by (auto simp: a find_emplace fun_eq_iff split: option.splits)
qed (auto simp: fun_eq_iff split: option.split)

lemma fold_emplace_self: "om_wf m \<Longrightarrow> fold (\<lambda>(k, v). om_emplace k v) m [] = m"
  using fold_emplace [of "[]" m] by (intro om_ext) (auto simp: om_find_def)

interpretation stored_diff: format ser_CDroneListDiff unser_CDroneListDiff diff_storable
proof
  fix d r assume d: "diff_storable d"
  have u: "fold (\<lambda>e. om_emplace (de_blsPubKeyHash e) e) (map snd m) acc = fold (\<lambda>(k, v). om_emplace k v) m acc"
    if "\<forall>(k, e) \<in> set m. de_blsPubKeyHash e = k" for m and acc :: "(uint160, CDroneEntry) omap"
    using that by (induction m arbitrary: acc) auto
  have k: "fold (\<lambda>k. om_emplace k ()) (map fst m) acc = fold (\<lambda>(k, v). om_emplace k v) m acc"
    for m and acc :: "(uint160, unit) omap"
    by (induction m arbitrary: acc) auto
  have "fold (\<lambda>e. om_emplace (de_blsPubKeyHash e) e) (map snd (updatedDrones d)) [] = updatedDrones d"
    using d u [of "updatedDrones d" "[]"] fold_emplace_self [of "updatedDrones d"] by (fastforce simp: diff_storable_def)
  moreover have "fold (\<lambda>k. om_emplace k ()) (map fst (removedDrones d)) [] = removedDrones d"
    using d k [of "removedDrones d" "[]"] fold_emplace_self [of "removedDrones d"] by (simp add: diff_storable_def)
  moreover have "\<forall>e \<in> set (map snd (updatedDrones d)). entry_ok e" "\<forall>k \<in> set (map fst (removedDrones d)). length k = 20"
    using d by (auto simp: diff_storable_def)
  ultimately show "unser_CDroneListDiff (ser_CDroneListDiff d @ r) = Some (d, r)"
    using d by (simp add: diff_storable_def ser_CDroneListDiff_def unser_CDroneListDiff_def drone_entries.roundtrip drone_keys.roundtrip)
qed

lemma om_subset_length:
  assumes "om_wf m" "om_wf m'" "\<And>k. om_find m k \<noteq> None \<Longrightarrow> om_find m' k \<noteq> None"
  shows "length m \<le> length m'"
proof -
  have "fst ` set m \<subseteq> fst ` set m'" using assms(3) by (auto simp: om_find_None_iff)
  then have "card (fst ` set m) \<le> card (fst ` set m')" by (intro card_mono) auto
  moreover have "card (fst ` set x) = length x" if "om_wf x" for x :: "('a \<times> 'c) list"
    using distinct_card [OF om_wf_distinct [OF that]] by simp
  moreover have "card (fst ` set x) = length x" if "om_wf x" for x :: "('a \<times> 'b) list"
    using distinct_card [OF om_wf_distinct [OF that]] by simp
  ultimately show ?thesis using assms(1,2) by simp
qed

lemma BuildDiff_storable:
  assumes s: "list_storable from" "list_storable to"
  shows "diff_storable (BuildDiff from to)"
proof -
  have wf: "drone_list_wf from" "drone_list_wf to" using s by (simp_all add: list_storable_def)
  note B = BuildDiff_fields [OF wf] and T = drone_list_wfD [OF wf(2)] and F = drone_list_wfD [OF wf(1)]
  have toe: "om_find (droneMap to) k = Some e \<Longrightarrow> entry_ok e" for k e
    using s(2) T(1) by (auto simp: list_storable_def om_find_iff)
  have fre: "om_find (droneMap from) k = Some e \<Longrightarrow> entry_ok e" for k e
    using s(1) F(1) by (auto simp: list_storable_def om_find_iff)
  have upd: "om_find (updatedDrones (BuildDiff from to)) k = Some e \<Longrightarrow> om_find (droneMap to) k = Some e" for k e
    unfolding B(5) by (auto split: option.splits if_splits)
  have "length (updatedDrones (BuildDiff from to)) \<le> length (droneMap to)"
    using B(2) T(1) upd by (intro om_subset_length) auto
  moreover have "length (removedDrones (BuildDiff from to)) \<le> length (droneMap from)"
    using B(1) F(1) B(4) by (intro om_subset_length) blast+
  moreover have "length (addedDrones (BuildDiff from to)) \<le> length (droneMap to)" unfolding B(3) by simp
  moreover have "entry_ok e" if "e \<in> set (addedDrones (BuildDiff from to))" for e
    using that T(1) toe unfolding B(3) by (auto simp: om_find_iff)
  moreover have "de_blsPubKeyHash e = k \<and> entry_ok e" if "(k, e) \<in> set (updatedDrones (BuildDiff from to))" for k e
    using that upd [of k e] toe T(3) B(2) by (auto simp: om_find_iff)
  moreover have "length k = 20" if "(k, u) \<in> set (removedDrones (BuildDiff from to))" for k u
  proof -
    have "om_find (removedDrones (BuildDiff from to)) k = Some u" using that B(1) by (simp add: om_find_iff)
    then obtain e where "om_find (droneMap from) k = Some e" using B(4) [of k] by auto
    then show ?thesis using fre F(3) by (fastforce simp: entry_ok_def)
  qed
  ultimately show ?thesis using s B(1,2,6) by (auto simp: diff_storable_def list_storable_def)
qed

text \<open>
  C20: What the store writes is what it reads.  For lists within the limits of the stored
  form, a snapshot reads back as the same list with its index of bonds rebuilt, the diff of
  two lists reads back within the limits of its reader, and the diff that was read, applied
  to the snapshot that was read, gives the second list: no throw on the way, whatever follows
  in the stream.
\<close>

theorem drone_storage_roundtrip:
  assumes "list_storable from" and "list_storable to"
  shows "\<exists>l d. unser_CDroneList (ser_CDroneList from @ r) = Some (l, r) \<and>
           unser_CDroneListDiff (ser_CDroneListDiff (BuildDiff from to) @ r') = Some (d, r') \<and>
           ApplyDiff (dl_blockHash to) (dl_nHeight to) d l = Inr to"
proof -
  have "drone_list_wf from" "drone_list_wf to" using assms by (simp_all add: list_storable_def)
  moreover have "(BuildDiff from to)\<lparr>df_nHeight := - 1\<rparr> = BuildDiff from to"
    using BuildDiff_nHeight [of "from" to] by (metis CDroneListDiff.surjective CDroneListDiff.update_convs(1) CDroneListDiff.select_convs(1))
  ultimately have "ApplyDiff (dl_blockHash to) (dl_nHeight to) (BuildDiff from to) from = Inr to"
    using ApplyDiff_BuildDiff [of "from" to "- 1"] by simp
  then show ?thesis
    using stored_list.roundtrip [OF assms(1), of r] stored_diff.roundtrip [OF BuildDiff_storable [OF assms], of r'] by blast
qed

theorem drone_storage_roundtrip_witness:
  "\<exists>l d. unser_CDroneList (ser_CDroneList toy_list @ [9]) = Some (l, [9]) \<and>
     unser_CDroneListDiff (ser_CDroneListDiff (BuildDiff toy_list (new_drone_list (replicate 32 6) 7)) @ []) = Some (d, []) \<and>
     ApplyDiff (replicate 32 6) 7 d l = Inr (new_drone_list (replicate 32 6) 7)"
proof -
  have "list_storable toy_list"
    using toy_list_wf by (auto simp: list_storable_def toy_list_def toy_drone_def entry_ok_def outpoint_ok_def int32_ok_def MAX_DRONE_LIST_ENTRIES_def)
  moreover have "list_storable (new_drone_list (replicate 32 6) 7)"
    by (simp add: list_storable_def int32_ok_def) (simp add: new_drone_list_def int32_ok_def)
  ultimately show ?thesis
    using drone_storage_roundtrip [of toy_list "new_drone_list (replicate 32 6) 7" "[9]" "[]"] by (simp add: new_drone_list_def)
qed

section \<open>Ownership of the registered drones\<close>

definition is_registration :: "drone_tx \<Rightarrow> bool" where
  "is_registration tx = (\<not> dt_IsCoinBase tx \<and> dt_IsSpecialTxVersion tx \<and> dt_nType tx = TRANSACTION_DRONE_REGISTER)"

text \<open>
  The registrations of every block from the activation on pass the check, with signatures,
  against the list of the block before.
\<close>

definition checked_chain ::
    "(bytes \<Rightarrow> uint160) \<Rightarrow> (bytes \<Rightarrow> uint256) \<Rightarrow> (bytes \<Rightarrow> uint256 \<Rightarrow> bytes \<Rightarrow> bool) \<Rightarrow>
     Params \<Rightarrow> bool \<Rightarrow> (uint256 \<Rightarrow> drone_tx list) \<Rightarrow> uint256 block_entry \<Rightarrow> bool" where
  "checked_chain Hash160 SHA256d VerifyMinSig p sporkActive txs e =
     (\<forall>n a q old. walk_back n e = Some a \<and> IsDronePayoutActive p (nHeight a) \<and> pprev a = Some q \<and> replay_list p txs q = Inr old \<longrightarrow>
        (\<forall>tx \<in> set (txs (bdata a)). is_registration tx \<longrightarrow>
           CheckDroneRegTx Hash160 SHA256d VerifyMinSig p sporkActive (nHeight q) old True tx = None))"

definition signed_for ::
    "(bytes \<Rightarrow> uint160) \<Rightarrow> (bytes \<Rightarrow> uint256) \<Rightarrow> (bytes \<Rightarrow> uint256 \<Rightarrow> bytes \<Rightarrow> bool) \<Rightarrow> Params \<Rightarrow> CDroneEntry \<Rightarrow> drone_tx \<Rightarrow> CDroneRegTx \<Rightarrow> bool" where
  "signed_for Hash160 SHA256d VerifyMinSig p d tx reg =
     (Hash160 (dr_vchBlsPubKey reg) = de_blsPubKeyHash d \<and> length (dr_vchBlsPubKey reg) = BLS_PUBKEY_SIZE \<and>
      VerifyMinSig (dr_vchBlsPubKey reg) (SHA256d (ser_reg_gethash reg)) (dr_vchSig reg) \<and>
      dr_inputsHash reg = CalcTxInputsHash SHA256d tx \<and>
      de_payoutScript d = dr_scriptPayout reg \<and> IsValidDronePayoutScript (dr_scriptPayout reg) \<and>
      de_collateralOutpoint d = COutPoint (dt_hash tx) (dr_nCollateralIndex reg) \<and>
      unat (dr_nCollateralIndex reg) < length (dt_vout tx) \<and>
      fst (dt_vout tx ! unat (dr_nCollateralIndex reg)) = nDroneCollateralAmount p \<and>
      de_nModelTier d = dr_nModelTier reg \<and> dr_nModelTier reg \<le> MAX_MODEL_TIER)"

lemma CheckDroneRegTx_None:
  assumes "CheckDroneRegTx Hash160 SHA256d VerifyMinSig p sporkActive h l True tx = None" and "drone_payload tx = Some reg"
  shows "\<not> dr_nModelTier reg > MAX_MODEL_TIER" "length (dr_vchBlsPubKey reg) = BLS_PUBKEY_SIZE"
    and "Hash160 (dr_vchBlsPubKey reg) = dr_blsPubKeyHash reg" "CalcTxInputsHash SHA256d tx = dr_inputsHash reg"
    and "VerifyMinSig (dr_vchBlsPubKey reg) (SHA256d (ser_reg_gethash reg)) (dr_vchSig reg)"
  using assms by (auto simp: CheckDroneRegTx_def Let_def split: if_splits)

text \<open>A drone of the new list was there before with the same identity, or was registered by the block.\<close>

lemma block_drone_origin:
  assumes wf: "drone_list_wf l" and b: "BuildListFromBlock p vtx h l = Inr l'" and d: "GetDrone l' k = Some d"
  shows "(\<exists>d0. GetDrone l k = Some d0 \<and> d = d0\<lparr>de_nLastSeenHeight := de_nLastSeenHeight d, de_nLastPaidHeight := de_nLastPaidHeight d\<rparr>) \<or>
         registered_by p h vtx k d"
proof -
  define m where "m = (\<lambda>k. map_option (mark_paid h (GetPayee l h p)) (drone_view l k))"
  have f: "fold (tx_spec p h) vtx m k = Some d"
    using BuildListFromBlock_spec [OF wf b] block_spec_marks [OF wf, of p vtx h] d by (simp add: GetDrone_def drone_view_def m_def)
  show ?thesis
  proof (cases "registered_by p h vtx k d")
    case False
    then obtain x where x: "m k = Some x" "bond_kept vtx x" using fold_tx_spec_origin [of p h vtx m k d] f by blast
    then obtain d0 where d0: "drone_view l k = Some d0" "x = mark_paid h (GetPayee l h p) d0" by (auto simp: m_def)
    have "d = (if heartbeat vtx k then x\<lparr>de_nLastSeenHeight := h\<rparr> else x)"
      using fold_tx_spec_kept [of m k x vtx p h] x f by simp
    then have "d = d0\<lparr>de_nLastSeenHeight := de_nLastSeenHeight d, de_nLastPaidHeight := de_nLastPaidHeight d\<rparr>"
      using d0(2) by (auto simp: mark_paid_def)
    then show ?thesis using d0(1) by (auto simp: GetDrone_def drone_view_def)
  qed simp
qed

lemma signed_for_heights:
  "signed_for Hash160 SHA256d VerifyMinSig p (d\<lparr>de_nLastSeenHeight := a, de_nLastPaidHeight := b\<rparr>) tx reg
   = signed_for Hash160 SHA256d VerifyMinSig p d tx reg"
  by (simp add: signed_for_def)

text \<open>
  C10: Every drone of the list was registered by the owner of its key.  If the registrations
  of all blocks from the activation on passed \<open>CheckDroneRegTx\<close> when their block was
  connected, then for every drone of the current list there is a transaction of the chain
  that paid its bond, whose payload carries a public key that hashes to the drone's key, and
  whose signature by that key covers the drone's payout script, the bond index and the
  inputs of that very transaction; heartbeats and other transactions since then did not
  change script, bond or tier.  The hash functions and the signature check are arbitrary.
\<close>

theorem drone_payouts_signed:
  assumes "replay_list p txs e = Inr l" and "checked_chain Hash160 SHA256d VerifyMinSig p sporkActive txs e"
  shows "\<forall>k d. GetDrone l k = Some d \<longrightarrow>
           (\<exists>n a tx reg. walk_back n e = Some a \<and> tx \<in> set (txs (bdata a)) \<and> drone_payload tx = Some reg \<and>
              signed_for Hash160 SHA256d VerifyMinSig p d tx reg)"
  using assms
proof (induction p txs e arbitrary: l rule: replay_list.induct)
  case (1 p txs e)
  show ?case
  proof (cases "IsDronePayoutActive p (nHeight e)")
    case False
    then have "l = new_drone_list (bdata e) (nHeight e)" using "1.prems"(1) by (simp add: replay_list.simps)
    then show ?thesis by (simp add: GetDrone_def new_drone_list_def)
  next
    case True
    then obtain q old new where q: "pprev e = Some q" "replay_list p txs q = Inr old"
        "BuildListFromBlock p (txs (bdata e)) (nHeight e) old = Inr new" "l = new\<lparr>dl_blockHash := bdata e\<rparr>"
      using "1.prems"(1) by (auto simp: replay_list.simps [of p txs e] bindE_eq_Inr split: option.splits)
    have above: "walk_back (Suc n) e = walk_back n q" for n by (simp add: q(1))
    have "checked_chain Hash160 SHA256d VerifyMinSig p sporkActive txs q"
      using "1.prems"(2) unfolding checked_chain_def by (metis above)
    note IH = "1.IH" [OF _ q(1,2) this]
    have chk: "CheckDroneRegTx Hash160 SHA256d VerifyMinSig p sporkActive (nHeight q) old True tx = None"
      if "tx \<in> set (txs (bdata e))" "is_registration tx" for tx
      using "1.prems"(2) True q(1,2) that unfolding checked_chain_def by (metis walk_back.simps(1))
    show ?thesis
    proof (intro allI impI)
      fix k d assume "GetDrone l k = Some d"
      then have d: "GetDrone new k = Some d" by (simp add: q(4) GetDrone_def)
      have wf: "drone_list_wf old" using replay_list_wf [OF q(2)] by simp
      consider (old) d0 where "GetDrone old k = Some d0"
          "d = d0\<lparr>de_nLastSeenHeight := de_nLastSeenHeight d, de_nLastPaidHeight := de_nLastPaidHeight d\<rparr>"
        | (new) tx reg where "tx \<in> set (txs (bdata e))" "registration tx = Some reg" "bonded p tx reg" "d = new_drone tx reg (nHeight e)"
        using block_drone_origin [OF wf q(3) d] unfolding registered_by_def by blast
      then show "\<exists>n a tx reg. walk_back n e = Some a \<and> tx \<in> set (txs (bdata a)) \<and> drone_payload tx = Some reg \<and>
          signed_for Hash160 SHA256d VerifyMinSig p d tx reg"
      proof cases
        case old
        then obtain n a tx reg where "walk_back n q = Some a" "tx \<in> set (txs (bdata a))" "drone_payload tx = Some reg"
            "signed_for Hash160 SHA256d VerifyMinSig p d0 tx reg" using IH True by blast
        moreover from this have "signed_for Hash160 SHA256d VerifyMinSig p d tx reg"
          by (subst old(2)) (simp add: signed_for_heights)
        ultimately show ?thesis by (metis above)
      next
        case new
        then have reg: "is_registration tx" "drone_payload tx = Some reg" by (auto simp: registration_def is_registration_def split: if_splits)
        have "signed_for Hash160 SHA256d VerifyMinSig p d tx reg"
          using CheckDroneRegTx_None [OF chk [OF new(1) reg(1)] reg(2)] new(3)
          by (simp add: signed_for_def new(4) new_drone_def bonded_def not_less)
        then show ?thesis using new(1) reg(2) by (metis walk_back.simps(1))
      qed
    qed
  qed
qed

theorem drone_payouts_signed_witness:
  "\<exists>l. replay_list toy_chain_params toy_txs toy_b2 = Inr l \<and>
       (\<forall>k d. GetDrone l k = Some d \<longrightarrow>
          (\<exists>n a tx reg. walk_back n toy_b2 = Some a \<and> tx \<in> set (toy_txs (bdata a)) \<and> drone_payload tx = Some reg \<and>
             signed_for (take 20) (\<lambda>_. replicate 32 7) (\<lambda>pk h sg. pk ! 0 = sg ! 0) toy_chain_params d tx reg))"
proof -
  obtain l where l: "replay_list toy_chain_params toy_txs toy_b2 = Inr l" using toy_replay by blast
  have wb: "walk_back n toy_b2 = Some a \<Longrightarrow> IsDronePayoutActive toy_chain_params (nHeight a) \<Longrightarrow> a = toy_b2" for n a
  proof -
    assume "walk_back n toy_b2 = Some a" "IsDronePayoutActive toy_chain_params (nHeight a)"
    then show "a = toy_b2"
      by (cases n; cases "n - 1"; cases "n - 2") (auto simp: IsDronePayoutActive_def toy_chain_params_def split: option.splits)
  qed
  have chk: "CheckDroneRegTx (take 20) (\<lambda>_. replicate 32 7) (\<lambda>pk h sg. pk ! 0 = sg ! 0) toy_chain_params True 1 old True (toy_reg 3) = None"
    if "old = new_drone_list [1] 1" for old
    by (simp add: that CheckDroneRegTx_def toy_reg_payload toy_payload_def IsDronePayoutEffective_def IsDronePayoutActive_def
        toy_chain_params_def DRONE_REG_VERSION_def MAX_MODEL_TIER_def BLS_PUBKEY_SIZE_def BLS_SIGNATURE_SIZE_def is_heartbeat_def GetDrone_def
        new_drone_list_def CalcTxInputsHash_def IsValidDronePayoutScript_def OP_RETURN_def COIN_def)
      (simp add: toy_reg_def COIN_def)
  have r1: "replay_list toy_chain_params toy_txs toy_b1 = Inr (new_drone_list [1] 1)"
    by (simp add: replay_list.simps IsDronePayoutActive_def toy_chain_params_def)
  have "checked_chain (take 20) (\<lambda>_. replicate 32 7) (\<lambda>pk h sg. pk ! 0 = sg ! 0) toy_chain_params True toy_txs toy_b2"
    unfolding checked_chain_def
  proof (intro allI impI ballI, elim conjE)
    fix n a q old tx
    assume *: "walk_back n toy_b2 = Some a" "IsDronePayoutActive toy_chain_params (nHeight a)" "pprev a = Some q"
      "replay_list toy_chain_params toy_txs q = Inr old" "tx \<in> set (toy_txs (bdata a))"
    have a: "a = toy_b2" by (rule wb [OF *(1,2)])
    then have "q = toy_b1" "tx = toy_reg 3" using *(3,5) by (simp_all add: toy_txs_def)
    moreover have "old = new_drone_list [1] 1" using *(4) r1 calculation(1) by simp
    ultimately show "CheckDroneRegTx (take 20) (\<lambda>_. replicate 32 7) (\<lambda>pk h sg. pk ! 0 = sg ! 0) toy_chain_params True (nHeight q) old True tx = None"
      using chk by simp
  qed
  from drone_payouts_signed [OF l this] show ?thesis using l by blast
qed

end
