(* ===== verification/Payments.thy ===== *)
theory Payments
  imports Drone_List "HOL-Library.Multiset"
begin

text \<open>
  \<^verbatim>\<open>masternode/payments.h\<close>, \<^verbatim>\<open>masternode/payments.cpp\<close>, the subsidy of \<^verbatim>\<open>validation.cpp\<close> and
  \<^verbatim>\<open>consensus/amount.h\<close>: the five-way split of the block reward, the coinbase a miner builds
  and the checks a coinbase has to pass.  The masternode list is outside the model: the
  number of enabled masternodes and the payee it selects are arguments, as is the spork.
  Amounts are integers: \<open>payment_products_fit\<close> shows that the percentages of a reward in the
  money range fit 64 bits, and the operator's product up to a reward of 46,116,860 coins.
  Rewards are never negative, so the flooring \<open>div\<close> is the truncating division of the code.
\<close>

section \<open>Amounts and subsidy\<close>

definition MAX_MONEY :: CAmount where
  "MAX_MONEY = 52560000 * COIN"

definition MoneyRange :: "CAmount \<Rightarrow> bool" where
  "MoneyRange nValue = (nValue \<ge> 0 \<and> nValue \<le> MAX_MONEY)"

definition GetBlockSubsidyInner :: "int \<Rightarrow> Params \<Rightarrow> CAmount" where
  "GetBlockSubsidyInner nPrevHeight p =
     (let halvings = nPrevHeight div nSubsidyHalvingInterval p
      in if halvings \<ge> 64 then 0 else drop_bit (nat halvings) (25 * COIN))"

definition GetMasternodePayment :: "CAmount \<Rightarrow> CAmount" where
  "GetMasternodePayment blockValue = blockValue div 5"

section \<open>The required outputs\<close>

type_synonym CTxOut = "CAmount \<times> script"

record mn_payee =
  mn_nOperatorReward :: int
  mn_scriptPayout :: script
  mn_scriptOperatorPayout :: script

text \<open>What the masternode list of the previous block gives: the enabled count and the payee.\<close>

record pay_context =
  pc_params :: Params
  pc_sporkActive :: bool
  pc_isDevnet :: bool
  pc_prevHeight :: "int option"
  pc_droneList :: CDroneList
  pc_mnEnabled :: nat
  pc_mnPayee :: "mn_payee option"

definition nBlockHeight :: "pay_context \<Rightarrow> int" where
  "nBlockHeight c = (case pc_prevHeight c of None \<Rightarrow> 0 | Some h \<Rightarrow> h + 1)"

definition escrow_outs :: "pay_context \<Rightarrow> CAmount \<Rightarrow> CTxOut list" where
  "escrow_outs c totalReward =
     (let p = pc_params c;
          escrowReward = totalReward * 40 div 100;
          payee = (if IsDronePayoutEffective p (pc_sporkActive c) (nBlockHeight c) then GetPayee (pc_droneList c) (nBlockHeight c) p else None)
      in case payee of
           Some drone \<Rightarrow> [(escrowReward, de_payoutScript drone)]
         | None \<Rightarrow>
             if nGrowthEscrowEndHeight p > 0 \<and> nBlockHeight c > nGrowthEscrowEndHeight p then [(escrowReward, [OP_RETURN])]
             else [(escrowReward, growthEscrowScript p)])"

definition operator_reward :: "mn_payee \<Rightarrow> CAmount \<Rightarrow> CAmount" where
  "operator_reward payee mnReward =
     (if mn_nOperatorReward payee \<noteq> 0 \<and> mn_scriptOperatorPayout payee \<noteq> []
      then (mnReward * mn_nOperatorReward payee) div 10000 else 0)"

definition mn_outs :: "pay_context \<Rightarrow> CAmount \<Rightarrow> CTxOut list" where
  "mn_outs c totalReward =
     (let mnReward = GetMasternodePayment totalReward
      in if pc_mnEnabled c > 0
         then (case pc_mnPayee c of
                 None \<Rightarrow> []
               | Some payee \<Rightarrow>
                   (let operatorReward = operator_reward payee mnReward;
                        mnReward = mnReward - operatorReward
                    in (if mnReward > 0 then [(mnReward, mn_scriptPayout payee)] else []) @
                       (if operatorReward > 0 then [(operatorReward, mn_scriptOperatorPayout payee)] else [])))
         else [])"

definition GetBlockTxOuts :: "pay_context \<Rightarrow> CAmount \<Rightarrow> CAmount \<Rightarrow> CTxOut list" where
  "GetBlockTxOuts c blockSubsidy feeReward =
     (let p = pc_params c; totalReward = blockSubsidy + feeReward
      in escrow_outs c totalReward @ mn_outs c totalReward @
         [(totalReward * 15 div 100, devFundPaymentScript p), (totalReward * 5 div 100, foundersPaymentScript p)])"

section \<open>Validation\<close>

definition IsLegacyTreasuryConsulted :: "int \<Rightarrow> int \<Rightarrow> bool" where
  "IsLegacyTreasuryConsulted height nSunsetHeight = (nSunsetHeight = 0 \<or> height < nSunsetHeight)"

definition legacy_scripts :: "pay_context \<Rightarrow> script \<Rightarrow> script list" where
  "legacy_scripts c current_spk =
     (let p = pc_params c; consulted = IsLegacyTreasuryConsulted (nBlockHeight c) (nLegacyDevfundSunsetHeight p)
      in if current_spk = growthEscrowScript p then legacyEscrowScripts p
         else if current_spk = devFundPaymentScript p then (if consulted then legacyDevFundScripts p else [])
         else if current_spk = foundersPaymentScript p then (if consulted then legacyFoundersPaymentScripts p else [])
         else [])"

text \<open>The loop over the legacy scripts: the outputs left when one of them matches.\<close>

fun match_legacy :: "CAmount \<Rightarrow> script list \<Rightarrow> CTxOut list \<Rightarrow> (CTxOut list) option" where
  "match_legacy nValue [] remaining = None"
| "match_legacy nValue (legacy # legacies) remaining =
     (if legacy = [] then match_legacy nValue legacies remaining
      else if (nValue, legacy) \<in> set remaining then Some (remove1 (nValue, legacy) remaining)
      else match_legacy nValue legacies remaining)"

fun match_payments :: "pay_context \<Rightarrow> CTxOut list \<Rightarrow> CTxOut list \<Rightarrow> bool" where
  "match_payments c [] remaining = True"
| "match_payments c (txout # payments) remaining =
     (if txout \<in> set remaining then match_payments c payments (remove1 txout remaining)
      else case match_legacy (fst txout) (legacy_scripts c (snd txout)) remaining of
             Some remaining \<Rightarrow> match_payments c payments remaining
           | None \<Rightarrow> False)"

definition IsTransactionValid :: "pay_context \<Rightarrow> CTxOut list \<Rightarrow> CAmount \<Rightarrow> CAmount \<Rightarrow> bool" where
  "IsTransactionValid c vout blockSubsidy feeReward =
     (if pc_isDevnet c \<and> nBlockHeight c = 1 then True
      else match_payments c (GetBlockTxOuts c blockSubsidy feeReward) vout)"

definition IsBlockPayeeValid :: "pay_context \<Rightarrow> CTxOut list \<Rightarrow> CAmount \<Rightarrow> CAmount \<Rightarrow> bool" where
  "IsBlockPayeeValid c vout blockSubsidy feeReward = IsTransactionValid c vout blockSubsidy feeReward"

text \<open>\<^verbatim>\<open>CTransaction::GetValueOut\<close>; \<open>None\<close> is its exception.\<close>

definition add_value :: "CTxOut \<Rightarrow> CAmount option \<Rightarrow> CAmount option" where
  "add_value txout acc =
     (case acc of
        None \<Rightarrow> None
      | Some nValueOut \<Rightarrow>
          if \<not> MoneyRange (fst txout) \<or> \<not> MoneyRange (nValueOut + fst txout) then None else Some (nValueOut + fst txout))"

definition GetValueOut :: "CTxOut list \<Rightarrow> CAmount option" where
  "GetValueOut vout = fold add_value vout (Some 0)"

definition IsBlockValueValid :: "CTxOut list \<Rightarrow> CAmount \<Rightarrow> bool option" where
  "IsBlockValueValid vout blockReward = map_option (\<lambda>v. \<not> v > blockReward) (GetValueOut vout)"

section \<open>The template of a miner\<close>

definition FillBlockPayments :: "pay_context \<Rightarrow> CTxOut list \<Rightarrow> CAmount \<Rightarrow> CAmount \<Rightarrow> CTxOut list" where
  "FillBlockPayments c vout blockSubsidy feeReward =
     (let payments = GetBlockTxOuts c blockSubsidy feeReward;
          totalPayments = sum_list (map fst payments)
      in if fst (vout ! 0) < totalPayments then vout
         else fold (\<lambda>txout vout. vout[0 := (fst (vout ! 0) - fst txout, snd (vout ! 0))] @ [txout]) payments vout)"

section \<open>The supply\<close>

definition halving_total :: "int \<Rightarrow> nat \<Rightarrow> int" where
  "halving_total interval k = interval * (\<Sum>j<k. drop_bit j (25 * COIN))"

lemma subsidy_nonneg: "0 \<le> GetBlockSubsidyInner h p"
  by (simp add: GetBlockSubsidyInner_def Let_def COIN_def)

lemma subsidy_at:
  assumes "nSubsidyHalvingInterval p > 0" and "j < nat (nSubsidyHalvingInterval p)"
  shows "GetBlockSubsidyInner (int k * nSubsidyHalvingInterval p + int j) p = (if k \<ge> 64 then 0 else drop_bit k (25 * COIN))"
proof -
  let ?I = "nSubsidyHalvingInterval p"
  have "int j < ?I" using assms by linarith
  then have "(int k * ?I + int j) div ?I = int k" using assms(1) by simp
  then show ?thesis by (auto simp: GetBlockSubsidyInner_def)
qed

lemma subsidy_period_sum:
  assumes "nSubsidyHalvingInterval p > 0"
  defines "I \<equiv> nat (nSubsidyHalvingInterval p)"
  shows "(\<Sum>i<k * I. GetBlockSubsidyInner (int i) p) = halving_total (nSubsidyHalvingInterval p) (min k 64)"
proof -
  have I: "int I = nSubsidyHalvingInterval p" "0 < I" using assms(1) by (simp_all add: I_def)
  have block: "(\<Sum>i = m * I..<m * I + I. GetBlockSubsidyInner (int i) p) = int I * (if m \<ge> 64 then 0 else drop_bit m (25 * COIN))" for m
  proof -
    have "GetBlockSubsidyInner (int i) p = (if m \<ge> 64 then 0 else drop_bit m (25 * COIN))" if "i \<in> {m * I..<m * I + I}" for i
    proof -
      define j where "j = i - m * I"
      have j: "i = m * I + j" "j < nat (nSubsidyHalvingInterval p)" using that by (auto simp: j_def I_def)
      have "int i = int m * nSubsidyHalvingInterval p + int j" by (simp add: j(1) I(1))
      then show ?thesis using subsidy_at [OF assms(1) j(2), of m] by simp
    qed
    then have "(\<Sum>i = m * I..<m * I + I. GetBlockSubsidyInner (int i) p) = (\<Sum>i = m * I..<m * I + I. if m \<ge> 64 then 0 else drop_bit m (25 * COIN))"
      by (intro sum.cong refl)
    then show ?thesis by (simp only: sum_constant card_atLeastLessThan add_diff_cancel_left')
  qed
  have "(\<Sum>i<k * I. GetBlockSubsidyInner (int i) p) = (\<Sum>m<k. \<Sum>i = m * I..<m * I + I. GetBlockSubsidyInner (int i) p)"
    by (rule sum.nat_group [symmetric])
  also have "\<dots> = int I * (\<Sum>m<k. if m \<ge> 64 then 0 else drop_bit m (25 * COIN))" unfolding block by (rule sum_distrib_left [symmetric])
  also have "(\<Sum>m<k. if m \<ge> 64 then 0 else drop_bit m (25 * COIN)) = (\<Sum>m<min k 64. drop_bit m (25 * COIN))"
    by (rule sum.mono_neutral_cong_right) auto
  finally show ?thesis by (simp add: halving_total_def I)
qed

fun halvings_from :: "nat \<Rightarrow> int \<Rightarrow> int" where
  "halvings_from 0 v = 0"
| "halvings_from (Suc n) v = v + halvings_from n (v div 2)"

lemma halvings_from_sum: "halvings_from n v = (\<Sum>j<n. v div 2 ^ j)"
proof (induction n arbitrary: v)
  case (Suc n)
  have "(\<Sum>j<n. v div 2 div 2 ^ j) = (\<Sum>j<n. v div 2 ^ Suc j)"
    by (intro sum.cong refl) (simp add: zdiv_zmult2_eq)
  then show ?case using Suc [of "v div 2"] by (simp add: sum.lessThan_Suc_shift del: sum.lessThan_Suc power_Suc)
qed simp

lemma halvings_value: "(\<Sum>j<64. drop_bit j (25 * COIN)) = 4999999989"
proof -
  have "(\<Sum>j<64. drop_bit j (25 * COIN)) = halvings_from 64 2500000000"
    by (simp add: halvings_from_sum drop_bit_eq_div COIN_def)
  also have "\<dots> = 4999999989" by (simp add: eval_nat_numeral)
  finally show ?thesis .
qed

lemma subsidy_sum_mono: "m \<le> n \<Longrightarrow> (\<Sum>i<m. GetBlockSubsidyInner (int i) p) \<le> (\<Sum>i<n. GetBlockSubsidyInner (int i) p)"
  by (intro sum_mono2) (auto simp: subsidy_nonneg)

lemma halving_total_mono: "0 \<le> interval \<Longrightarrow> j \<le> k \<Longrightarrow> halving_total interval j \<le> halving_total interval k"
  unfolding halving_total_def by (intro mult_left_mono sum_mono2) (auto simp: COIN_def)

lemma subsidy_sum_bound:
  assumes "nSubsidyHalvingInterval p > 0"
  defines "I \<equiv> nat (nSubsidyHalvingInterval p)"
  shows "(\<Sum>i<n. GetBlockSubsidyInner (int i) p) \<le> halving_total (nSubsidyHalvingInterval p) 64"
    and "(\<Sum>i<64 * I + n. GetBlockSubsidyInner (int i) p) = halving_total (nSubsidyHalvingInterval p) 64"
proof -
  have tot: "(\<Sum>i<k * I. GetBlockSubsidyInner (int i) p) = halving_total (nSubsidyHalvingInterval p) (min k 64)" for k
    unfolding I_def by (rule subsidy_period_sum [OF assms(1)])
  have "0 < I" using assms(1) by (simp add: I_def)
  then have le: "k \<le> k * I" for k by simp
  show bound: "(\<Sum>i<n. GetBlockSubsidyInner (int i) p) \<le> halving_total (nSubsidyHalvingInterval p) 64" for n
    using subsidy_sum_mono [OF le [of n], of p] halving_total_mono [of "nSubsidyHalvingInterval p" "min n 64" 64] assms(1)
    unfolding tot by linarith
  have "halving_total (nSubsidyHalvingInterval p) 64 \<le> (\<Sum>i<64 * I + n. GetBlockSubsidyInner (int i) p)"
    using subsidy_sum_mono [of "64 * I" "64 * I + n" p] tot [of 64] by simp
  then show "(\<Sum>i<64 * I + n. GetBlockSubsidyInner (int i) p) = halving_total (nSubsidyHalvingInterval p) 64"
    using bound [of "64 * I + n"] by linarith
qed

lemma subsidy_antimono:
  assumes "nSubsidyHalvingInterval p > 0" and "0 \<le> h" and "h \<le> h'"
  shows "GetBlockSubsidyInner h' p \<le> GetBlockSubsidyInner h p"
proof -
  let ?a = "h div nSubsidyHalvingInterval p" and ?b = "h' div nSubsidyHalvingInterval p"
  have ab: "?a \<le> ?b" using assms by (intro zdiv_mono1) auto
  then have "nat ?a \<le> nat ?b" by (rule nat_mono)
  then have "25 * COIN div 2 ^ nat ?b \<le> 25 * COIN div 2 ^ nat ?a" by (intro zdiv_mono2) (auto simp: COIN_def)
  moreover have "0 \<le> 25 * COIN div 2 ^ nat ?a" by (intro div_int_pos_iff [THEN iffD2]) (simp add: COIN_def)
  ultimately show ?thesis using ab unfolding GetBlockSubsidyInner_def Let_def drop_bit_eq_div by auto
qed

text \<open>
  C22: The subsidies never exceed the money supply.  On the main network the subsidies of
  the blocks up to any height add up to at most 52,559,999.884368 coins, which is below
  \<open>MAX_MONEY\<close>; they add up to exactly this from the sixty-fourth halving on, and no subsidy
  is larger than that of an earlier block.
\<close>

theorem supply_cap:
  "let s = (\<lambda>h. GetBlockSubsidyInner h (mainnet founders dev escrow lEscrow lDev lFounders))
   in (\<Sum>i<n. s (int i)) \<le> 5255999988436800 \<and> 5255999988436800 < MAX_MONEY \<and>
      (\<Sum>i<64 * 1051200 + n. s (int i)) = 5255999988436800 \<and> s (int (m + n)) \<le> s (int m)"
proof -
  define p where "p = mainnet founders dev escrow lEscrow lDev lFounders"
  have I: "nSubsidyHalvingInterval p = 1051200" by (simp add: p_def mainnet_def)
  have full: "halving_total 1051200 64 = 5255999988436800" unfolding halving_total_def halvings_value by simp
  have N: "nat 1051200 = 1051200" and zless: "(0 :: int) < 1051200" by simp_all
  note B = subsidy_sum_bound [of p, unfolded I full]
  have "GetBlockSubsidyInner (int (m + n)) p \<le> GetBlockSubsidyInner (int m) p"
    using subsidy_antimono [of p "int m" "int (m + n)"] I by simp
  moreover have "5255999988436800 < MAX_MONEY" by (simp add: MAX_MONEY_def COIN_def)
  moreover have "(\<Sum>i<64 * 1051200 + n. GetBlockSubsidyInner (int i) p) = 5255999988436800"
    by (rule B(2) [OF zless, unfolded N])
  moreover have "(\<Sum>i<n. GetBlockSubsidyInner (int i) p) \<le> 5255999988436800" by (rule B(1) [OF zless])
  ultimately show ?thesis unfolding p_def [symmetric] Let_def by blast
qed

section \<open>Matching\<close>

definition slot_match :: "pay_context \<Rightarrow> CTxOut \<Rightarrow> CTxOut \<Rightarrow> bool" where
  "slot_match c required out =
     (out = required \<or> fst out = fst required \<and> snd out \<noteq> [] \<and> snd out \<in> set (legacy_scripts c (snd required)))"

lemma match_legacy_Some:
  "match_legacy v legacies remaining = Some r \<Longrightarrow>
   \<exists>s \<in> set legacies. s \<noteq> [] \<and> (v, s) \<in> set remaining \<and> r = remove1 (v, s) remaining"
  by (induction legacies) (auto split: if_splits)

lemma mset_remove1_split: "x \<in> set xs \<Longrightarrow> mset xs = add_mset x (mset (remove1 x xs))"
  by (simp add: mset_remove1)

lemma match_payments_sound:
  "match_payments c payments remaining \<Longrightarrow>
   \<exists>outs rest. mset remaining = mset outs + mset rest \<and> list_all2 (slot_match c) payments outs"
proof (induction payments arbitrary: remaining)
  case Nil
  then show ?case by (intro exI [of _ "[]"] exI [of _ remaining]) simp
next
  case (Cons txout payments)
  obtain out where out: "out \<in> set remaining" "slot_match c txout out" "match_payments c payments (remove1 out remaining)"
  proof (cases "txout \<in> set remaining")
    case True
    then show ?thesis using that [of txout] Cons.prems by (simp add: slot_match_def)
  next
    case False
    then obtain r where r: "match_legacy (fst txout) (legacy_scripts c (snd txout)) remaining = Some r" "match_payments c payments r"
      using Cons.prems by (auto split: option.splits)
    obtain s where s: "s \<in> set (legacy_scripts c (snd txout))" "s \<noteq> []" "(fst txout, s) \<in> set remaining"
        "r = remove1 (fst txout, s) remaining"
      using match_legacy_Some [OF r(1)] by blast
    have "slot_match c txout (fst txout, s)" using s(1,2) by (simp add: slot_match_def)
    then show ?thesis using that [OF s(3)] r(2) s(4) by blast
  qed
  obtain outs rest where rest: "mset (remove1 out remaining) = mset outs + mset rest" "list_all2 (slot_match c) payments outs"
    using Cons.IH [OF out(3)] by blast
  have "mset remaining = mset (out # outs) + mset rest"
    unfolding mset_remove1_split [OF out(1)] rest(1) by simp
  moreover have "list_all2 (slot_match c) (txout # payments) (out # outs)" using out(2) rest(2) by simp
  ultimately show ?case by blast
qed

lemma match_payments_exact: "mset payments \<subseteq># mset remaining \<Longrightarrow> match_payments c payments remaining"
proof (induction payments arbitrary: remaining)
  case (Cons txout payments)
  have "txout \<in># mset remaining" using Cons.prems by (simp add: insert_subset_eq_iff)
  moreover have "mset payments \<subseteq># mset (remove1 txout remaining)"
    using Cons.prems by (simp add: insert_subset_eq_iff)
  ultimately show ?case using Cons.IH by simp
qed simp

section \<open>Values\<close>

lemma GetValueOut_fold:
  "fold add_value vout acc = Some v \<Longrightarrow> \<exists>a. acc = Some a \<and> v = a + sum_list (map fst vout) \<and> (\<forall>t \<in> set vout. MoneyRange (fst t))"
proof (induction vout arbitrary: acc)
  case (Cons t vout)
  have "fold add_value vout (add_value t acc) = Some v" using Cons.prems by simp
  then obtain a where a: "add_value t acc = Some a" "v = a + sum_list (map fst vout)" "\<forall>t \<in> set vout. MoneyRange (fst t)"
    using Cons.IH by blast
  then show ?case by (auto simp: add_value_def split: option.splits if_splits)
qed simp

lemma GetValueOut_Some: "GetValueOut vout = Some v \<Longrightarrow> v = sum_list (map fst vout) \<and> (\<forall>t \<in> set vout. MoneyRange (fst t))"
  unfolding GetValueOut_def by (drule GetValueOut_fold) auto

lemma fold_add_value:
  "\<forall>t \<in> set vout. 0 \<le> fst t \<Longrightarrow> 0 \<le> a \<Longrightarrow> a + sum_list (map fst vout) \<le> MAX_MONEY \<Longrightarrow>
   fold add_value vout (Some a) = Some (a + sum_list (map fst vout))"
proof (induction vout arbitrary: a)
  case (Cons t vout)
  have "\<forall>x \<in> set (map fst vout). 0 \<le> x" using Cons.prems(1) by simp
  then have "0 \<le> sum_list (map fst vout)" by (intro sum_list_nonneg) blast
  then have "MoneyRange (fst t)" "MoneyRange (a + fst t)" using Cons.prems by (auto simp: MoneyRange_def)
  then have "add_value t (Some a) = Some (a + fst t)" by (simp add: add_value_def)
  then show ?case using Cons.IH [of "a + fst t"] Cons.prems by (simp add: add.assoc)
qed simp

lemma GetValueOut_total:
  "\<forall>t \<in> set vout. 0 \<le> fst t \<Longrightarrow> sum_list (map fst vout) \<le> MAX_MONEY \<Longrightarrow> GetValueOut vout = Some (sum_list (map fst vout))"
  using fold_add_value [of vout 0] by (simp add: GetValueOut_def)

definition payee_ok :: "pay_context \<Rightarrow> bool" where
  "payee_ok c = (\<forall>payee. pc_mnPayee c = Some payee \<longrightarrow> 0 \<le> mn_nOperatorReward payee \<and> mn_nOperatorReward payee \<le> 10000)"

definition mn_paid :: "pay_context \<Rightarrow> bool" where
  "mn_paid c = (pc_mnEnabled c > 0 \<and> pc_mnPayee c \<noteq> None)"

lemma operator_share: "0 \<le> r \<Longrightarrow> 0 \<le> k \<Longrightarrow> k \<le> 10000 \<Longrightarrow> 0 \<le> r * k div 10000 \<and> r * k div 10000 \<le> (r :: int)"
proof -
  assume a: "0 \<le> r" "0 \<le> k" "k \<le> 10000"
  then have "r * k \<le> r * 10000" by (intro mult_left_mono) auto
  then have "r * k div 10000 \<le> r * 10000 div 10000" by (intro zdiv_mono1) auto
  moreover have "0 \<le> r * k" using a by simp
  ultimately show ?thesis by (simp add: pos_imp_zdiv_nonneg_iff)
qed

lemma mn_outs_sum:
  assumes "payee_ok c" "0 \<le> t"
  shows "sum_list (map fst (mn_outs c t)) = (if mn_paid c then t div 5 else 0)" and "\<forall>x \<in> set (mn_outs c t). 0 \<le> fst x"
proof -
  have "sum_list (map fst (mn_outs c t)) = (if mn_paid c then t div 5 else 0) \<and> (\<forall>x \<in> set (mn_outs c t). 0 \<le> fst x)"
  proof (cases "pc_mnEnabled c > 0 \<and> pc_mnPayee c \<noteq> None")
    case True
    then obtain y where y: "pc_mnPayee c = Some y" by blast
    define r where "r = t div 5"
    define f where "f = operator_reward y r"
    have "0 \<le> mn_nOperatorReward y" "mn_nOperatorReward y \<le> 10000" using assms(1) y by (auto simp: payee_ok_def)
    moreover have r: "0 \<le> r" using assms(2) by (simp add: r_def)
    ultimately have f: "0 \<le> f" "f \<le> r" using operator_share [of r "mn_nOperatorReward y"] by (simp_all add: f_def operator_reward_def)
    have "mn_outs c t = (if r - f > 0 then [(r - f, mn_scriptPayout y)] else []) @ (if f > 0 then [(f, mn_scriptOperatorPayout y)] else [])"
      using True by (simp add: mn_outs_def y GetMasternodePayment_def Let_def r_def f_def)
    moreover have "mn_paid c" using True by (simp add: mn_paid_def)
    ultimately show ?thesis unfolding r_def [symmetric] using f r by simp
  next
    case False
    then have "mn_outs c t = []" by (cases "pc_mnPayee c") (simp_all add: mn_outs_def Let_def)
    moreover have "\<not> mn_paid c" using False by (simp add: mn_paid_def)
    ultimately show ?thesis by simp
  qed
  then show "sum_list (map fst (mn_outs c t)) = (if mn_paid c then t div 5 else 0)" and "\<forall>x \<in> set (mn_outs c t). 0 \<le> fst x" by blast+
qed

lemma escrow_outs_single: "\<exists>s. escrow_outs c t = [(t * 40 div 100, s)]"
  by (auto simp: escrow_outs_def Let_def split: option.split)

lemma GetBlockTxOuts_sum:
  assumes "payee_ok c" "0 \<le> t" "t = sub + fee"
  shows "sum_list (map fst (GetBlockTxOuts c sub fee)) = t * 40 div 100 + (if mn_paid c then t div 5 else 0) + t * 15 div 100 + t * 5 div 100"
    and "\<forall>x \<in> set (GetBlockTxOuts c sub fee). 0 \<le> fst x"
proof -
  note M = mn_outs_sum [OF assms(1,2)]
  obtain s where s: "escrow_outs c t = [(t * 40 div 100, s)]" using escrow_outs_single by blast
  have eq: "GetBlockTxOuts c sub fee = [(t * 40 div 100, s)] @ mn_outs c t @
      [(t * 15 div 100, devFundPaymentScript (pc_params c)), (t * 5 div 100, foundersPaymentScript (pc_params c))]"
    by (simp only: GetBlockTxOuts_def Let_def assms(3) [symmetric] s)
  show "sum_list (map fst (GetBlockTxOuts c sub fee)) = t * 40 div 100 + (if mn_paid c then t div 5 else 0) + t * 15 div 100 + t * 5 div 100"
    unfolding eq by (simp only: map_append sum_list_append M(1) list.map fst_conv sum_list.Cons sum_list.Nil add_0_right add.assoc)
  show "\<forall>x \<in> set (GetBlockTxOuts c sub fee). 0 \<le> fst x"
    unfolding eq using M(2) assms(2) by (simp add: pos_imp_zdiv_nonneg_iff)
qed

lemma miner_share:
  fixes t :: int
  assumes "0 \<le> t"
  shows "5 * (t * 40 div 100 + t div 5 + t * 15 div 100 + t * 5 div 100) \<le> 4 * t"
    and "4 * t < 5 * (t * 40 div 100 + t div 5 + t * 15 div 100 + t * 5 div 100) + 20"
    and "0 \<le> t div 5"
proof -
  have q: "n * (x div n) \<le> x \<and> x < n * (x div n) + n" if "0 < n" for x n :: int
    using that by (simp add: mult_div_mod_eq [symmetric] minus_mod_eq_mult_div [symmetric])
  have z: "(0 :: int) < 100" "(0 :: int) < 5" by simp_all
  note b = q [OF z(1), of "t * 40", THEN conjunct1] q [OF z(1), of "t * 40", THEN conjunct2]
    q [OF z(2), of t, THEN conjunct1] q [OF z(2), of t, THEN conjunct2]
    q [OF z(1), of "t * 15", THEN conjunct1] q [OF z(1), of "t * 15", THEN conjunct2]
    q [OF z(1), of "t * 5", THEN conjunct1] q [OF z(1), of "t * 5", THEN conjunct2]
  have s: "5 * (a + x + y + z) \<le> 4 * t \<and> 4 * t < 5 * (a + x + y + z) + 20"
    if "100 * a \<le> t * 40" "t * 40 < 100 * a + 100" "5 * x \<le> t" "t < 5 * x + 5" "100 * y \<le> t * 15" "t * 15 < 100 * y + 100"
      "100 * z \<le> t * 5" "t * 5 < 100 * z + 100" for a x y z
  proof
    show "5 * (a + x + y + z) \<le> 4 * t" using that unfolding distrib_left by linarith
    show "4 * t < 5 * (a + x + y + z) + 20" using that unfolding distrib_left by linarith
  qed
  show "5 * (t * 40 div 100 + t div 5 + t * 15 div 100 + t * 5 div 100) \<le> 4 * t"
    and "4 * t < 5 * (t * 40 div 100 + t div 5 + t * 15 div 100 + t * 5 div 100) + 20"
    using s [OF b] by blast+
  show "0 \<le> t div 5" using assms by simp
qed

lemma pay_shares:
  fixes t a x y z :: int
  assumes "5 * (a + x + y + z) \<le> 4 * t" "4 * t < 5 * (a + x + y + z) + 20" "0 \<le> x"
  shows "t \<le> 5 * (t - (a + x + y + z))" "t \<le> 5 * (t - (a + 0 + y + z))" "5 * (t - (a + x + y + z)) < t + 20"
proof -
  show "t \<le> 5 * (t - (a + x + y + z))" using assms unfolding right_diff_distrib distrib_left by linarith
  show "t \<le> 5 * (t - (a + 0 + y + z))" using assms unfolding right_diff_distrib distrib_left by linarith
  show "5 * (t - (a + x + y + z)) < t + 20" using assms unfolding right_diff_distrib distrib_left by linarith
qed

lemma fold_payments:
  fixes v :: CAmount
  shows "fold (\<lambda>txout vout. vout[0 := (fst (vout ! 0) - fst txout, snd (vout ! 0))] @ [txout]) payments ((v, s) # xs)
   = (v - sum_list (map fst payments), s) # xs @ payments"
  by (induction payments arbitrary: v xs) (simp_all add: algebra_simps)



lemma slot_match_fst: "list_all2 (slot_match c) payments outs \<Longrightarrow> sum_list (map fst outs) = sum_list (map fst payments)"
  by (induction rule: list_all2_induct) (auto simp: slot_match_def)

lemma slot_match_exact: "slot_match c required out \<Longrightarrow> legacy_scripts c (snd required) = [] \<Longrightarrow> out = required"
  by (simp add: slot_match_def)

lemma matched_output:
  assumes "list_all2 (slot_match c) payments outs" "x \<in> set payments" "legacy_scripts c (snd x) = []"
  shows "x \<in> set outs"
  using assms(1,2)
proof (induction rule: list_all2_induct)
  case (Cons y ys z zs)
  then show ?case using slot_match_exact [OF Cons.hyps(1)] assms(3) by auto
qed simp

lemma payee_valid_outputs:
  assumes "IsBlockPayeeValid c vout sub fee" "\<not> (pc_isDevnet c \<and> nBlockHeight c = 1)"
  obtains outs rest where "mset vout = mset outs + mset rest" "list_all2 (slot_match c) (GetBlockTxOuts c sub fee) outs"
    "set vout = set outs \<union> set rest"
proof -
  have "match_payments c (GetBlockTxOuts c sub fee) vout"
    using assms by (auto simp: IsBlockPayeeValid_def IsTransactionValid_def)
  then obtain outs rest where m: "mset vout = mset outs + mset rest" "list_all2 (slot_match c) (GetBlockTxOuts c sub fee) outs"
    using match_payments_sound by blast
  have "set vout = set outs \<union> set rest" using arg_cong [OF m(1), of set_mset] by simp
  then show ?thesis using that m by blast
qed

lemma required_output_paid:
  assumes "IsBlockPayeeValid c vout sub fee" "\<not> (pc_isDevnet c \<and> nBlockHeight c = 1)"
    and "x \<in> set (GetBlockTxOuts c sub fee)" "legacy_scripts c (snd x) = []"
  shows "x \<in> set vout"
  by (rule payee_valid_outputs [OF assms(1,2)]) (use matched_output assms(3,4) in blast)

lemma drone_output_paid:
  assumes "IsBlockPayeeValid c vout sub fee" "\<not> (pc_isDevnet c \<and> nBlockHeight c = 1)"
    and "IsDronePayoutEffective (pc_params c) (pc_sporkActive c) (nBlockHeight c)"
    and "GetPayee (pc_droneList c) (nBlockHeight c) (pc_params c) = Some d"
    and "de_payoutScript d \<notin> {growthEscrowScript (pc_params c), devFundPaymentScript (pc_params c), foundersPaymentScript (pc_params c)}"
  shows "((sub + fee) * 40 div 100, de_payoutScript d) \<in> set vout"
proof (rule required_output_paid [OF assms(1,2)])
  have "escrow_outs c (sub + fee) = [((sub + fee) * 40 div 100, de_payoutScript d)]"
    using assms(3,4) unfolding escrow_outs_def Let_def by simp
  then show "((sub + fee) * 40 div 100, de_payoutScript d) \<in> set (GetBlockTxOuts c sub fee)"
    unfolding GetBlockTxOuts_def Let_def by simp
  show "legacy_scripts c (snd ((sub + fee) * 40 div 100, de_payoutScript d)) = []"
    using assms(5) by (simp add: legacy_scripts_def Let_def)
qed

text \<open>
  C5: A coinbase that passes both checks pays everybody.  Its outputs split into one output
  per required payment, each with the required amount and either the required script or an
  accepted earlier script of the same treasury slot, and a rest that is at most what the
  required payments leave of the reward; no output serves two payments.  The drone payee, whose script is none
  of the three treasury scripts, is paid its 40 percent by an output of its own, and from
  the sunset height on the developer share goes to the current script only.
\<close>

theorem validated_coinbase_pays_all:
  assumes "IsBlockPayeeValid c vout sub fee" "IsBlockValueValid vout (sub + fee) = Some True"
    and "\<not> (pc_isDevnet c \<and> nBlockHeight c = 1)" "payee_ok c" "0 \<le> sub + fee"
  shows "let t = sub + fee; required = GetBlockTxOuts c sub fee; p = pc_params c
         in (\<exists>outs rest. mset vout = mset outs + mset rest \<and> list_all2 (slot_match c) required outs \<and>
               0 \<le> sum_list (map fst rest) \<and> sum_list (map fst rest) \<le> t - sum_list (map fst required) \<and>
               (mn_paid c \<longrightarrow> 5 * sum_list (map fst rest) < t + 20)) \<and>
            (\<forall>d. IsDronePayoutEffective p (pc_sporkActive c) (nBlockHeight c) \<longrightarrow>
                 GetPayee (pc_droneList c) (nBlockHeight c) p = Some d \<longrightarrow>
                 de_payoutScript d \<notin> {growthEscrowScript p, devFundPaymentScript p, foundersPaymentScript p} \<longrightarrow>
                 (t * 40 div 100, de_payoutScript d) \<in> set vout) \<and>
            (\<not> IsLegacyTreasuryConsulted (nBlockHeight c) (nLegacyDevfundSunsetHeight p) \<longrightarrow>
             devFundPaymentScript p \<noteq> growthEscrowScript p \<longrightarrow> (t * 15 div 100, devFundPaymentScript p) \<in> set vout)"
proof -
  define t where "t = sub + fee"
  define p where "p = pc_params c"
  let ?req = "GetBlockTxOuts c sub fee"
  have t0: "0 \<le> t" using assms(5) by (simp add: t_def)
  obtain outs rest where m: "mset vout = mset outs + mset rest" "list_all2 (slot_match c) ?req outs"
    and members: "set vout = set outs \<union> set rest"
    by (rule payee_valid_outputs [OF assms(1,3)])
  obtain v where v: "GetValueOut vout = Some v" "v \<le> t" using assms(2) by (auto simp: IsBlockValueValid_def t_def)
  have "sum_list (map fst vout) = sum_list (map fst outs) + sum_list (map fst rest)"
    using arg_cong [OF m(1), of "\<lambda>M. sum_mset (image_mset fst M)"] by (simp add: sum_mset_sum_list flip: mset_map)
  then have le: "sum_list (map fst rest) \<le> t - sum_list (map fst ?req)"
    using v GetValueOut_Some [OF v(1)] slot_match_fst [OF m(2)] by linarith
  have "\<forall>x \<in> set (map fst rest). 0 \<le> x" using GetValueOut_Some [OF v(1)] members by (auto simp: MoneyRange_def)
  then have nonneg: "0 \<le> sum_list (map fst rest)" by (intro sum_list_nonneg) blast
  have "5 * (t - sum_list (map fst ?req)) < t + 20" if "mn_paid c"
    using pay_shares(3) [OF miner_share [OF t0]] that unfolding GetBlockTxOuts_sum(1) [OF assms(4) t0 t_def] by simp
  then have small: "mn_paid c \<longrightarrow> 5 * sum_list (map fst rest) < t + 20" using le by fastforce
  note drone = drone_output_paid [OF assms(1,3), folded p_def t_def]
  have dev: "(t * 15 div 100, devFundPaymentScript p) \<in> set vout"
    if "\<not> IsLegacyTreasuryConsulted (nBlockHeight c) (nLegacyDevfundSunsetHeight p)" "devFundPaymentScript p \<noteq> growthEscrowScript p"
  proof (rule required_output_paid [OF assms(1,3)])
    show "(t * 15 div 100, devFundPaymentScript p) \<in> set ?req"
      unfolding GetBlockTxOuts_def Let_def t_def [symmetric] p_def [symmetric] by simp
    show "legacy_scripts c (snd (t * 15 div 100, devFundPaymentScript p)) = []"
      using that by (simp add: legacy_scripts_def Let_def p_def)
  qed
  show ?thesis unfolding Let_def p_def [symmetric] t_def [symmetric] using m le nonneg small drone dev by blast
qed

lemma payment_products_fit:
  assumes "0 \<le> t" "t \<le> MAX_MONEY" "0 \<le> k" "k \<le> 10000"
  shows "t * 40 < 2 ^ 63" and "t \<le> 46116860 * COIN \<Longrightarrow> GetMasternodePayment t * k < 2 ^ 63"
proof -
  show "t * 40 < 2 ^ 63" using assms(2) by (simp add: MAX_MONEY_def COIN_def)
  assume "t \<le> 46116860 * COIN"
  then have "GetMasternodePayment t \<le> 922337200000000" by (simp add: GetMasternodePayment_def COIN_def)
  moreover have "0 \<le> GetMasternodePayment t" using assms(1) by (simp add: GetMasternodePayment_def)
  ultimately have "GetMasternodePayment t * k \<le> 922337200000000 * 10000" using assms(3,4) by (intro mult_mono) auto
  then show "GetMasternodePayment t * k < 2 ^ 63" by simp
qed

text \<open>A block after the activation of the drone payouts, on a list with two drones and one masternode.\<close>

definition toy_pay :: pay_context where
  "toy_pay = \<lparr>pc_params = mainnet [1] [2] [3] [] [] [], pc_sporkActive = True, pc_isDevnet = False, pc_prevHeight = Some 130001,
     pc_droneList = toy_list, pc_mnEnabled = 1,
     pc_mnPayee = Some \<lparr>mn_nOperatorReward = 500, mn_scriptPayout = [0x77], mn_scriptOperatorPayout = [0x78]\<rparr>\<rparr>"

lemma toy_pay_ok: "payee_ok toy_pay" "mn_paid toy_pay" "nBlockHeight toy_pay = 130002" "\<not> pc_isDevnet toy_pay"
  by (simp_all add: payee_ok_def mn_paid_def toy_pay_def nBlockHeight_def)


lemma toy_pay_drone:
  "IsDronePayoutEffective (pc_params toy_pay) (pc_sporkActive toy_pay) 130002"
  "GetPayee (pc_droneList toy_pay) 130002 (pc_params toy_pay) = Some (toy_drone 2 130000)"
  by (simp_all add: toy_pay_def IsDronePayoutEffective_def IsDronePayoutActive_def mainnet_def GetPayee_def toy_list_def toy_drone_def
      better_payee_def IsEligible_def CompareDronesByLastPaid_def EffectiveLastPaidHeight_def)

theorem validated_coinbase_pays_all_witness:
  "(100 * COIN * 40 div 100, [0x76, 2]) \<in> set (GetBlockTxOuts toy_pay (100 * COIN) 0) \<and>
   IsBlockPayeeValid toy_pay (GetBlockTxOuts toy_pay (100 * COIN) 0) (100 * COIN) 0"
proof -
  let ?v = "GetBlockTxOuts toy_pay (100 * COIN) 0"
  have pos: "(0 :: int) \<le> 100 * COIN" "100 * COIN = 100 * COIN + 0" by (simp_all add: COIN_def)
  note S = GetBlockTxOuts_sum [OF toy_pay_ok(1) pos]
  have sum: "sum_list (map fst ?v) = 80 * COIN" unfolding S(1) by (simp add: toy_pay_ok COIN_def)
  have "GetValueOut ?v = Some (sum_list (map fst ?v))"
    by (rule GetValueOut_total [OF S(2)]) (simp add: sum, simp add: COIN_def MAX_MONEY_def)
  then have val: "IsBlockValueValid ?v (100 * COIN + 0) = Some True" unfolding IsBlockValueValid_def sum by (simp add: COIN_def)
  have pay: "IsBlockPayeeValid toy_pay ?v (100 * COIN) 0"
    by (simp add: IsBlockPayeeValid_def IsTransactionValid_def match_payments_exact)
  have "\<not> (pc_isDevnet toy_pay \<and> nBlockHeight toy_pay = 1)" "0 \<le> 100 * COIN + 0" using toy_pay_ok pos by auto
  note P = validated_coinbase_pays_all [OF pay val this(1) toy_pay_ok(1) this(2), unfolded Let_def, THEN conjunct2, THEN conjunct1,
      rule_format, of "toy_drone 2 130000", unfolded toy_pay_ok(3)]
  have "(100 * COIN * 40 div 100, [0x76, 2]) \<in> set ?v"
    using P [OF toy_pay_drone] by (simp add: toy_pay_def toy_drone_def mainnet_def)
  then show ?thesis using pay by blast
qed

end
