(* ===== verification/Spec2Isabelle.thy ===== *)
theory Spec2Isabelle
  imports Hmp_Chain_State Drone_Store Payments
begin

text \<open>
  A verification library for the consensus core of the Kerrigan node.

  \<^bold>\<open>The program.\<close>  Kerrigan is a proof-of-work chain with four mining algorithms, derived from
  a masternode coin.  Its own additions, and the old code they stand on, are:

  \<^item> the difficulty code (\<^verbatim>\<open>pow.cpp\<close>): each block gets a target for its algorithm, computed by
    the Hivemind retarget and, from a height on, by a linearly weighted average per algorithm,
    on 256-bit numbers (\<^verbatim>\<open>arith_uint256\<close>);
  \<^item> the Hivemind Protocol, HMP (\<^verbatim>\<open>hmp/\<close>): daemons sign recent blocks with BLS keys; the
    signature shares are collected into a seal (\<^verbatim>\<open>seal_manager.cpp\<close>), a miner puts the seal
    of an ancestor into its coinbase payload (\<^verbatim>\<open>evo/cbtx.h\<close>, \<^verbatim>\<open>node/miner.cpp\<close>), and
    \<^verbatim>\<open>ConnectBlock\<close> (\<^verbatim>\<open>validation.cpp\<close>) weighs the work of the block by that seal.  Who counts is
    decided by a tracker of recent contributions (\<^verbatim>\<open>privilege.cpp\<close>), a registry of keys committed
    to the chain (\<^verbatim>\<open>commitment.cpp\<close>) and a lottery (\<^verbatim>\<open>vrf.cpp\<close>); the weight comes from
    \<^verbatim>\<open>chain_weight.cpp\<close> and \<^verbatim>\<open>negative_proof.cpp\<close>.  Trackers live in memory and are rebuilt
    from the chain on a restart and after a reorganisation;
  \<^item> inference drones (\<^verbatim>\<open>evo/dronelist.cpp\<close>): bonded registrations in special transactions, checked
    in \<^verbatim>\<open>evo/specialtxman.cpp\<close>, give a list per block, stored as diffs and snapshots in the
    evolution database (\<^verbatim>\<open>evo/evodb.cpp\<close>, \<^verbatim>\<open>dbwrapper.h\<close>);
  \<^item> the payments (\<^verbatim>\<open>masternode/payments.cpp\<close>): the reward of a block is split five ways, and
    40 percent go to the drone whose turn it is.

  \<^bold>\<open>The theories\<close>, each with the code it models, in the order of their imports.

  \<^item> \<^verbatim>\<open>Prelude\<close>: hashes and BLS values as types, the deque loops of the trackers, list lemmas.
  \<^item> \<^verbatim>\<open>Ordered_Map\<close>: \<^verbatim>\<open>std::map\<close> as a sorted association list; the locale \<open>ordered_map\<close> is its
    contract, with the lemmas on folds of updates and erasures that the components use.
  \<^item> \<^verbatim>\<open>Arith_Uint256\<close>: \<^verbatim>\<open>base_uint<256>\<close> limb by limb with 32-bit words; each operator is refined
    to naturals modulo \<open>2 ^ 256\<close> (locale \<open>modular_arith\<close>), with the compact encoding.
  \<^item> \<^verbatim>\<open>Consensus_Params\<close>: \<^verbatim>\<open>Consensus::Params\<close> as a record, the height gates, the values of the main
    network.
  \<^item> \<^verbatim>\<open>Pow_Target\<close>: \<^verbatim>\<open>GetNextWorkRequired\<close> with both retargets and \<^verbatim>\<open>CheckProofOfWork\<close>.
  \<^item> \<^verbatim>\<open>Serialize\<close>: readers and writers of byte lists for the formats of \<^verbatim>\<open>serialize.h\<close> that occur;
    the locales \<open>format\<close> and \<open>canonical_format\<close> state the round trip and its converse, and
    every message below interprets one of them.
  \<^item> \<^verbatim>\<open>Hmp_Privilege\<close>, \<^verbatim>\<open>Hmp_Commitment\<close>, \<^verbatim>\<open>Hmp_Weight\<close>, \<^verbatim>\<open>Hmp_Identity\<close>, \<^verbatim>\<open>Hmp_Seal\<close>: one theory per
    file pair of \<^verbatim>\<open>hmp/\<close>; classes are records, methods are functions on them.  The tracker and the
    registry have an invariant that ties them to the window of blocks they stand for (locales
    \<open>window_index\<close>, \<open>first_seen\<close>); the seal manager has a step relation for the
    interleavings of its callers and of its timer.
  \<^item> \<^verbatim>\<open>Bls_Wire\<close>, \<^verbatim>\<open>Coinbase_Tx\<close>: the byte forms of keys, shares, seals and commitments, the coinbase
    payload, \<^verbatim>\<open>CheckCbTx\<close> and the HMP part of \<^verbatim>\<open>CreateNewBlock\<close>.
  \<^item> \<^verbatim>\<open>Block_Index\<close>: \<^verbatim>\<open>CBlockIndex\<close> as a tree of entries with skip pointers, and \<^verbatim>\<open>CChain\<close>.
  \<^item> \<^verbatim>\<open>Hmp_Connect\<close>, \<^verbatim>\<open>Hmp_Chain_State\<close>: the HMP section of \<^verbatim>\<open>ConnectBlock\<close> with its deferred
    mutations, \<^verbatim>\<open>DisconnectTip\<close>, \<^verbatim>\<open>RebuildHMPState\<close>, \<^verbatim>\<open>ReplayBlocks\<close> and the weighted work, and
    what they guarantee in every history of a node.
  \<^item> \<^verbatim>\<open>Drone_Wire\<close>: the registration payload and the list entry with their byte forms.
  \<^item> \<^verbatim>\<open>Evo_Db\<close>: \<^verbatim>\<open>CDBTransaction\<close> and \<^verbatim>\<open>CEvoDB\<close>; the locale \<open>commit_target\<close> is what a
    transaction needs of the place it commits to, interpreted for both levels.
  \<^item> \<^verbatim>\<open>Drone_List\<close>: \<^verbatim>\<open>CDroneList\<close>, its diffs and \<^verbatim>\<open>BuildListFromBlock\<close>; exceptions are values.
  \<^item> \<^verbatim>\<open>Drone_Store\<close>: \<^verbatim>\<open>CDroneListManager\<close> on the database, \<^verbatim>\<open>CheckDroneRegTx\<close>, and the transaction
    scopes of \<^verbatim>\<open>ConnectTip\<close>, \<^verbatim>\<open>DisconnectTip\<close> and the flush around them (locale \<open>list_diffs\<close>).
  \<^item> \<^verbatim>\<open>Payments\<close>: the subsidy, \<^verbatim>\<open>GetBlockTxOuts\<close>, the payee and value checks, \<^verbatim>\<open>FillBlockPayments\<close>.
  \<^item> This theory: the payments of a node whose drone list comes from its store.

  \<^bold>\<open>What is shown.\<close>

  \<^item> \<^emph>\<open>State is a function of the chain.\<close>  Whatever a node connected, rejected, tested and
    disconnected, and however often it restarted, the privilege tracker of an anchored state
    (\<open>tracker_determined_by_chain\<close>), the weighted work of a connected block
    (\<open>restart_reproduces_work\<close>) and the drone list of the best block
    (\<open>drone_store_refines_replay\<close>) are what a replay of the chain gives; nodes therefore agree
    on the payout (\<open>nodes_agree_on_payout\<close>).  The registry of commitments is the exception:
    \<open>registry_replay_diverges\<close> is a counterexample with the real eviction window.
  \<^item> \<^emph>\<open>Safety of the operations.\<close>  A rejected block leaves no trace in the trackers; a node signs
    at most one block per height; only committed, privileged and selected signers are counted;
    a registered drone cannot be rebound and was registered by the holder of its key; a coinbase
    that passes the checks pays everybody, no output counting twice.
  \<^item> \<^emph>\<open>Miner and validator agree.\<close>  A node's own template passes its own checks, for the payload
    (\<open>template_passes_checks\<close>), for the payments (\<open>template_payments_accepted\<close>) and for the
    required work (\<open>next_work_minable\<close>).
  \<^item> \<^emph>\<open>Refinement.\<close>  256-bit arithmetic to naturals, the database to three maps, the drone list to
    a specification on plain maps, the tracker to counts over its window, the active chain to
    the ancestors of its tip.
  \<^item> \<^emph>\<open>Bounds and encodings.\<close>  Seal weights, retargets, pool and session sizes, the money supply;
    every stored and transmitted form reads back, and integers have one encoding only.

  \<^bold>\<open>Integers, loops and bounds.\<close>  Machine words are kept where the code relies on their width (the
    limbs, compact sizes, timestamps in wire form, indices in payloads).  Heights, times and amounts
    are integers; \<open>payment_products_fit\<close> bounds the products of the payments.  All loops are
    total functions: they recurse on their data, on a bound the code itself has (the search depth
    of the retarget, the number of easing steps), or on the size of the block tree, so no fuel is
    involved; the one loop that is written with \<open>partial_function\<close>, the block locator, is proved
    to return.  Where the code divides by \<^verbatim>\<open>/\<close>, negative operands are either impossible or
    handled by \<open>cdiv\<close>, the truncating division.

  \<^bold>\<open>Parameters.\<close>  BLS, the proving library behind the negative proofs, hash functions, the
    masternode list, file-system outcomes, reading blocks from disk and the verdict of all other block
    checks are arguments of the definitions; results that need something of them say so in their hypotheses.

  \<^bold>\<open>Not modelled.\<close>  Scripts, coins and the mempool; networking, threads and timers (their handlers
    are operations that may come in any order); quorums, chain locks and governance; Sapling,
    whose proofs are checked by a Rust library; wallet, remote procedure calls and user
    interface; LevelDB, which is the map on disk of \<^verbatim>\<open>Evo_Db\<close>, with a batch write that succeeds.
\<close>

section \<open>The drone payout of a block\<close>

text \<open>
  \<^verbatim>\<open>GetBlockTxOuts\<close> on a running node: what the payments read of the drone list of the block
  \<open>pindexPrev\<close> comes from the list manager, and only once the payout is in effect.  An
  exception of the manager leaves the check.
\<close>

definition payment_context ::
    "Params \<Rightarrow> bool \<Rightarrow> bool \<Rightarrow> nat \<Rightarrow> mn_payee option \<Rightarrow> uint256 block_entry \<Rightarrow> CDroneListManager \<Rightarrow> pay_context result" where
  "payment_context p sporkActive isDevnet mnEnabled mnPayee pindexPrev m =
     bindE (if IsDronePayoutEffective p sporkActive (nHeight pindexPrev + 1) then snd (GetListForBlockInternal p m pindexPrev)
            else Inr (new_drone_list (bdata pindexPrev) (nHeight pindexPrev)))
       (\<lambda>droneList. Inr \<lparr>pc_params = p, pc_sporkActive = sporkActive, pc_isDevnet = isDevnet, pc_prevHeight = Some (nHeight pindexPrev),
          pc_droneList = droneList, pc_mnEnabled = mnEnabled, pc_mnPayee = mnPayee\<rparr>)"

text \<open>A node that starts with an empty database and lives through the events.\<close>

definition node_after ::
    "Params \<Rightarrow> int \<Rightarrow> (uint256 \<Rightarrow> drone_tx list) \<Rightarrow> int \<Rightarrow> drone_event list \<Rightarrow> CDroneListManager" where
  "node_after p dip3 txs period evs = fold (drone_step p dip3 txs) evs (new_drone_manager (open_evodb []) period)"

text \<open>The block \<open>b\<close> pays \<open>d\<close> and books the payment, unless it spends the bond of \<open>d\<close> itself.\<close>

definition booked :: "Params \<Rightarrow> (uint256 \<Rightarrow> drone_tx list) \<Rightarrow> uint256 block_entry \<Rightarrow> CDroneEntry \<Rightarrow> bool" where
  "booked p txs b d =
     (\<forall>l'. replay_list p txs b = Inr l' \<and> bond_kept (txs (bdata b)) d \<longrightarrow>
        (\<exists>d'. GetDrone l' (de_blsPubKeyHash d) = Some d' \<and> de_nLastPaidHeight d' = nHeight b \<and> de_payoutScript d' = de_payoutScript d))"

lemma node_store_ok:
  assumes "block_tree B" "dip3 \<le> nDronePayoutHeight p" "\<forall>ev \<in> set evs. event_blocks ev \<subseteq> B"
  shows "store_ok p txs B (node_after p dip3 txs period evs)"
  unfolding node_after_def by (rule store_ok_run [OF assms store_ok_initial])

lemma payment_context_replay:
  assumes "block_tree B" "store_ok p txs B m" "e \<in> B" "VerifyBestBlock (bdata e) (m_evoDb m)"
    and "replay_list p txs e = Inr l"
  shows "payment_context p sporkActive isDevnet mnEnabled mnPayee e m =
         Inr \<lparr>pc_params = p, pc_sporkActive = sporkActive, pc_isDevnet = isDevnet, pc_prevHeight = Some (nHeight e),
           pc_droneList = (if IsDronePayoutEffective p sporkActive (nHeight e + 1) then l else new_drone_list (bdata e) (nHeight e)),
           pc_mnEnabled = mnEnabled, pc_mnPayee = mnPayee\<rparr>"
  using store_lists [OF assms(1-4), of 0 e] assms(5) by (simp add: payment_context_def bindE_def)

lemma payee_booked:
  assumes "in_tree b" "pprev b = Some e" "IsDronePayoutActive p (nHeight e + 1)"
    and l: "replay_list p txs e = Inr l" "drone_list_wf l" and d: "GetPayee l (nHeight e + 1) p = Some d"
  shows "booked p txs b d"
  unfolding booked_def
proof (intro allI impI)
  fix l'
  assume "replay_list p txs b = Inr l' \<and> bond_kept (txs (bdata b)) d"
  then have r: "replay_list p txs b = Inr l'" and kept: "bond_kept (txs (bdata b)) d" by simp_all
  have h: "nHeight b = nHeight e + 1" using assms(1,2) by (cases rule: in_tree_cases) auto
  obtain new where new: "BuildListFromBlock p (txs (bdata b)) (nHeight b) l = Inr new" "l' = new\<lparr>dl_blockHash := bdata b\<rparr>"
    using r assms(3) by (auto simp: replay_list.simps [of p txs b] h assms(2) l(1) bindE_eq_Inr)
  have "GetDrone l (de_blsPubKeyHash d) = Some d" 
    using GetPayee_spec(2) [OF d] eligible_in_view [OF l(2)] by (simp add: GetDrone_def drone_view_def)
  from kept_drone [OF l(2) new(1) this kept] d
  show "\<exists>d'. GetDrone l' (de_blsPubKeyHash d) = Some d' \<and> de_nLastPaidHeight d' = nHeight b \<and> de_payoutScript d' = de_payoutScript d"
    by (simp add: new(2) h GetDrone_def)
qed




end
